(* ===== verification/Gateway_Prelude.thy ===== *)
theory Gateway_Prelude
  imports Main
begin

text \<open>
  Shared vocabulary of the development: the named collections of simplification rules that
  the component theories fill, the Go scalar types, the clock arithmetic of the
  \<^verbatim>\<open>time\<close> package that the source uses, and lemmas on maps read with a default.
\<close>

named_theorems breaker_simps "definitions of the circuit breaker operations"
named_theorems balancer_simps "definitions of the balancer operations"
named_theorems routing_simps "definitions of the routing strategies"
named_theorems fallback_simps "definitions of the fallback engine"
named_theorems service_simps "definitions of the chat service"

section \<open>Go scalars and the clock\<close>

text \<open>
  A Go \<^verbatim>\<open>int\<close> is an \<^typ>\<open>int\<close>: the counters of the source (failures, slots,
  lengths) never come near the 64-bit bound. Where the width matters (durations,
  \<^verbatim>\<open>strconv.Atoi\<close>) the bound is written out. An instant and a
  \<^verbatim>\<open>time.Duration\<close> are nanoseconds.
\<close>

type_synonym instant = int
type_synonym duration = int

definition min_int64 :: int where "min_int64 = - (2 ^ 63)"
definition max_int64 :: int where "max_int64 = 2 ^ 63 - 1"

definition in_int64 :: "int \<Rightarrow> bool" where
  "in_int64 n \<longleftrightarrow> min_int64 \<le> n \<and> n \<le> max_int64"

text \<open>
  \<^verbatim>\<open>t.Sub(u)\<close>, and so \<^verbatim>\<open>time.Since\<close>: the difference, saturated at the
  bounds of the 64-bit duration.
\<close>

definition time_sub :: "instant \<Rightarrow> instant \<Rightarrow> duration" where
  "time_sub t u = max min_int64 (min max_int64 (t - u))"

lemma time_sub_exact: "in_int64 (t - u) \<Longrightarrow> time_sub t u = t - u"
  by (simp add: time_sub_def in_int64_def)

lemma time_sub_ge_iff:
  "in_int64 d \<Longrightarrow> min_int64 < d \<Longrightarrow> d \<le> time_sub t u \<longleftrightarrow> d \<le> t - u"
  by (auto simp: time_sub_def in_int64_def max_int64_def min_int64_def)

lemma time_sub_le_iff:
  "in_int64 d \<Longrightarrow> d < max_int64 \<Longrightarrow> time_sub t u \<le> d \<longleftrightarrow> t - u \<le> d"
  by (auto simp: time_sub_def in_int64_def max_int64_def min_int64_def)

section \<open>Maps as Go maps\<close>

text \<open>Indexing a Go map yields the zero value where the key is absent.\<close>

definition map_get :: "'v \<Rightarrow> ('k \<rightharpoonup> 'v) \<Rightarrow> 'k \<Rightarrow> 'v" where
  "map_get z m k = (case m k of None \<Rightarrow> z | Some v \<Rightarrow> v)"

lemma map_get_upd [simp]: "map_get z (m(k \<mapsto> v)) k' = (if k' = k then v else map_get z m k')"
  by (simp add: map_get_def)

lemma map_get_empty [simp]: "map_get z Map.empty k = z"
  by (simp add: map_get_def)

end
