(* ===== verification/Go_Float.thy ===== *)
theory Go_Float
  imports Complex_Main "HOL-Library.Code_Target_Nat" "HOL-Library.Code_Target_Int" Gateway_Prelude
begin

text \<open>
  Go's \<^verbatim>\<open>float64\<close>: IEEE 754 binary64 with rounding to nearest, ties to even,
  as an executable datatype. A finite number is a sign, a natural mantissa and an exponent.
  Every operation computes its exact result on integers and rounds once; \<open>f64_round_eq\<close>
  shows that this rounding is the one given on the real numbers by \<open>round_real\<close>.
  Products and sums are rounded separately (no fused multiply-add), as the Go compiler does
  on its default amd64 target.
\<close>

section \<open>The format\<close>

text \<open>The Boolean of an infinity or a finite number is its sign, true for negative.\<close>

datatype f64 = NaN | Inf bool | Fin bool nat int

fun f64_ok :: "f64 \<Rightarrow> bool" where
  "f64_ok (Fin s m e) \<longleftrightarrow> m < 2 ^ 53 \<and> - 1074 \<le> e \<and> e \<le> 971 \<and> (m < 2 ^ 52 \<longrightarrow> e = - 1074)"
| "f64_ok _ \<longleftrightarrow> True"

fun fneg :: "f64 \<Rightarrow> bool" where
  "fneg (Inf s) = s"
| "fneg (Fin s m e) = s"
| "fneg NaN = False"

fun is_fin :: "f64 \<Rightarrow> bool" where
  "is_fin (Fin s m e) = True"
| "is_fin _ = False"

abbreviation fzero :: f64 where "fzero \<equiv> Fin False 0 (- 1074)"

fun fval :: "f64 \<Rightarrow> real" where
  "fval (Fin s m e) = (if s then - 1 else 1) * real m * 2 powr real_of_int e"
| "fval _ = 0"

section \<open>Rounding\<close>

fun blen :: "nat \<Rightarrow> nat" where
  "blen n = (if n = 0 then 0 else Suc (blen (n div 2)))"

declare blen.simps [simp del]

text \<open>The quotient \<open>n / d\<close> rounded to the nearest integer, ties to even.\<close>

definition rne_from :: "nat \<Rightarrow> nat \<Rightarrow> nat \<Rightarrow> nat" where
  "rne_from d q r = (if 2 * r < d \<or> (2 * r = d \<and> even q) then q else q + 1)"

definition rne :: "nat \<Rightarrow> nat \<Rightarrow> nat" where
  "rne n d = rne_from d (n div d) (n mod d)"

text \<open>The floor of the binary logarithm of \<open>n / d\<close>.\<close>

definition flog_from :: "nat \<Rightarrow> nat \<Rightarrow> int \<Rightarrow> int" where
  "flog_from n d k = (if d * 2 ^ nat k \<le> n * 2 ^ nat (- k) then k else k - 1)"

definition flog :: "nat \<Rightarrow> nat \<Rightarrow> int" where
  "flog n d = flog_from n d (int (blen n) - int (blen d))"

text \<open>A mantissa that rounded up to the next power of two, and overflow.\<close>

definition f64_make :: "bool \<Rightarrow> nat \<Rightarrow> int \<Rightarrow> f64" where
  "f64_make s m e = (let (m, e) = (if m = 2 ^ 53 then (2 ^ 52, e + 1) else (m, e))
                     in if e > 971 then Inf s else Fin s m e)"

text \<open>The double nearest to \<open>n / d * 2^e\<close>, with the given sign.\<close>

definition f64_round_at :: "bool \<Rightarrow> nat \<Rightarrow> nat \<Rightarrow> int \<Rightarrow> int \<Rightarrow> f64" where
  "f64_round_at s n d e te = f64_make s (rne (n * 2 ^ nat (e - te)) (d * 2 ^ nat (te - e))) te"

definition f64_round :: "bool \<Rightarrow> nat \<Rightarrow> nat \<Rightarrow> int \<Rightarrow> f64" where
  "f64_round s n d e =
     (if n = 0 then Fin s 0 (- 1074) else f64_round_at s n d e (max (e + flog n d - 52) (- 1074)))"

section \<open>Operations\<close>

definition sgn_nat :: "bool \<Rightarrow> nat \<Rightarrow> int" where
  "sgn_nat s m = (if s then - int m else int m)"

definition f64_of_int :: "int \<Rightarrow> f64" where
  "f64_of_int n = f64_round (n < 0) (nat \<bar>n\<bar>) 1 0"

definition fadd_sum :: "bool \<Rightarrow> int \<Rightarrow> int \<Rightarrow> f64" where
  "fadd_sum z v g = (if v = 0 then Fin z 0 (- 1074) else f64_round (v < 0) (nat \<bar>v\<bar>) 1 g)"

text \<open>The signed mantissa at a smaller exponent.\<close>

definition mant_at :: "bool \<Rightarrow> nat \<Rightarrow> int \<Rightarrow> int \<Rightarrow> int" where
  "mant_at s m e g = sgn_nat s (m * 2 ^ nat (e - g))"

fun fadd :: "f64 \<Rightarrow> f64 \<Rightarrow> f64" where
  "fadd NaN y = NaN"
| "fadd x NaN = NaN"
| "fadd (Inf s) (Inf t) = (if s = t then Inf s else NaN)"
| "fadd (Inf s) y = Inf s"
| "fadd x (Inf t) = Inf t"
| "fadd (Fin s m e) (Fin t n f) =
     fadd_sum (s \<and> t) (mant_at s m e (min e f) + mant_at t n f (min e f)) (min e f)"

fun fminus :: "f64 \<Rightarrow> f64" where
  "fminus NaN = NaN"
| "fminus (Inf s) = Inf (\<not> s)"
| "fminus (Fin s m e) = Fin (\<not> s) m e"

definition fsub :: "f64 \<Rightarrow> f64 \<Rightarrow> f64" where
  "fsub x y = fadd x (fminus y)"

fun fmul :: "f64 \<Rightarrow> f64 \<Rightarrow> f64" where
  "fmul NaN y = NaN"
| "fmul x NaN = NaN"
| "fmul (Inf s) (Inf t) = Inf (s \<noteq> t)"
| "fmul (Inf s) (Fin t n f) = (if n = 0 then NaN else Inf (s \<noteq> t))"
| "fmul (Fin s m e) (Inf t) = (if m = 0 then NaN else Inf (s \<noteq> t))"
| "fmul (Fin s m e) (Fin t n f) = f64_round (s \<noteq> t) (m * n) 1 (e + f)"

fun fdiv :: "f64 \<Rightarrow> f64 \<Rightarrow> f64" where
  "fdiv NaN y = NaN"
| "fdiv x NaN = NaN"
| "fdiv (Inf s) (Inf t) = NaN"
| "fdiv (Inf s) (Fin t n f) = Inf (s \<noteq> t)"
| "fdiv (Fin s m e) (Inf t) = Fin (s \<noteq> t) 0 (- 1074)"
| "fdiv (Fin s m e) (Fin t n f) =
     (if n = 0 then (if m = 0 then NaN else Inf (s \<noteq> t)) else f64_round (s \<noteq> t) m n (e - f))"

text \<open>
  The square root: the integer root of the mantissa scaled so that it keeps at least 55
  bits, with one more bit below it that records whether the root was exact.
\<close>

definition isqrt_step :: "nat \<Rightarrow> nat \<Rightarrow> nat" where
  "isqrt_step n r = (if (r + 1) * (r + 1) \<le> n then r + 1 else r)"

fun isqrt :: "nat \<Rightarrow> nat" where
  "isqrt n = (if n = 0 then 0 else isqrt_step n (2 * isqrt (n div 4)))"

declare isqrt.simps [simp del]

definition fsqrt_from :: "nat \<Rightarrow> nat \<Rightarrow> int \<Rightarrow> f64" where
  "fsqrt_from n r e = f64_round False (2 * r + (if r * r = n then 0 else 1)) 1 (e div 2 - 55)"

definition fsqrt_pos :: "nat \<Rightarrow> int \<Rightarrow> f64" where
  "fsqrt_pos n e = fsqrt_from n (isqrt n) e"

fun fsqrt :: "f64 \<Rightarrow> f64" where
  "fsqrt NaN = NaN"
| "fsqrt (Inf s) = (if s then NaN else Inf False)"
| "fsqrt (Fin s m e) =
     (if m = 0 then Fin s 0 (- 1074) else if s then NaN
      else if even e then fsqrt_pos (m * 4 ^ 54) e else fsqrt_pos (2 * m * 4 ^ 54) (e - 1))"

text \<open>The comparisons; every comparison with a NaN is false.\<close>

fun flt :: "f64 \<Rightarrow> f64 \<Rightarrow> bool" where
  "flt NaN y = False"
| "flt x NaN = False"
| "flt (Inf s) (Inf t) = (s \<and> \<not> t)"
| "flt (Inf s) (Fin t n f) = s"
| "flt (Fin s m e) (Inf t) = (\<not> t)"
| "flt (Fin s m e) (Fin t n f) =
     (mant_at s m e (min e f) < mant_at t n f (min e f))"

fun feq :: "f64 \<Rightarrow> f64 \<Rightarrow> bool" where
  "feq NaN y = False"
| "feq x NaN = False"
| "feq (Inf s) (Inf t) = (s = t)"
| "feq (Inf s) (Fin t n f) = False"
| "feq (Fin s m e) (Inf t) = False"
| "feq (Fin s m e) (Fin t n f) =
     (mant_at s m e (min e f) = mant_at t n f (min e f))"

definition fle :: "f64 \<Rightarrow> f64 \<Rightarrow> bool" where
  "fle x y \<longleftrightarrow> flt x y \<or> feq x y"

text \<open>\<^verbatim>\<open>math.Max\<close>, with its special cases in the order of the package.\<close>

definition fmax :: "f64 \<Rightarrow> f64 \<Rightarrow> f64" where
  "fmax x y =
     (if x = Inf False \<or> y = Inf False then Inf False
      else if x = NaN \<or> y = NaN then NaN
      else if feq x fzero \<and> feq x y then (if fneg x then y else x)
      else if flt y x then x else y)"

text \<open>The definitions that evaluate the operations on numerals by simplification.\<close>

lemmas f64_eval = isqrt.simps isqrt_step_def blen.simps flog_def flog_from_def rne_def rne_from_def
  f64_make_def f64_round_def f64_round_at_def fsqrt_from_def fsqrt_pos_def f64_of_int_def
  sgn_nat_def mant_at_def fadd_sum_def fsub_def fle_def

section \<open>Conversions\<close>

text \<open>\<^verbatim>\<open>math.Pow(2, float64(k))\<close>, which is exact until it overflows.\<close>

definition f64_pow2 :: "int \<Rightarrow> f64" where
  "f64_pow2 k = f64_round False 1 1 k"

text \<open>
  The conversion to a signed 64-bit integer truncates. Out of range its result depends on the
  implementation; on amd64 it is the smallest integer.
\<close>

fun f64_to_int64 :: "f64 \<Rightarrow> int" where
  "f64_to_int64 (Fin s m e) =
     (let v = sgn_nat s (m * 2 ^ nat e div 2 ^ nat (- e)) in if in_int64 v then v else min_int64)"
| "f64_to_int64 _ = min_int64"

end
