(* ===== verification/Go_Float_Facts.thy ===== *)
theory Go_Float_Facts
  imports Go_Float
begin

text \<open>
  Correctness of the executable rounding of \<^theory_text>\<open>Go_Float\<close>: it is the
  rounding of the real numbers to nearest, ties to even; arithmetic on integers up to
  \<open>2^53\<close> is exact; the comparisons are those of the values.
\<close>

section \<open>Rounding as a function of the real value\<close>

definition rne_real :: "real \<Rightarrow> int" where
  "rne_real x = (let q = \<lfloor>x\<rfloor>; f = x - of_int q
                 in if f < 1 / 2 \<or> (f = 1 / 2 \<and> even q) then q else q + 1)"

definition round_exp :: "real \<Rightarrow> int" where
  "round_exp x = max (\<lfloor>log 2 x\<rfloor> - 52) (- 1074)"

definition round_real :: "bool \<Rightarrow> real \<Rightarrow> f64" where
  "round_real s x =
     (if x = 0 then Fin s 0 (- 1074)
      else f64_make s (nat (rne_real (x * 2 powr - of_int (round_exp x)))) (round_exp x))"

lemma two_powr_nat_diff: "2 powr real_of_int k = 2 ^ nat k / 2 ^ nat (- k)"
  by (cases "0 \<le> k") (auto simp: powr_real_of_int inverse_eq_divide)

lemma rne_eq_real:
  assumes "0 < d" shows "int (rne n d) = rne_real (real n / real d)"
proof -
  have fl: "\<lfloor>real n / real d\<rfloor> = int (n div d)"
    by (simp add: floor_divide_of_nat_eq)
  have "real n = real (n div d) * real d + real (n mod d)"
    by (metis div_mult_mod_eq of_nat_add of_nat_mult)
  then have fr: "real n / real d - real (n div d) = real (n mod d) / real d"
    using assms by (simp add: field_simps)
  have "(real (n mod d) / real d < 1 / 2) = (2 * (n mod d) < d)"
    using assms by (simp add: divide_less_eq) linarith
  moreover have "(real (n mod d) / real d = 1 / 2) = (2 * (n mod d) = d)"
    using assms by (simp add: divide_eq_eq) linarith
  ultimately show ?thesis
    by (simp only: rne_def rne_from_def rne_real_def fl fr Let_def of_int_of_nat_eq even_of_nat_iff) simp
qed

lemma rne_real_of_int [simp]: "rne_real (of_int k) = k"
  by (simp add: rne_real_def)

lemma rne_real_of_nat [simp]: "rne_real (real k) = int k"
  using rne_real_of_int [of "int k"] by simp

lemma rne_real_dist: "\<bar>of_int (rne_real x) - x\<bar> \<le> 1 / 2"
  using floor_correct [of x] unfolding rne_real_def Let_def by (auto split: if_split)

lemma rne_real_nonneg: "0 \<le> x \<Longrightarrow> 0 \<le> rne_real x"
  unfolding rne_real_def Let_def by auto

lemma rne_real_le: "x \<le> of_int k \<Longrightarrow> rne_real x \<le> k"
  unfolding rne_real_def Let_def by (auto, linarith+)

lemma rne_real_ge: "of_int k \<le> x \<Longrightarrow> k \<le> rne_real x"
  unfolding rne_real_def Let_def by (auto, linarith+)

lemma blen_bounds: "0 < n \<Longrightarrow> 2 ^ (blen n - 1) \<le> n \<and> n < 2 ^ blen n \<and> 0 < blen n"
proof (induction n rule: blen.induct)
  case (1 n)
  show ?case
  proof (cases "n div 2 = 0")
    case True
    then have "n = 1" using "1.prems" by simp
    then show ?thesis by (simp add: blen.simps)
  next
    case False
    with "1.IH" "1.prems"
    have ih: "2 ^ (blen (n div 2) - 1) \<le> n div 2" "n div 2 < 2 ^ blen (n div 2)" "0 < blen (n div 2)"
      by simp_all
    have "blen n = Suc (blen (n div 2))" using "1.prems" by (subst blen.simps) simp
    moreover obtain k where "blen (n div 2) = Suc k" using ih(3) by (cases "blen (n div 2)") auto
    moreover have "n = 2 * (n div 2) \<or> n = 2 * (n div 2) + 1" by linarith
    ultimately show ?thesis using ih by auto
  qed
qed

lemma frac_le_frac_iff:
  "0 < b \<Longrightarrow> 0 < d \<Longrightarrow> a / b \<le> n / d \<longleftrightarrow> d * a \<le> n * (b :: real)"
  by (simp add: field_simps)

text \<open>The lengths of numerator and denominator give the binary logarithm up to one.\<close>

lemma ratio_bounds:
  assumes "0 < n" and "0 < d"
  defines "k \<equiv> int (blen n) - int (blen d)"
  shows "real n / real d < 2 powr (of_int k + 1)" and "2 powr (of_int k - 1) \<le> real n / real d"
proof -
  have n: "2 ^ (blen n - 1) \<le> real n" "real n < 2 ^ blen n" "0 < blen n"
    and d: "2 ^ (blen d - 1) \<le> real d" "real d < 2 ^ blen d" "0 < blen d"
    using blen_bounds [OF assms(1)] blen_bounds [OF assms(2)] by (simp_all flip: of_nat_power)
  have pn: "2 powr (real (blen n) - 1) \<le> real n" "real n < 2 powr real (blen n)"
    and pd: "2 powr (real (blen d) - 1) \<le> real d" "real d < 2 powr real (blen d)"
    using n d by (simp_all add: powr_realpow [symmetric] of_nat_diff)
  have "real n < 2 powr (real (blen n) - (real (blen d) - 1)) * 2 powr (real (blen d) - 1)"
    using pn(2) by (simp flip: powr_add)
  also have "\<dots> \<le> 2 powr (real (blen n) - (real (blen d) - 1)) * real d" using pd(1) by simp
  finally have "real n < 2 powr (real (blen n) - (real (blen d) - 1)) * real d" .
  moreover have "real (blen n) - (real (blen d) - 1) = of_int k + 1" by (simp add: k_def)
  ultimately show "real n / real d < 2 powr (of_int k + 1)"
    using assms(2) by (simp only: pos_divide_less_eq of_nat_0_less_iff)
  have "2 powr (of_int k - 1) * real d \<le> 2 powr (of_int k - 1) * 2 powr real (blen d)" using pd(2) by simp
  also have "\<dots> = 2 powr (real (blen n) - 1)" by (simp add: k_def flip: powr_add)
  finally have "2 powr (of_int k - 1) * real d \<le> real n" using pn(1) by linarith
  then show "2 powr (of_int k - 1) \<le> real n / real d"
    using assms(2) by (simp only: pos_le_divide_eq of_nat_0_less_iff)
qed

lemma shifted_le_iff:
  assumes "0 < d"
  shows "d * 2 ^ nat k \<le> n * 2 ^ nat (- k) \<longleftrightarrow> 2 powr of_int k \<le> real n / real d"
proof -
  have "d * 2 ^ nat k \<le> n * 2 ^ nat (- k) \<longleftrightarrow> real d * 2 ^ nat k \<le> real n * 2 ^ nat (- k)"
    by (simp only: of_nat_le_iff [symmetric, where ?'a = real] of_nat_mult of_nat_power of_nat_numeral)
  also have "\<dots> \<longleftrightarrow> 2 ^ nat k / 2 ^ nat (- k) \<le> real n / real d"
    using assms by (intro frac_le_frac_iff [symmetric]) simp_all
  also have "\<dots> \<longleftrightarrow> 2 powr of_int k \<le> real n / real d"
    by (simp only: two_powr_nat_diff)
  finally show ?thesis .
qed

lemma flog_eq:
  assumes "0 < n" and "0 < d"
  shows "flog n d = \<lfloor>log 2 (real n / real d)\<rfloor>"
proof -
  let ?k = "int (blen n) - int (blen d)" and ?x = "real n / real d"
  note bounds = ratio_bounds [OF assms] and test = shifted_le_iff [OF assms(2), of ?k n]
  have x: "0 < ?x" using assms by simp
  show ?thesis
  proof (cases "2 powr of_int ?k \<le> ?x")
    case True
    then have "\<lfloor>log 2 ?x\<rfloor> = ?k"
      using bounds(1) x by (subst floor_log_eq_powr_iff) auto
    with True test show ?thesis by (simp add: flog_def flog_from_def Let_def)
  next
    case False
    then have "\<lfloor>log 2 ?x\<rfloor> = ?k - 1"
      using bounds(2) x by (subst floor_log_eq_powr_iff) auto
    with False test show ?thesis by (simp add: flog_def flog_from_def Let_def)
  qed
qed

text \<open>The executable rounding depends on the value only, and rounds it correctly.\<close>

lemma f64_round_eq:
  assumes "0 < d"
  shows "f64_round s n d e = round_real s (real n / real d * 2 powr of_int e)"
proof (cases "n = 0")
  case True
  then show ?thesis by (simp add: f64_round_def f64_round_at_def round_real_def)
next
  case False
  let ?x = "real n / real d * 2 powr of_int e"
  have x: "0 < ?x" using False assms by simp
  have "log 2 ?x = log 2 (real n / real d) + log 2 (2 powr of_int e)"
    by (rule log_mult_pos) (use False assms in simp_all)
  then have "log 2 ?x = log 2 (real n / real d) + of_int e" by simp
  then have te: "max (e + flog n d - 52) (- 1074) = round_exp ?x"
    using False assms by (simp add: round_exp_def flog_eq algebra_simps)
  let ?te = "round_exp ?x"
  have "real (n * 2 ^ nat (e - ?te)) / real (d * 2 ^ nat (?te - e)) =
      real n / real d * (2 ^ nat (e - ?te) / 2 ^ nat (- (e - ?te)))"
    by simp
  also have "\<dots> = real n / real d * 2 powr of_int (e - ?te)"
    by (simp only: two_powr_nat_diff)
  also have "\<dots> = ?x * 2 powr - of_int ?te"
    by (simp add: powr_diff powr_minus field_simps)
  finally have "int (rne (n * 2 ^ nat (e - ?te)) (d * 2 ^ nat (?te - e))) =
      rne_real (?x * 2 powr - of_int ?te)"
    using assms by (subst rne_eq_real) simp_all
  then have m: "rne (n * 2 ^ nat (e - ?te)) (d * 2 ^ nat (?te - e)) =
      nat (rne_real (?x * 2 powr - of_int ?te))"
    by (metis nat_int)
  have "n \<noteq> 0" "?x \<noteq> 0" using False x assms by simp_all
  then show ?thesis
    by (simp only: f64_round_def f64_round_at_def round_real_def te Let_def m if_False)
qed


section \<open>The rounded number\<close>

lemma round_exp_bounds:
  assumes "0 < x"
  shows "x * 2 powr - of_int (round_exp x) < 2 ^ 53"
    and "round_exp x \<noteq> - 1074 \<Longrightarrow> 2 ^ 52 \<le> x * 2 powr - of_int (round_exp x)"
    and "- 1074 \<le> round_exp x"
proof -
  let ?k = "\<lfloor>log 2 x\<rfloor>"
  have k: "2 powr of_int ?k \<le> x" "x < 2 powr (of_int ?k + 1)"
    using floor_log_eq_powr_iff [of x 2 ?k] assms by auto
  have "x < 2 powr (of_int (round_exp x) + 53)"
    using k(2) by (rule less_le_trans) (simp add: round_exp_def)
  then have "x * 2 powr - of_int (round_exp x) <
      2 powr (of_int (round_exp x) + 53) * 2 powr - of_int (round_exp x)"
    by simp
  also have "\<dots> = 2 powr 53" by (simp flip: powr_add)
  finally show "x * 2 powr - of_int (round_exp x) < 2 ^ 53" by simp
  show "- 1074 \<le> round_exp x" by (simp add: round_exp_def)
  assume "round_exp x \<noteq> - 1074"
  then have "?k = round_exp x + 52" by (auto simp: round_exp_def)
  then have "2 powr of_int (round_exp x + 52) * 2 powr - of_int (round_exp x) \<le>
      x * 2 powr - of_int (round_exp x)"
    using k(1) by (intro mult_right_mono) simp_all
  moreover have "2 powr of_int (round_exp x + 52) * 2 powr - of_int (round_exp x) = (2::real) ^ 52"
    by (simp flip: powr_add)
  ultimately show "2 ^ 52 \<le> x * 2 powr - of_int (round_exp x)" by (simp only:)
qed

text \<open>Every rounded result is a well-formed double.\<close>

lemma round_real_ok:
  assumes "0 \<le> x" shows "f64_ok (round_real s x)"
proof (cases "x = 0")
  case True
  then show ?thesis by (simp add: round_real_def)
next
  case False
  with assms have x: "0 < x" by simp
  let ?y = "x * 2 powr - of_int (round_exp x)" and ?m = "nat (rne_real (x * 2 powr - of_int (round_exp x)))"
  have hi: "rne_real ?y \<le> 2 ^ 53"
    using round_exp_bounds(1) [OF x] by (intro rne_real_le) simp
  have lo: "round_exp x \<noteq> - 1074 \<Longrightarrow> 2 ^ 52 \<le> rne_real ?y"
    using round_exp_bounds(2) [OF x] by (intro rne_real_ge) simp
  have "f64_ok (f64_make s ?m (round_exp x))"
    using hi lo round_exp_bounds(3) [OF x] by (force simp: f64_make_def Let_def nat_le_iff nat_less_iff)
  then show ?thesis using False by (simp add: round_real_def)
qed

lemma f64_round_ok: "0 < d \<Longrightarrow> f64_ok (f64_round s n d e)"
  by (simp add: f64_round_eq round_real_ok)

lemma round_real_exact:
  assumes "0 < x" and "x * 2 powr - of_int (round_exp x) = real k" and "round_exp x < 971"
  shows "is_fin (round_real s x) \<and> fneg (round_real s x) = s \<and>
         fval (round_real s x) = (if s then - x else x)"
proof -
  have "real k * 2 powr of_int (round_exp x) = x"
    using assms(2) [symmetric] by (simp add: powr_minus field_simps)
  then have v: "real k * 2 powr of_int (round_exp x) = x" .
  have "(2::real) ^ 52 * 2 powr (of_int (round_exp x) + 1) = 2 ^ 53 * 2 powr of_int (round_exp x)"
    by (simp add: powr_add)
  with v assms show ?thesis
    by (auto simp: round_real_def f64_make_def Let_def)
qed

text \<open>Rounding moves a number by at most half a unit in the last place.\<close>

lemma round_real_error:
  assumes "0 < x" and "is_fin (round_real False x)"
  shows "\<bar>fval (round_real False x) - x\<bar> \<le> 2 powr of_int (round_exp x) / 2"
proof -
  let ?e = "round_exp x" and ?y = "x * 2 powr - of_int (round_exp x)"
  let ?m = "rne_real ?y"
  have m: "0 \<le> ?m" using assms(1) by (simp add: rne_real_nonneg)
  have "fval (f64_make False (nat ?m) ?e) = of_int ?m * 2 powr of_int ?e"
  proof (cases "nat ?m = 2 ^ 53")
    case True
    then have "?m = int (2 ^ 53)" using m by linarith
    then have "real_of_int ?m = 2 ^ 53" by simp
    moreover have "is_fin (f64_make False (nat ?m) ?e)"
      using assms by (simp add: round_real_def)
    ultimately show ?thesis using True
      by (auto simp: f64_make_def powr_add split: if_splits)
  next
    case False
    moreover have "is_fin (f64_make False (nat ?m) ?e)"
      using assms by (simp add: round_real_def)
    ultimately show ?thesis using m by (auto simp: f64_make_def split: if_splits)
  qed
  moreover have "x = ?y * 2 powr of_int ?e" by (simp add: powr_minus)
  ultimately have "fval (round_real False x) - x = (of_int ?m - ?y) * 2 powr of_int ?e"
    using assms(1) by (simp add: round_real_def left_diff_distrib)
  then have "\<bar>fval (round_real False x) - x\<bar> = \<bar>of_int ?m - ?y\<bar> * 2 powr of_int ?e"
    by (simp add: abs_mult)
  also have "\<dots> \<le> 1 / 2 * 2 powr of_int ?e"
    by (intro mult_right_mono rne_real_dist) simp
  finally show ?thesis by simp
qed

section \<open>The operations on finite numbers\<close>

lemma mant_at_scale: "g \<le> e \<Longrightarrow>
    of_int (mant_at s m e g) * 2 powr of_int g = fval (Fin s m e)"
proof -
  assume "g \<le> e"
  then have "(2::real) ^ nat (e - g) * 2 powr of_int g = 2 powr of_int e"
    by (simp flip: powr_realpow powr_add)
  then show ?thesis by (simp add: mant_at_def sgn_nat_def mult.assoc)
qed

lemma fadd_val:
  assumes "is_fin x" and "is_fin y"
  shows "fadd x y = (let v = fval x + fval y in
           if v = 0 then Fin (fneg x \<and> fneg y) 0 (- 1074) else round_real (v < 0) \<bar>v\<bar>)"
proof -
  obtain s m e t n f where xy: "x = Fin s m e" "y = Fin t n f"
    using assms by (cases x; cases y) auto
  define g where "g = min e f"
  define v where "v = mant_at s m e g + mant_at t n f g"
  have v: "of_int v * 2 powr of_int g = fval x + fval y"
    unfolding v_def xy g_def
    by (simp only: of_int_add distrib_right mant_at_scale min.cobounded1 min.cobounded2)
  have "0 < (2::real) powr of_int g" by simp
  then have sg: "(fval x + fval y = 0) = (v = 0)" "(fval x + fval y < 0) = (v < 0)"
    unfolding v [symmetric] by (auto simp: mult_less_0_iff)
  have "f64_round (v < 0) (nat \<bar>v\<bar>) 1 g = round_real (v < 0) \<bar>fval x + fval y\<bar>"
    unfolding v [symmetric] by (subst f64_round_eq) (simp_all add: abs_mult)
  then show ?thesis
    using sg by (simp add: xy Let_def fadd_sum_def flip: g_def v_def)
qed

lemma fmul_val:
  assumes "is_fin x" and "is_fin y"
  shows "fmul x y = round_real (fneg x \<noteq> fneg y) \<bar>fval x * fval y\<bar>"
proof -
  obtain s m e t n f where xy: "x = Fin s m e" "y = Fin t n f"
    using assms by (cases x; cases y) auto
  show ?thesis
    by (simp add: xy f64_round_eq abs_mult powr_add mult_ac)
qed

lemma fdiv_val:
  assumes "is_fin x" and "is_fin y" and "fval y \<noteq> 0"
  shows "fdiv x y = round_real (fneg x \<noteq> fneg y) \<bar>fval x / fval y\<bar>"
proof -
  obtain s m e t n f where xy: "x = Fin s m e" "y = Fin t n f"
    using assms by (cases x; cases y) auto
  moreover from this assms(3) have "0 < n" by auto
  ultimately show ?thesis
    by (simp add: f64_round_eq abs_mult powr_diff mult_ac)
qed

lemma flt_val:
  assumes "is_fin x" and "is_fin y" shows "flt x y \<longleftrightarrow> fval x < fval y"
proof -
  obtain s m e t n f where xy: "x = Fin s m e" "y = Fin t n f"
    using assms by (cases x; cases y) auto
  define g where "g = min e f"
  have "fval x < fval y \<longleftrightarrow> of_int (mant_at s m e g) * 2 powr real_of_int g <
      of_int (mant_at t n f g) * 2 powr of_int g"
    unfolding xy g_def by (simp only: mant_at_scale min.cobounded1 min.cobounded2)
  then show ?thesis by (simp add: xy Let_def flip: g_def)
qed

lemma feq_val:
  assumes "is_fin x" and "is_fin y" shows "feq x y \<longleftrightarrow> fval x = fval y"
proof -
  obtain s m e t n f where xy: "x = Fin s m e" "y = Fin t n f"
    using assms by (cases x; cases y) auto
  define g where "g = min e f"
  have "fval x = fval y \<longleftrightarrow> of_int (mant_at s m e g) * 2 powr real_of_int g =
      of_int (mant_at t n f g) * 2 powr of_int g"
    unfolding xy g_def by (simp only: mant_at_scale min.cobounded1 min.cobounded2)
  then show ?thesis by (simp add: xy Let_def flip: g_def)
qed

text \<open>The comparison is a strict order on the numbers that are not NaN, total up to \<open>feq\<close>.\<close>

fun ford :: "f64 \<Rightarrow> int \<times> real" where
  "ford (Inf s) = (if s then - 1 else 1, 0)"
| "ford x = (0, fval x)"

lemma flt_ford: "flt x y \<longleftrightarrow> x \<noteq> NaN \<and> y \<noteq> NaN \<and>
    (fst (ford x) < fst (ford y) \<or> fst (ford x) = fst (ford y) \<and> snd (ford x) < snd (ford y))"
proof (cases "is_fin x \<and> is_fin y")
  case True
  then show ?thesis by (cases x; cases y) (simp_all only: flt_val is_fin.simps ford.simps, simp_all)
next
  case False
  then show ?thesis by (cases x; cases y) simp_all
qed

lemma feq_ford: "feq x y \<longleftrightarrow> x \<noteq> NaN \<and> y \<noteq> NaN \<and> ford x = ford y"
proof (cases "is_fin x \<and> is_fin y")
  case True
  then show ?thesis by (cases x; cases y) (simp_all only: feq_val is_fin.simps ford.simps, simp_all)
next
  case False
  then show ?thesis by (cases x; cases y) simp_all
qed

lemma flt_NaN [simp]: "\<not> flt x NaN" "\<not> feq x NaN" "\<not> fle x NaN"
  by (cases x; simp add: fle_def)+

lemma fle_ford: "fle x y \<longleftrightarrow> x \<noteq> NaN \<and> y \<noteq> NaN \<and>
    (fst (ford x) < fst (ford y) \<or> fst (ford x) = fst (ford y) \<and> snd (ford x) \<le> snd (ford y))"
  by (auto simp: fle_def flt_ford feq_ford prod_eq_iff)

lemma fle_trans: "fle x y \<Longrightarrow> fle y z \<Longrightarrow> fle x z"
  unfolding fle_ford by auto

lemma fle_flt_trans: "fle x y \<Longrightarrow> flt y z \<Longrightarrow> fle x z"
  unfolding fle_ford flt_ford by auto

lemma fle_not_flt: "fle x y \<Longrightarrow> \<not> flt y x"
  unfolding fle_ford flt_ford by auto

lemma flt_irrefl [simp]: "\<not> flt x x"
  by (simp add: flt_ford)

lemma flt_trans: "flt x y \<Longrightarrow> flt y z \<Longrightarrow> flt x z"
  by (auto simp: flt_ford)

lemma flt_linear: "x \<noteq> NaN \<Longrightarrow> y \<noteq> NaN \<Longrightarrow> flt x y \<or> feq x y \<or> flt y x"
  by (auto simp: flt_ford feq_ford prod_eq_iff)

lemma not_flt_trans: "y \<noteq> NaN \<Longrightarrow> \<not> flt x y \<Longrightarrow> \<not> flt y z \<Longrightarrow> \<not> flt x z"
  by (auto simp: flt_ford)

section \<open>Integers\<close>

text \<open>Integers up to \<open>2^53\<close> in absolute value are represented exactly.\<close>

definition int_exact :: "int \<Rightarrow> bool" where
  "int_exact n \<longleftrightarrow> \<bar>n\<bar> \<le> 2 ^ 53"

lemma f64_of_int_real: "f64_of_int n = round_real (n < 0) \<bar>of_int n\<bar>"
  by (simp add: f64_of_int_def f64_round_eq)

lemma f64_of_int_0 [simp]: "f64_of_int 0 = fzero"
  by (simp add: f64_of_int_real round_real_def)

lemma f64_of_int_exact:
  assumes "int_exact n"
  shows "is_fin (f64_of_int n) \<and> fneg (f64_of_int n) = (n < 0) \<and> fval (f64_of_int n) = of_int n"
proof (cases "n = 0")
  case True
  then show ?thesis by simp
next
  case False
  define x where "x = \<bar>real_of_int n\<bar>"
  have x: "0 < x" "x \<le> 2 ^ 53" "1 \<le> x"
    using False assms by (simp_all add: x_def int_exact_def flip: of_int_abs)
  have lg: "0 \<le> \<lfloor>log 2 x\<rfloor>" "\<lfloor>log 2 x\<rfloor> \<le> 53"
  proof -
    show "0 \<le> \<lfloor>log 2 x\<rfloor>" using x by simp
    have "log 2 x \<le> log 2 (2 ^ 53)"
      by (subst log_le_cancel_iff) (use x in simp_all)
    moreover have "log 2 ((2::real) ^ 53) = real 53" by (rule log_pow_cancel) simp_all
    ultimately show "\<lfloor>log 2 x\<rfloor> \<le> 53" by linarith
  qed
  let ?e = "round_exp x"
  have e: "- 1074 \<le> ?e" "?e \<le> 1" using lg by (auto simp: round_exp_def)
  have "\<exists>k. x * 2 powr - of_int ?e = real k"
  proof (cases "?e \<le> 0")
    case True
    then have "2 powr - real_of_int ?e = 2 ^ nat (- ?e)"
      using two_powr_nat_diff [of "- ?e"] by simp
    then have "x * 2 powr - of_int ?e = real (nat \<bar>n\<bar> * 2 ^ nat (- ?e))"
      by (simp add: x_def)
    then show ?thesis by blast
  next
    case False
    then have e1: "?e = 1" using e by simp
    then have "\<lfloor>log 2 x\<rfloor> = 53" using lg by (auto simp: round_exp_def)
    then have "2 ^ 53 \<le> x" using floor_log_eq_powr_iff [of x 2 53] x by simp
    then have "x * 2 powr - of_int ?e = real (2 ^ 52)"
      using e1 x by (simp add: powr_minus)
    then show ?thesis by blast
  qed
  then obtain k where "x * 2 powr - of_int ?e = real k" ..
  then have "is_fin (round_real (n < 0) x) \<and> fneg (round_real (n < 0) x) = (n < 0) \<and>
      fval (round_real (n < 0) x) = (if n < 0 then - x else x)"
    using e x by (intro round_real_exact) simp_all
  then show ?thesis by (auto simp: f64_of_int_real x_def)
qed

lemmas f64_of_int_facts =
  f64_of_int_exact [THEN conjunct1] f64_of_int_exact [THEN conjunct2, THEN conjunct1]
  f64_of_int_exact [THEN conjunct2, THEN conjunct2]

lemma f64_of_int_not_NaN [simp]: "f64_of_int n \<noteq> NaN"
  by (auto simp: f64_of_int_real round_real_def f64_make_def Let_def split: if_splits prod.splits)

text \<open>Sums of exact integers round the exact sum; so do products of natural numbers.\<close>

lemma fadd_of_int:
  assumes "int_exact a" and "int_exact b"
  shows "fadd (f64_of_int a) (f64_of_int b) = f64_of_int (a + b)"
proof -
  have "real_of_int a + real_of_int b = of_int (a + b)"
    and "(real_of_int (a + b) < 0) = (a + b < 0)" and "(real_of_int (a + b) = 0) = (a + b = 0)"
    by (simp, simp only: of_int_less_0_iff, simp only: of_int_eq_0_iff)
  then show ?thesis
    using assms by (simp only: fadd_val f64_of_int_facts f64_of_int_real [of "a + b"] Let_def)
      (auto simp: round_real_def)
qed

lemma fmul_of_int:
  assumes "int_exact a" and "int_exact b" and "0 \<le> a" and "0 \<le> b"
  shows "fmul (f64_of_int a) (f64_of_int b) = f64_of_int (a * b)"
proof -
  have "\<not> a * b < 0" using assms(3,4) by (simp add: not_less)
  then show ?thesis
    using assms by (simp add: fmul_val f64_of_int_facts f64_of_int_real [of "a * b"] abs_mult)
qed

lemma flt_of_int [simp]:
  "int_exact a \<Longrightarrow> int_exact b \<Longrightarrow> flt (f64_of_int a) (f64_of_int b) \<longleftrightarrow> a < b"
  by (simp add: flt_val f64_of_int_facts)

lemma feq_of_int [simp]:
  "int_exact a \<Longrightarrow> int_exact b \<Longrightarrow> feq (f64_of_int a) (f64_of_int b) \<longleftrightarrow> a = b"
  by (simp add: feq_val f64_of_int_facts)

lemma f64_of_int_inj:
  "int_exact a \<Longrightarrow> int_exact b \<Longrightarrow> f64_of_int a = f64_of_int b \<longleftrightarrow> a = b"
  using feq_of_int [of a b] by (metis feq_of_int)

section \<open>Conversions and powers of two\<close>

lemma f64_to_int64_exact:
  assumes "is_fin x" and "fval x = of_int v" and "in_int64 v"
  shows "f64_to_int64 x = v"
proof -
  obtain s m e where x: "x = Fin s m e" using assms(1) by (cases x) auto
  have p: "2 powr real_of_int e = 2 ^ nat e / 2 ^ nat (- e)" by (rule two_powr_nat_diff)
  have "(if s then - 1 else 1) * real m * 2 ^ nat e = of_int v * 2 ^ nat (- e)"
    using assms(2) unfolding x fval.simps p by (simp add: field_simps)
  then have "real_of_int (sgn_nat s (m * 2 ^ nat e)) = of_int (v * 2 ^ nat (- e))"
    by (cases s) (simp_all add: sgn_nat_def)
  then have v: "sgn_nat s (m * 2 ^ nat e) = v * 2 ^ nat (- e)" by (simp only: of_int_eq_iff)
  have "sgn_nat s (m * 2 ^ nat e div 2 ^ nat (- e)) = v"
  proof -
    have "int (m * 2 ^ nat e) = \<bar>v\<bar> * 2 ^ nat (- e)"
      using arg_cong [OF v, of abs] by (simp add: sgn_nat_def abs_mult split: if_splits)
    then have "int (m * 2 ^ nat e div 2 ^ nat (- e)) = \<bar>v\<bar>" by (simp add: zdiv_int)
    moreover have "v \<le> 0" if s
    proof -
      have "v * 2 ^ nat (- e) \<le> 0" unfolding v [symmetric] using that by (simp add: sgn_nat_def)
      then show ?thesis by (simp add: mult_le_0_iff)
    qed
    moreover have "0 \<le> v" if "\<not> s"
    proof -
      have "0 \<le> v * 2 ^ nat (- e)" unfolding v [symmetric] using that by (simp add: sgn_nat_def)
      then show ?thesis by (simp add: zero_le_mult_iff)
    qed
    ultimately show ?thesis by (cases s) (simp_all add: sgn_nat_def)
  qed
  then show ?thesis using assms(3) by (simp add: x)
qed

text \<open>A positive integer of at most 53 bits, scaled by a power of two.\<close>

lemma round_real_scaled:
  assumes "0 < n" and "int_exact n" and "k \<le> 900"
  shows "is_fin (round_real False (of_int n * 2 ^ k)) \<and> \<not> fneg (round_real False (of_int n * 2 ^ k)) \<and>
         fval (round_real False (of_int n * 2 ^ k)) = of_int n * 2 ^ k"
proof -
  let ?x = "real_of_int n" and ?y = "real_of_int n * 2 ^ k"
  have n: "1 \<le> ?x" "?x \<le> 2 ^ 53"
  proof -
    show "1 \<le> ?x" using assms(1) by simp
    have "n \<le> 2 ^ 53" using assms(2) by (simp add: int_exact_def)
    then have "real_of_int n \<le> of_int (2 ^ 53)" by (simp only: of_int_le_iff)
    then show "?x \<le> 2 ^ 53" by simp
  qed
  have lg: "0 \<le> \<lfloor>log 2 ?x\<rfloor>" "\<lfloor>log 2 ?x\<rfloor> \<le> 53"
  proof -
    show "0 \<le> \<lfloor>log 2 ?x\<rfloor>" using n by simp
    have "log 2 ?x \<le> log 2 (2 ^ 53)" by (subst log_le_cancel_iff) (use n in simp_all)
    moreover have "log 2 ((2::real) ^ 53) = real 53" by (rule log_pow_cancel) simp_all
    ultimately show "\<lfloor>log 2 ?x\<rfloor> \<le> 53" by linarith
  qed
  have "log 2 ?y = log 2 ?x + real k"
    using n by (simp add: log_mult_pos log_nat_power)
  then have "\<lfloor>log 2 ?y\<rfloor> = \<lfloor>log 2 ?x\<rfloor> + int k" by simp
  then have e: "round_exp ?y = round_exp ?x + int k" using lg by (simp add: round_exp_def)
  have "?y * 2 powr - of_int (round_exp ?y) = ?x * 2 powr - of_int (round_exp ?x)"
    unfolding e by (simp add: powr_diff powr_minus powr_realpow field_simps powr_add)
  moreover obtain j where "?x * 2 powr - of_int (round_exp ?x) = real j"
  proof (cases "round_exp ?x \<le> 0")
    case True
    then have "2 powr - real_of_int (round_exp ?x) = 2 ^ nat (- round_exp ?x)"
      using two_powr_nat_diff [of "- round_exp ?x"] by simp
    then have "?x * 2 powr - of_int (round_exp ?x) = real (nat n * 2 ^ nat (- round_exp ?x))"
      using assms(1) by simp
    then show ?thesis using that by blast
  next
    case False
    then have "53 \<le> \<lfloor>log 2 ?x\<rfloor>" unfolding round_exp_def by linarith
    then have e1: "\<lfloor>log 2 ?x\<rfloor> = 53" using lg(2) by linarith
    then have e2: "round_exp ?x = 1" by (simp add: round_exp_def)
    have "2 ^ 53 \<le> ?x" using floor_log_eq_powr_iff [of ?x 2 53] n e1 by simp
    then have "?x = 2 ^ 53" using n by linarith
    then have "?x * 2 powr - of_int (round_exp ?x) = real (2 ^ 52)"
      unfolding e2 by (simp add: powr_minus)
    then show ?thesis using that by blast
  qed
  moreover have "round_exp ?x \<le> 1" using lg(2) unfolding round_exp_def by linarith
  then have "round_exp ?y < 971" using e assms(3) by linarith
  ultimately show ?thesis using round_real_exact [of ?y j False] n assms(1) by simp
qed

lemma f64_pow2_val: "k \<le> 900 \<Longrightarrow> is_fin (f64_pow2 (int k)) \<and> \<not> fneg (f64_pow2 (int k)) \<and> fval (f64_pow2 (int k)) = 2 ^ k"
  using round_real_scaled [of 1 k] by (simp add: f64_pow2_def f64_round_eq int_exact_def powr_realpow)

lemma fmul_pow2:
  assumes "0 < n" and "int_exact n" and "k \<le> 900"
  shows "is_fin (fmul (f64_of_int n) (f64_pow2 (int k))) \<and> fval (fmul (f64_of_int n) (f64_pow2 (int k))) = of_int n * 2 ^ k"
proof -
  have "fmul (f64_of_int n) (f64_pow2 (int k)) = round_real False (of_int n * 2 ^ k)"
    using f64_pow2_val [OF assms(3)] assms(1,2)
    by (simp add: fmul_val f64_of_int_facts abs_mult)
  then show ?thesis using round_real_scaled [OF assms] by simp
qed

end
