(* ===== verification/Go_Strings.thy ===== *)
theory Go_Strings
  imports Gateway_Prelude
begin

text \<open>
  The parts of Go's \<^verbatim>\<open>strings\<close>, \<^verbatim>\<open>strconv\<close>, \<^verbatim>\<open>unicode\<close> and
  \<^verbatim>\<open>utf8\<close> packages that the gateway uses. A Go string is a sequence of bytes and so
  is a \<^typ>\<open>string\<close>, a list of eight-bit characters; \<^verbatim>\<open>len\<close> counts bytes,
  and \<^verbatim>\<open>len([]rune(s))\<close> is \<open>rune_count\<close>, which decodes UTF-8.
\<close>

section \<open>Prefixes and substrings\<close>

definition has_prefix :: "string \<Rightarrow> string \<Rightarrow> bool" where
  "has_prefix s p \<longleftrightarrow> take (length p) s = p"

definition trim_prefix :: "string \<Rightarrow> string \<Rightarrow> string" where
  "trim_prefix s p = (if has_prefix s p then drop (length p) s else s)"

fun str_contains :: "string \<Rightarrow> string \<Rightarrow> bool" where
  "str_contains [] sub \<longleftrightarrow> sub = []"
| "str_contains (c # s) sub \<longleftrightarrow> has_prefix (c # s) sub \<or> str_contains s sub"

text \<open>\<^verbatim>\<open>strings.SplitN(s, sep, 2)\<close> for a one-byte separator that occurs in \<open>s\<close>.\<close>

definition split_first :: "char \<Rightarrow> string \<Rightarrow> string \<times> string" where
  "split_first c s = (takeWhile (\<lambda>x. x \<noteq> c) s, tl (dropWhile (\<lambda>x. x \<noteq> c) s))"

lemma has_prefix_iff: "has_prefix s p \<longleftrightarrow> (\<exists>t. s = p @ t)"
  unfolding has_prefix_def by (metis append_eq_conv_conj append_take_drop_id)

lemma has_prefix_append [simp]: "has_prefix (p @ s) p"
  by (auto simp: has_prefix_iff)

lemma trim_prefix_append [simp]: "trim_prefix (p @ s) p = s"
  by (simp add: trim_prefix_def)

lemma str_contains_iff: "str_contains s sub \<longleftrightarrow> (\<exists>p t. s = p @ sub @ t)"
proof (induction s)
  case Nil
  then show ?case by auto
next
  case (Cons c s)
  have "(\<exists>p t. c # s = p @ sub @ t) \<longleftrightarrow> (\<exists>t. c # s = sub @ t) \<or> (\<exists>p t. s = p @ sub @ t)"
    by (metis append_Cons append_Nil list.inject neq_Nil_conv)
  with Cons show ?case by (auto simp: has_prefix_iff)
qed

lemma str_contains_char: "str_contains s [c] \<longleftrightarrow> c \<in> set s"
  by (simp add: str_contains_iff in_set_conv_decomp)

lemma split_first_append:
  "c \<notin> set p \<Longrightarrow> split_first c (p @ c # t) = (p, t)"
  by (induction p) (auto simp: split_first_def)

lemma split_first_join:
  assumes "c \<in> set s" shows "s = fst (split_first c s) @ c # snd (split_first c s)"
    and "c \<notin> set (fst (split_first c s))"
proof -
  obtain p t where s: "s = p @ c # t" "c \<notin> set p" using split_list_first [OF assms] by blast
  then show "s = fst (split_first c s) @ c # snd (split_first c s)"
    and "c \<notin> set (fst (split_first c s))" by (simp_all add: split_first_append)
qed

section \<open>UTF-8\<close>

definition byte :: "char \<Rightarrow> nat" where "byte c = of_char c"

definition cont :: "nat \<Rightarrow> nat \<Rightarrow> char \<Rightarrow> bool" where
  "cont lo hi c \<longleftrightarrow> lo \<le> byte c \<and> byte c \<le> hi"

text \<open>
  \<^verbatim>\<open>utf8.DecodeRuneInString\<close>: the rune and its width. The ranges of the second byte
  exclude overlong forms and surrogates; an invalid byte is the replacement rune, of width 1.
\<close>

definition second_range :: "nat \<Rightarrow> nat \<times> nat" where
  "second_range b = (if b = 224 then (160, 191) else if b = 237 then (128, 159)
     else if b = 240 then (144, 191) else if b = 244 then (128, 143) else (128, 191))"

fun decode_rune :: "string \<Rightarrow> nat \<times> nat" where
  "decode_rune [] = (65533, 0)"
| "decode_rune (c # cs) =
     (let b = byte c; (lo, hi) = second_range b in
      if b < 128 then (b, 1)
      else if 194 \<le> b \<and> b \<le> 223 then
        (case cs of
           c1 # _ \<Rightarrow> if cont lo hi c1 then ((b - 192) * 64 + (byte c1 - 128), 2) else (65533, 1)
         | _ \<Rightarrow> (65533, 1))
      else if 224 \<le> b \<and> b \<le> 239 then
        (case cs of
           c1 # c2 # _ \<Rightarrow> if cont lo hi c1 \<and> cont 128 191 c2
             then ((b - 224) * 4096 + (byte c1 - 128) * 64 + (byte c2 - 128), 3) else (65533, 1)
         | _ \<Rightarrow> (65533, 1))
      else if 240 \<le> b \<and> b \<le> 244 then
        (case cs of
           c1 # c2 # c3 # _ \<Rightarrow> if cont lo hi c1 \<and> cont 128 191 c2 \<and> cont 128 191 c3
             then ((b - 240) * 262144 + (byte c1 - 128) * 4096 + (byte c2 - 128) * 64 + (byte c3 - 128), 4)
             else (65533, 1)
         | _ \<Rightarrow> (65533, 1))
      else (65533, 1))"

lemma decode_rune_width: "cs \<noteq> [] \<Longrightarrow> 0 < snd (decode_rune cs) \<and> snd (decode_rune cs) \<le> length cs"
  by (cases cs) (auto simp: Let_def split: prod.splits list.splits)

declare decode_rune.simps(2) [simp del]

text \<open>The runes of a string, each with the bytes it was decoded from.\<close>

function runes :: "string \<Rightarrow> (nat \<times> string) list" where
  "runes [] = []"
| "runes (c # cs) = (let (r, w) = decode_rune (c # cs) in (r, take w (c # cs)) # runes (drop w (c # cs)))"
  by pat_completeness auto
termination
proof (relation "measure length", goal_cases)
  case (2 c cs rw r w)
  then have "0 < w" using decode_rune_width [of "c # cs"] by (metis list.distinct(1) snd_conv)
  then show ?case by simp
qed simp

declare runes.simps(2) [simp del]

definition rune_count :: "string \<Rightarrow> nat" where
  "rune_count s = length (runes s)"

lemma concat_runes: "concat (map snd (runes s)) = s"
  by (induction s rule: runes.induct) (auto simp: runes.simps(2) split: prod.splits)

lemma runes_ascii: "\<forall>c \<in> set s. byte c < 128 \<Longrightarrow> runes s = map (\<lambda>c. (byte c, [c])) s"
  by (induction s) (auto simp: runes.simps(2) decode_rune.simps(2) Let_def second_range_def)

lemma rune_count_le: "rune_count s \<le> length s"
proof (unfold rune_count_def, induction s rule: runes.induct)
  case 1
  then show ?case by simp
next
  case (2 c cs)
  obtain r w where rw: "decode_rune (c # cs) = (r, w)" by fastforce
  then have "0 < w" using decode_rune_width [of "c # cs"] by simp
  then show ?case using "2.IH" [OF rw [symmetric] refl] by (simp add: runes.simps(2) rw)
qed

lemma rune_count_0_iff: "rune_count s = 0 \<longleftrightarrow> s = []"
  by (cases s) (auto simp: rune_count_def runes.simps(2) split: prod.splits)

section \<open>White space\<close>

text \<open>\<^verbatim>\<open>unicode.IsSpace\<close>.\<close>

definition is_space :: "nat \<Rightarrow> bool" where
  "is_space r \<longleftrightarrow> r \<in> {9, 10, 11, 12, 13, 32, 133, 160, 5760, 8232, 8233, 8239, 8287, 12288} \<or>
     8192 \<le> r \<and> r \<le> 8202"

fun fields_from :: "(nat \<times> string) list \<Rightarrow> string \<Rightarrow> string list" where
  "fields_from [] cur = (if cur = [] then [] else [cur])"
| "fields_from ((r, bs) # rs) cur =
     (if is_space r then (if cur = [] then fields_from rs [] else cur # fields_from rs [])
      else fields_from rs (cur @ bs))"

text \<open>\<^verbatim>\<open>strings.Fields\<close> and \<^verbatim>\<open>strings.TrimSpace\<close>.\<close>

definition str_fields :: "string \<Rightarrow> string list" where
  "str_fields s = fields_from (runes s) []"

definition trim_space :: "string \<Rightarrow> string" where
  "trim_space s =
     (let rs = dropWhile (\<lambda>(r, bs). is_space r) (runes s);
          rs = rev (dropWhile (\<lambda>(r, bs). is_space r) (rev rs))
      in concat (map snd rs))"

section \<open>Numbers and case\<close>

definition digit :: "char \<Rightarrow> nat option" where
  "digit c = (if 48 \<le> byte c \<and> byte c \<le> 57 then Some (byte c - 48) else None)"

fun digits_value :: "string \<Rightarrow> nat \<Rightarrow> nat option" where
  "digits_value [] acc = Some acc"
| "digits_value (c # cs) acc =
     (case digit c of None \<Rightarrow> None | Some d \<Rightarrow> digits_value cs (10 * acc + d))"

text \<open>\<^verbatim>\<open>strconv.Atoi\<close> on a 64-bit platform; \<open>None\<close> is a syntax or range error.\<close>

definition atoi :: "string \<Rightarrow> int option" where
  "atoi s =
     (let (neg, ds) = (case s of c # cs \<Rightarrow>
            if c = CHR ''-'' then (True, cs) else if c = CHR ''+'' then (False, cs) else (False, s)
          | [] \<Rightarrow> (False, s))
      in if ds = [] then None
         else (case digits_value ds 0 of None \<Rightarrow> None
               | Some n \<Rightarrow> let v = (if neg then - int n else int n)
                          in if in_int64 v then Some v else None))"

text \<open>The verb \<^verbatim>\<open>%d\<close> of \<^verbatim>\<open>fmt\<close>: decimal digits after an optional sign.\<close>

fun nat_digits :: "nat \<Rightarrow> string \<Rightarrow> string" where
  "nat_digits n acc = (let acc = char_of (48 + n mod 10) # acc
                       in if n < 10 then acc else nat_digits (n div 10) acc)"

declare nat_digits.simps [simp del]

definition itoa :: "int \<Rightarrow> string" where
  "itoa n = (if n < 0 then CHR ''-'' # nat_digits (nat (- n)) [] else nat_digits (nat n) [])"

lemma byte_char_of [simp]: "n < 256 \<Longrightarrow> byte (char_of n) = n"
  by (simp add: byte_def take_bit_eq_mod)

lemma nat_digits_chars:
  "\<forall>c \<in> set acc. 48 \<le> byte c \<and> byte c \<le> 57 \<Longrightarrow> \<forall>c \<in> set (nat_digits n acc). 48 \<le> byte c \<and> byte c \<le> 57"
proof (induction n acc rule: nat_digits.induct)
  case (1 n acc)
  then show ?case by (subst nat_digits.simps) (auto simp: Let_def)
qed

lemma nat_digits_not_Nil [simp]: "nat_digits n acc \<noteq> []"
  by (induction n acc rule: nat_digits.induct) (subst nat_digits.simps, simp add: Let_def)

lemma nat_digits_append: "nat_digits n acc = nat_digits n [] @ acc"
proof (induction n arbitrary: acc rule: less_induct)
  case (less n)
  show ?case
  proof (cases "n < 10")
    case True
    then show ?thesis by (simp add: nat_digits.simps [of n])
  next
    case False
    let ?c = "char_of (48 + n mod 10) :: char"
    have "nat_digits (n div 10) (?c # acc) = nat_digits (n div 10) [] @ ?c # acc" for acc
      by (rule less) (use False in simp)
    from this [of acc] this [of "[]"] show ?thesis
      using False by (simp add: nat_digits.simps [of n])
  qed
qed

lemma digits_value_append:
  "digits_value (s @ t) k = (case digits_value s k of None \<Rightarrow> None | Some v \<Rightarrow> digits_value t v)"
  by (induction s arbitrary: k) (auto split: option.splits)

lemma digits_value_nat_digits: "digits_value (nat_digits n []) 0 = Some n"
proof (induction n rule: less_induct)
  case (less n)
  have d: "digit (char_of (48 + n mod 10)) = Some (n mod 10)" by (simp add: digit_def)
  show ?case
  proof (cases "n < 10")
    case True
    then show ?thesis using d by (simp add: nat_digits.simps [of n])
  next
    case False
    then have "nat_digits n [] = nat_digits (n div 10) [] @ [char_of (48 + n mod 10)]"
      by (simp add: nat_digits.simps [of n] nat_digits_append [of "n div 10" "[_]"])
    then show ?thesis using less [of "n div 10"] False d by (simp add: digits_value_append)
  qed
qed

lemma atoi_itoa: "in_int64 n \<Longrightarrow> atoi (itoa n) = Some n"
proof -
  assume n: "in_int64 n"
  have "atoi (nat_digits k []) = (if in_int64 (int k) then Some (int k) else None)" for k
  proof -
    obtain c cs where c: "nat_digits k [] = c # cs" by (cases "nat_digits k []") auto
    then have "48 \<le> byte c" using nat_digits_chars [of "[]" k] by simp
    then have "c \<noteq> CHR ''-''" "c \<noteq> CHR ''+''" by (auto simp: byte_def)
    then show ?thesis using digits_value_nat_digits [of k] by (simp add: atoi_def c)
  qed
  then show ?thesis using n
    by (auto simp: itoa_def atoi_def digits_value_nat_digits)
qed

text \<open>
  \<^verbatim>\<open>strings.ToLower\<close> as far as a search for ASCII text can tell: the ASCII capitals,
  and the two other runes whose lower case is an ASCII letter (the capital I with a dot and
  the Kelvin sign). Every other rune keeps its bytes here; its lower case is not ASCII.
\<close>

definition lower_rune :: "nat \<times> string \<Rightarrow> string" where
  "lower_rune = (\<lambda>(r, bs). if 65 \<le> r \<and> r \<le> 90 then [char_of (r + 32)]
     else if r = 304 then ''i'' else if r = 8490 then ''k'' else bs)"

definition to_lower :: "string \<Rightarrow> string" where
  "to_lower s = concat (map lower_rune (runes s))"

lemma atoi_bounds: "atoi s = Some n \<Longrightarrow> in_int64 n"
  by (auto simp: atoi_def Let_def split: list.splits if_splits option.splits)

lemma to_lower_caseless:
  "\<forall>c \<in> set s. byte c < 65 \<or> 90 < byte c \<and> byte c < 128 \<Longrightarrow> to_lower s = s"
proof -
  assume a: "\<forall>c \<in> set s. byte c < 65 \<or> 90 < byte c \<and> byte c < 128"
  then have "runes s = map (\<lambda>c. (byte c, [c])) s" by (intro runes_ascii) auto
  moreover have "map lower_rune (map (\<lambda>c. (byte c, [c])) s) = map (\<lambda>c. [c]) s"
    using a by (auto simp: lower_rune_def)
  ultimately show ?thesis by (simp add: to_lower_def del: map_map)
qed

end
