(* ===== verification/Gateway_Model.thy ===== *)
theory Gateway_Model
  imports Go_Float Go_Strings
begin

text \<open>
  The data of \<^verbatim>\<open>internal/model\<close>: requests, responses, stream chunks and errors. A
  pointer field that may be nil is an option, and so are the choices of a response, whose JSON
  text tells a nil slice from an empty one. A Go error value is either a
  \<^verbatim>\<open>*model.Error\<close>, which the code recognises by a type assertion, or an error of
  another type, of which only the text is observable.
\<close>

record Message =
  msg_role :: string
  msg_content :: string

record StandardRequest =
  req_id :: string
  req_model :: string
  req_messages :: "Message list"
  req_stream :: bool
  req_temperature :: "f64 option"
  req_maxTokens :: "int option"
  req_taskType :: string
  req_metadata :: "string \<rightharpoonup> string"

record Usage =
  us_prompt :: int
  us_completion :: int
  us_total :: int

record Choice =
  ch_index :: int
  ch_message :: Message
  ch_finish :: string

record StandardResponse =
  rs_id :: string
  rs_model :: string
  rs_provider :: string
  rs_choices :: "Choice list option"
  rs_usage :: Usage
  rs_cacheHit :: bool

record Delta =
  dl_role :: string
  dl_content :: string

record Error =
  er_code :: string
  er_message :: string
  er_type :: string

record StreamChunk =
  sc_id :: string
  sc_model :: string
  sc_delta :: Delta
  sc_done :: bool
  sc_error :: "Error option"

definition zero_usage :: Usage where
  "zero_usage = \<lparr>us_prompt = 0, us_completion = 0, us_total = 0\<rparr>"

definition zero_response :: StandardResponse where
  "zero_response = \<lparr>rs_id = '''', rs_model = '''', rs_provider = '''', rs_choices = None,
     rs_usage = zero_usage, rs_cacheHit = False\<rparr>"

definition zero_delta :: Delta where
  "zero_delta = \<lparr>dl_role = '''', dl_content = ''''\<rparr>"

definition zero_chunk :: StreamChunk where
  "zero_chunk = \<lparr>sc_id = '''', sc_model = '''', sc_delta = zero_delta, sc_done = False, sc_error = None\<rparr>"

text \<open>A chunk that reports an error of the stream.\<close>

definition is_error :: "StreamChunk \<Rightarrow> bool" where
  "is_error c \<longleftrightarrow> sc_error c \<noteq> None"

section \<open>Error codes\<close>

definition ErrCodeInvalidRequest :: string where "ErrCodeInvalidRequest = ''invalid_request''"
definition ErrCodeAuthentication :: string where "ErrCodeAuthentication = ''authentication_error''"
definition ErrCodeRateLimit :: string where "ErrCodeRateLimit = ''rate_limit_exceeded''"
definition ErrCodeModelNotFound :: string where "ErrCodeModelNotFound = ''model_not_found''"
definition ErrCodeProviderError :: string where "ErrCodeProviderError = ''provider_error''"
definition ErrCodeCircuitOpen :: string where "ErrCodeCircuitOpen = ''circuit_breaker_open''"
definition ErrCodeTimeout :: string where "ErrCodeTimeout = ''timeout''"
definition ErrCodeFallbackExhausted :: string where "ErrCodeFallbackExhausted = ''fallback_exhausted''"
definition ErrCodeInternal :: string where "ErrCodeInternal = ''internal_error''"

lemmas ErrCode_defs = ErrCodeInvalidRequest_def ErrCodeAuthentication_def ErrCodeRateLimit_def
  ErrCodeModelNotFound_def ErrCodeProviderError_def ErrCodeCircuitOpen_def ErrCodeTimeout_def
  ErrCodeFallbackExhausted_def ErrCodeInternal_def

definition NewError :: "string \<Rightarrow> string \<Rightarrow> Error" where
  "NewError code message = \<lparr>er_code = code, er_message = message, er_type = code\<rparr>"

datatype go_error = ModelErr Error | OtherErr string

definition model_error_string :: "Error \<Rightarrow> string" where
  "model_error_string e = er_code e @ '': '' @ er_message e"

fun error_string :: "go_error \<Rightarrow> string" where
  "error_string (ModelErr e) = model_error_string e"
| "error_string (OtherErr s) = s"

abbreviation new_error :: "string \<Rightarrow> string \<Rightarrow> go_error" where
  "new_error code message \<equiv> ModelErr (NewError code message)"

section \<open>Results of calls\<close>

text \<open>
  A call returns a value, returns an error, or panics (a nil dereference, an index out of
  range, a failed type assertion).
\<close>

datatype 'a go_result = Ok 'a | Err go_error | Panic

fun go_bind :: "'a go_result \<Rightarrow> ('a \<Rightarrow> 'b go_result) \<Rightarrow> 'b go_result" where
  "go_bind (Ok x) f = f x"
| "go_bind (Err e) f = Err e"
| "go_bind Panic f = Panic"

lemma go_bind_Ok_iff: "go_bind r f = Ok y \<longleftrightarrow> (\<exists>x. r = Ok x \<and> f x = Ok y)"
  by (cases r) auto

lemma go_bind_cong [fundef_cong]:
  "r = r' \<Longrightarrow> (\<And>x. r' = Ok x \<Longrightarrow> f x = f' x) \<Longrightarrow> go_bind r f = go_bind r' f'"
  by (cases r') auto

section \<open>Providers\<close>

text \<open>
  The interface \<^verbatim>\<open>model.Provider\<close>. Its calls go over the network; the type \<^typ>\<open>'w\<close>
  stands for the state of the outside world (upstream services, the clock), which a call may
  read and change. A stream is the list of chunks its channel delivers before it is closed.
\<close>

record 'w Provider =
  pv_name :: string
  pv_models :: "string list"
  pv_send :: "StandardRequest \<Rightarrow> 'w \<Rightarrow> (go_error + StandardResponse) \<times> 'w"
  pv_stream :: "StandardRequest \<Rightarrow> 'w \<Rightarrow> (go_error + StreamChunk list) \<times> 'w"
  pv_health :: "'w \<Rightarrow> go_error option \<times> 'w"

text \<open>
  The contract of a provider that the service relies on: its responses carry its name, and its
  streams end with their first error.
\<close>

locale chat_provider =
  fixes pv :: "'w Provider"
  assumes response_named: "pv_send pv req w = (Inr resp, w') \<Longrightarrow> rs_provider resp = pv_name pv"
    and errors_last: "pv_stream pv req w = (Inr chunks, w') \<Longrightarrow> \<forall>c \<in> set (butlast chunks). \<not> is_error c"

section \<open>Metrics\<close>

text \<open>The updates of the counters in \<^verbatim>\<open>internal/observability/metrics.go\<close>, with their labels.\<close>

datatype metric =
    RequestDuration string string
  | RequestTotal string string string
  | TokensTotal string string string int
  | FallbackTotal string string string
  | CacheHitTotal string string

lemma NewError_simps [simp]:
  "er_code (NewError c m) = c" "er_message (NewError c m) = m" "er_type (NewError c m) = c"
  by (simp_all add: NewError_def)

end
