(* ===== verification/Embedding.thy ===== *)
theory Embedding
  imports Go_Float_Facts Gateway_Model
begin

text \<open>
  The vector functions of \<^verbatim>\<open>internal/embedding/embedding.go\<close> and the tensor
  plumbing of \<^verbatim>\<open>internal/embedding/onnx.go\<close>. The tokenizer and the ONNX session are
  third-party code and appear as parameters. A \<^verbatim>\<open>float32\<close> is represented by the double it
  converts to, exactly, so \<^verbatim>\<open>float64(x)\<close> is the identity.
\<close>

section \<open>Vectors\<close>

fun cosine_loop :: "f64 list \<Rightarrow> f64 list \<Rightarrow> f64 \<Rightarrow> f64 \<Rightarrow> f64 \<Rightarrow> f64 \<times> f64 \<times> f64" where
  "cosine_loop (x # xs) (y # ys) dot na nb =
     cosine_loop xs ys (fadd dot (fmul x y)) (fadd na (fmul x x)) (fadd nb (fmul y y))"
| "cosine_loop _ _ dot na nb = (dot, na, nb)"

definition CosineSimilarity :: "f64 list \<Rightarrow> f64 list \<Rightarrow> f64" where
  "CosineSimilarity a b =
     (if length a = 0 \<or> length a \<noteq> length b then fzero
      else let (dot, na, nb) = cosine_loop a b fzero fzero fzero
           in if feq na fzero \<or> feq nb fzero then fzero
              else fdiv dot (fmul (fsqrt na) (fsqrt nb)))"

definition NormalizeVector :: "f64 list \<Rightarrow> f64 list" where
  "NormalizeVector v =
     (let norm = fsqrt (foldl (\<lambda>acc x. fadd acc (fmul x x)) fzero v)
      in if feq norm fzero then v else map (\<lambda>x. fdiv x norm) v)"

section \<open>Mean pooling\<close>

text \<open>Indexing, which panics out of range, and slicing \<^verbatim>\<open>xs[lo:hi]\<close>.\<close>

definition go_nth :: "'a list \<Rightarrow> nat \<Rightarrow> 'a go_result" where
  "go_nth xs i = (if i < length xs then Ok (xs ! i) else Panic)"

definition go_slice :: "'a list \<Rightarrow> nat \<Rightarrow> nat \<Rightarrow> 'a list go_result" where
  "go_slice xs lo hi = (if lo \<le> hi \<and> hi \<le> length xs then Ok (take (hi - lo) (drop lo xs)) else Panic)"

fun go_map :: "('a \<Rightarrow> 'b go_result) \<Rightarrow> 'a list \<Rightarrow> 'b list go_result" where
  "go_map f [] = Ok []"
| "go_map f (x # xs) = go_bind (f x) (\<lambda>y. go_bind (go_map f xs) (\<lambda>ys. Ok (y # ys)))"

text \<open>One token: its hidden values are read at every dimension, so a short row panics.\<close>

definition pool_token :: "nat \<Rightarrow> f64 list \<Rightarrow> f64 list \<Rightarrow> f64 \<Rightarrow> f64 list go_result" where
  "pool_token dm vec row weight =
     go_map (\<lambda>d. go_bind (go_nth row d) (\<lambda>h. Ok (fadd (vec ! d) (fmul h weight)))) [0..<dm]"

fun pool_tokens :: "nat \<Rightarrow> f64 list list \<Rightarrow> int list \<Rightarrow> nat \<Rightarrow> f64 list \<Rightarrow> f64 \<Rightarrow> (f64 list \<times> f64) go_result" where
  "pool_tokens dm [] msk s vec wsum = Ok (vec, wsum)"
| "pool_tokens dm (row # rows) msk s vec wsum =
     go_bind (go_nth msk s) (\<lambda>m.
     let weight = f64_of_int m; wsum = fadd wsum weight in
     go_bind (pool_token dm vec row weight) (\<lambda>vec.
     pool_tokens dm rows msk (Suc s) vec wsum))"

definition pool_one :: "nat \<Rightarrow> f64 list list \<Rightarrow> int list \<Rightarrow> f64 list go_result" where
  "pool_one dm rows msk =
     go_bind (pool_tokens dm rows msk 0 (replicate dm fzero) fzero) (\<lambda>(vec, wsum).
     Ok (if flt fzero wsum then map (\<lambda>x. fdiv x wsum) vec else vec))"

definition MeanPooling :: "f64 list list list \<Rightarrow> int list list \<Rightarrow> f64 list list go_result" where
  "MeanPooling hidden msk =
     (if hidden = [] then Ok []
      else go_bind (go_nth (hidden ! 0) 0) (\<lambda>row0.
           go_map (\<lambda>b. go_bind (if hidden ! b = [] then Ok [] else go_nth msk b)
                    (\<lambda>m. pool_one (length row0) (hidden ! b) m))
             [0..<length hidden]))"

section \<open>The tensors\<close>

definition defaultMaxLength :: nat where "defaultMaxLength = 512"
definition defaultEmbeddingDim :: nat where "defaultEmbeddingDim = 512"

definition padAndMaskInt :: "int list \<Rightarrow> nat \<Rightarrow> int list \<times> int list" where
  "padAndMaskInt ids maxLen =
     (let seqLen = min (length ids) maxLen
      in (take seqLen ids @ replicate (maxLen - seqLen) 0,
          replicate seqLen 1 @ replicate (maxLen - seqLen) 0))"

definition reshapeHidden :: "f64 list \<Rightarrow> nat \<Rightarrow> nat \<Rightarrow> nat \<Rightarrow> f64 list list list go_result" where
  "reshapeHidden flat batch seqLen dm =
     go_map (\<lambda>b. go_map (\<lambda>s. let base = (b * seqLen + s) * dm in go_slice flat base (base + dm))
       [0..<seqLen]) [0..<batch]"

definition reshapeMask :: "int list \<Rightarrow> nat \<Rightarrow> nat \<Rightarrow> int list list go_result" where
  "reshapeMask flat batch seqLen =
     go_map (\<lambda>b. go_slice flat (b * seqLen) ((b + 1) * seqLen)) [0..<batch]"

text \<open>
  The inference: the tokenizer \<open>encode\<close> and the session \<open>run\<close>, which takes the batch size
  and the three flat inputs and returns the flat last hidden state, are parameters; \<open>run\<close>
  also covers the creation of the tensors, which can fail.
\<close>

definition onnx_embed :: "(string \<Rightarrow> int list) \<Rightarrow>
    (nat \<Rightarrow> int list \<Rightarrow> int list \<Rightarrow> int list \<Rightarrow> f64 list go_result) \<Rightarrow>
    string list \<Rightarrow> f64 list list go_result" where
  "onnx_embed encode run texts =
     (if texts = [] then Ok []
      else
        let batch = length texts;
            padded = map (\<lambda>text. padAndMaskInt (encode text) defaultMaxLength) texts;
            inputIDs = concat (map fst padded);
            attnMask = concat (map snd padded);
            typeIDs = replicate (batch * defaultMaxLength) 0
        in go_bind (run batch inputIDs attnMask typeIDs) (\<lambda>raw.
           go_bind (reshapeHidden raw batch defaultMaxLength defaultEmbeddingDim) (\<lambda>hidden.
           go_bind (reshapeMask attnMask batch defaultMaxLength) (\<lambda>msk.
           go_bind (MeanPooling hidden msk) (\<lambda>pooled.
           Ok (map NormalizeVector pooled))))))"

text \<open>
  An embedding engine: nil or with its implementation, which may be missing. Calling
  \<^verbatim>\<open>Embed\<close> on a nil engine dereferences it to lock its mutex.
\<close>

type_synonym embed_fun = "string list \<Rightarrow> f64 list list go_result"

datatype engine = NilEngine | Engine "embed_fun option"

fun engine_Embed :: "engine \<Rightarrow> embed_fun" where
  "engine_Embed NilEngine texts = Panic"
| "engine_Embed (Engine None) texts = Err (OtherErr ''onnx engine not initialized'')"
| "engine_Embed (Engine (Some impl)) texts = impl texts"

text \<open>\<^verbatim>\<open>Close\<close> of the engine: whether it destroyed a session. A nil engine is dereferenced here too.\<close>

fun engine_Close :: "engine \<Rightarrow> bool go_result" where
  "engine_Close NilEngine = Panic"
| "engine_Close (Engine onnxImpl) = Ok (onnxImpl \<noteq> None)"

text \<open>
  \<^verbatim>\<open>Init\<close>: what the ONNX runtime, the tokenizer package and the file system answer is a
  parameter, as an error text or a result; the first error leaves the engine nil. A second
  call returns what the first one left, and changes nothing.
\<close>

record 'c onnx_env =
  ox_environment :: "string \<Rightarrow> string option"
  ox_readFile :: "string \<Rightarrow> string + string"
  ox_parseConfig :: "string \<Rightarrow> string + 'c"
  ox_tokenizer :: "'c \<Rightarrow> string \<Rightarrow> string + (string \<Rightarrow> int list)"
  ox_session :: "string \<Rightarrow> string + (nat \<Rightarrow> int list \<Rightarrow> int list \<Rightarrow> int list \<Rightarrow> f64 list go_result)"

definition init_failed :: "string \<Rightarrow> string \<Rightarrow> engine \<times> go_error option" where
  "init_failed what err = (NilEngine, Some (OtherErr (what @ '': '' @ err)))"

definition embedding_Init :: "'c onnx_env \<Rightarrow> string \<Rightarrow> string \<Rightarrow> (engine \<times> go_error option) option \<Rightarrow>
    engine \<times> go_error option" where
  "embedding_Init ox libPath modelPath done =
     (case done of
        Some r \<Rightarrow> r
      | None \<Rightarrow>
          (case ox_environment ox libPath of
             Some err \<Rightarrow> init_failed ''init onnx env'' err
           | None \<Rightarrow>
               (case ox_readFile ox (modelPath @ ''/tokenizer_config.json'') of
                  Inl err \<Rightarrow> init_failed ''read tokenizer_config.json'' err
                | Inr configData \<Rightarrow>
                    (case ox_parseConfig ox configData of
                       Inl err \<Rightarrow> init_failed ''parse tokenizer config'' err
                     | Inr config \<Rightarrow>
                         (case ox_tokenizer ox config (modelPath @ ''/tokenizer.json'') of
                            Inl err \<Rightarrow> init_failed ''load tokenizer'' err
                          | Inr tk \<Rightarrow>
                              (case ox_session ox (modelPath @ ''/model.onnx'') of
                                 Inl err \<Rightarrow> init_failed ''load onnx session'' err
                               | Inr session \<Rightarrow> (Engine (Some (onnx_embed tk session)), None)))))))"

text \<open>The first call leaves a working engine or none, and only in the latter case an error.\<close>

lemma embedding_Init_cases:
  assumes "embedding_Init ox libPath modelPath None = (e, err)"
  obtains (loaded) impl where "e = Engine (Some impl)" and "err = None"
    | (failed) msg where "e = NilEngine" and "err = Some (OtherErr msg)"
  using assms by (auto simp: embedding_Init_def init_failed_def split: option.splits sum.splits)

lemma embedding_Init_close:
  "embedding_Init ox libPath modelPath None = (e, err) \<Longrightarrow>
   engine_Close e = (if err = None then Ok True else Panic)"
  by (erule embedding_Init_cases) simp_all

text \<open>
  The \<^verbatim>\<open>Embedder\<close> interface of the router and the cache: nil, or a value with a method.
  A nil engine stored in the interface is not a nil interface.
\<close>

type_synonym embedder = "embed_fun option"

section \<open>Shapes\<close>

lemma go_map_all:
  "(\<And>x. x \<in> set xs \<Longrightarrow> \<exists>y. f x = Ok y \<and> P y) \<Longrightarrow>
   \<exists>ys. go_map f xs = Ok ys \<and> length ys = length xs \<and> (\<forall>y \<in> set ys. P y)"
proof (induction xs)
  case Nil
  then show ?case by simp
next
  case (Cons x xs)
  obtain y where "f x = Ok y" "P y" using Cons.prems [of x] by auto
  moreover obtain ys where "go_map f xs = Ok ys" "length ys = length xs" "\<forall>y \<in> set ys. P y"
    using Cons by auto
  ultimately show ?case by auto
qed

lemma go_map_Ok: "go_map (\<lambda>x. Ok (f x)) xs = Ok (map f xs)"
  by (induction xs) auto

lemma padAndMaskInt_length:
  "length (fst (padAndMaskInt ids n)) = n" "length (snd (padAndMaskInt ids n)) = n"
  by (simp_all add: padAndMaskInt_def Let_def)

lemma length_concat_const: "\<forall>x \<in> set xs. length x = n \<Longrightarrow> length (concat xs) = length xs * n"
  by (induction xs) auto

lemma reshapeMask_ok:
  assumes "length flat = batch * n"
  shows "\<exists>m. reshapeMask flat batch n = Ok m \<and> length m = batch \<and> (\<forall>r \<in> set m. length r = n)"
  unfolding reshapeMask_def
proof (rule go_map_all [where xs = "[0..<batch]", unfolded length_upt minus_nat.diff_0])
  fix b assume "b \<in> set [0..<batch]"
  then have "(b + 1) * n \<le> length flat" unfolding assms by (intro mult_le_mono1) auto
  then show "\<exists>y. go_slice flat (b * n) ((b + 1) * n) = Ok y \<and> length y = n"
    by (simp add: go_slice_def)
qed

lemma reshapeHidden_ok:
  assumes "length flat = batch * n * dm"
  shows "\<exists>h. reshapeHidden flat batch n dm = Ok h \<and> length h = batch \<and>
           (\<forall>rows \<in> set h. length rows = n \<and> (\<forall>r \<in> set rows. length r = dm))"
  unfolding reshapeHidden_def
proof (rule go_map_all [where xs = "[0..<batch]", unfolded length_upt minus_nat.diff_0])
  fix b assume b: "b \<in> set [0..<batch]"
  show "\<exists>y. go_map (\<lambda>s. let base = (b * n + s) * dm in go_slice flat base (base + dm)) [0..<n] = Ok y \<and>
      length y = n \<and> (\<forall>r \<in> set y. length r = dm)"
  proof (rule go_map_all [where xs = "[0..<n]", unfolded length_upt minus_nat.diff_0])
    fix s assume s: "s \<in> set [0..<n]"
    have "b * n + s + 1 \<le> (b + 1) * n" using s by simp
    also have "\<dots> \<le> batch * n" using b by (intro mult_le_mono1) auto
    finally have "(b * n + s + 1) * dm \<le> length flat" unfolding assms by (rule mult_le_mono1)
    then show "\<exists>y. (let base = (b * n + s) * dm in go_slice flat base (base + dm)) = Ok y \<and> length y = dm"
      by (simp add: go_slice_def Let_def algebra_simps)
  qed
qed

lemma pool_token_ok:
  assumes "length row = dm"
  shows "\<exists>v. pool_token dm vec row w = Ok v \<and> length v = dm"
proof -
  have "\<exists>ys. pool_token dm vec row w = Ok ys \<and> length ys = length [0..<dm] \<and> (\<forall>y \<in> set ys. True)"
    unfolding pool_token_def by (rule go_map_all) (simp add: go_nth_def assms)
  then show ?thesis by auto
qed

lemma pool_tokens_ok:
  assumes "\<forall>r \<in> set rows. length r = dm" and "length vec = dm" and "s + length rows \<le> length msk"
  shows "\<exists>v sm. pool_tokens dm rows msk s vec wsum = Ok (v, sm) \<and> length v = dm"
  using assms
proof (induction rows arbitrary: s vec wsum)
  case Nil
  then show ?case by simp
next
  case (Cons r rows)
  obtain v where "pool_token dm vec r (f64_of_int (msk ! s)) = Ok v" "length v = dm"
    using pool_token_ok [of r dm vec "f64_of_int (msk ! s)"] Cons.prems(1) by auto
  then show ?case using Cons.IH [of v "Suc s"] Cons.prems by (simp add: go_nth_def Let_def)
qed

lemma pool_one_ok:
  assumes "\<forall>r \<in> set rows. length r = dm" and "length rows \<le> length msk"
  shows "\<exists>v. pool_one dm rows msk = Ok v \<and> length v = dm"
  using pool_tokens_ok [of rows dm "replicate dm fzero" 0 msk fzero] assms
  by (auto simp: pool_one_def)

lemma MeanPooling_ok:
  assumes "length hidden = batch" and "length msk = batch" and "0 < n"
    and "\<forall>rows \<in> set hidden. length rows = n \<and> (\<forall>r \<in> set rows. length r = dm)"
    and "\<forall>m \<in> set msk. length m = n"
  shows "\<exists>v. MeanPooling hidden msk = Ok v \<and> length v = batch \<and> (\<forall>x \<in> set v. length x = dm)"
proof (cases hidden)
  case Nil
  then show ?thesis using assms(1) by (auto simp: MeanPooling_def)
next
  case (Cons h hs)
  then have h0: "length h = n" "\<forall>r \<in> set h. length r = dm" using assms(4) by auto
  then have row0: "go_nth h 0 = Ok (h ! 0)" "length (h ! 0) = dm"
    using assms(3) by (simp_all add: go_nth_def)
  have "\<exists>v. go_map (\<lambda>b. go_bind (if hidden ! b = [] then Ok [] else go_nth msk b)
      (\<lambda>m. pool_one dm (hidden ! b) m)) [0..<length hidden] = Ok v \<and>
      length v = length [0..<length hidden] \<and> (\<forall>x \<in> set v. length x = dm)"
  proof (rule go_map_all)
    fix b assume "b \<in> set [0..<length hidden]"
    then have b: "b < length hidden" "b < length msk" using assms(1,2) by auto
    then have "hidden ! b \<in> set hidden" "msk ! b \<in> set msk" by simp_all
    then have "length (hidden ! b) = n" "\<forall>r \<in> set (hidden ! b). length r = dm" "length (msk ! b) = n"
      using assms(4,5) by auto
    then show "\<exists>y. go_bind (if hidden ! b = [] then Ok [] else go_nth msk b)
        (\<lambda>m. pool_one dm (hidden ! b) m) = Ok y \<and> length y = dm"
      using pool_one_ok [of "hidden ! b" dm "msk ! b"] b assms(3) by (auto simp: go_nth_def)
  qed
  then show ?thesis using assms(1) row0 by (simp add: MeanPooling_def Cons del: upt_Suc)
qed

lemma NormalizeVector_length [simp]: "length (NormalizeVector v) = length v"
  by (simp add: NormalizeVector_def Let_def)

text \<open>
  C37. Embedding never panics on a session that returns a hidden state of the declared shape:
  it yields one vector of the model's dimension per text, whatever the texts and however
  many tokens they have.
\<close>

theorem onnx_embed_shape:
  assumes "\<And>batch ids msk types. length ids = batch * defaultMaxLength \<Longrightarrow>
      length msk = batch * defaultMaxLength \<Longrightarrow>
      \<exists>raw. run batch ids msk types = Ok raw \<and>
            length raw = batch * defaultMaxLength * defaultEmbeddingDim"
  shows "\<exists>vs. onnx_embed encode run texts = Ok vs \<and> length vs = length texts \<and>
           (\<forall>v \<in> set vs. length v = defaultEmbeddingDim)"
proof (cases "texts = []")
  case True
  then show ?thesis by (simp add: onnx_embed_def)
next
  case False
  let ?padded = "map (\<lambda>text. padAndMaskInt (encode text) defaultMaxLength) texts"
  let ?ids = "concat (map fst ?padded)" and ?msk = "concat (map snd ?padded)" and ?n = "length texts"
  have len: "length ?ids = ?n * defaultMaxLength" "length ?msk = ?n * defaultMaxLength"
    using length_concat_const [of "map fst ?padded" defaultMaxLength]
      length_concat_const [of "map snd ?padded" defaultMaxLength]
    by (auto simp: padAndMaskInt_length)
  obtain raw where raw: "run ?n ?ids ?msk (replicate (?n * defaultMaxLength) 0) = Ok raw"
      "length raw = ?n * defaultMaxLength * defaultEmbeddingDim"
    using assms [OF len] by blast
  obtain h where h: "reshapeHidden raw ?n defaultMaxLength defaultEmbeddingDim = Ok h" "length h = ?n"
      "\<forall>rows \<in> set h. length rows = defaultMaxLength \<and> (\<forall>r \<in> set rows. length r = defaultEmbeddingDim)"
    using reshapeHidden_ok [OF raw(2)] by blast
  obtain m where m: "reshapeMask ?msk ?n defaultMaxLength = Ok m" "length m = ?n"
      "\<forall>r \<in> set m. length r = defaultMaxLength"
    using reshapeMask_ok [OF len(2)] by blast
  have "0 < defaultMaxLength" by (simp add: defaultMaxLength_def)
  then obtain v where "MeanPooling h m = Ok v" "length v = ?n" "\<forall>x \<in> set v. length x = defaultEmbeddingDim"
    using MeanPooling_ok [OF h(2) m(2) _ h(3) m(3)] by blast
  then show ?thesis
    using False by (auto simp: onnx_embed_def raw(1) h(1) m(1) Let_def simp del: map_map)
qed

theorem onnx_embed_shape_witness:
  "\<exists>vs. onnx_embed (\<lambda>_. [101, 102]) (\<lambda>batch ids msk types.
       Ok (replicate (batch * defaultMaxLength * defaultEmbeddingDim) fzero)) [''hi''] = Ok vs \<and>
     length vs = 1 \<and> (\<forall>v \<in> set vs. length v = 512)"
  using onnx_embed_shape [of "\<lambda>batch ids msk types.
       Ok (replicate (batch * defaultMaxLength * defaultEmbeddingDim) fzero)" "\<lambda>_. [101, 102]" "[''hi'']"]
  by (simp add: defaultEmbeddingDim_def)

text \<open>Two orthogonal unit vectors, for the instances of later theories.\<close>

lemma demo_dots:
  "cosine_loop [f64_of_int 1, fzero] [fzero, f64_of_int 1] fzero fzero fzero = (fzero, f64_of_int 1, f64_of_int 1)"
  "cosine_loop [f64_of_int 1, fzero] [f64_of_int 1, fzero] fzero fzero fzero = (f64_of_int 1, f64_of_int 1, f64_of_int 1)"
  unfolding f64_of_int_0 [symmetric]
  by (simp_all add: fadd_of_int fmul_of_int int_exact_def del: f64_of_int_0 fadd.simps fmul.simps)

lemma demo_cosines:
  "CosineSimilarity [f64_of_int 1, fzero] [fzero, f64_of_int 1] = fzero"
  "CosineSimilarity [f64_of_int 1, fzero] [f64_of_int 1, fzero] = f64_of_int 1"
proof -
  have "fsqrt (f64_of_int 1) = f64_of_int 1" "fmul (f64_of_int 1) (f64_of_int 1) = f64_of_int 1"
    "fdiv fzero (f64_of_int 1) = fzero" "fdiv (f64_of_int 1) (f64_of_int 1) = f64_of_int 1"
    "\<not> feq (f64_of_int 1) fzero"
    by (simp_all add: f64_eval)
  then show "CosineSimilarity [f64_of_int 1, fzero] [fzero, f64_of_int 1] = fzero"
    and "CosineSimilarity [f64_of_int 1, fzero] [f64_of_int 1, fzero] = f64_of_int 1"
    unfolding CosineSimilarity_def demo_dots by simp_all
qed

lemma demo_compare:
  "\<not> fle (f64_round False 3 4 0) fzero" "fle (f64_round False 3 4 0) (f64_of_int 1)" "flt fzero (f64_of_int 1)"
  by (simp_all add: f64_eval)

end
