(* ===== verification/Gateway_Config.thy ===== *)
theory Gateway_Config
  imports Go_Float
begin

text \<open>
  The configuration records of \<^verbatim>\<open>internal/config/config.go\<close>, as the wiring and the
  components read them. Reading the YAML file, expanding environment variables and watching
  for changes is done by the viper package and is not modelled.
\<close>

record ServerConfig =
  srv_port :: int
  srv_readTimeout :: duration
  srv_writeTimeout :: duration

record RedisConfig =
  rd_addr :: string
  rd_password :: string
  rd_db :: int

record APIKeyConfig =
  ak_key :: string
  ak_name :: string
  ak_rateLimit :: int
  ak_allowedModels :: "string list"

record AuthConfig =
  au_apiKeys :: "APIKeyConfig list"

record ProviderConfig =
  pr_type :: string
  pr_baseURL :: string
  pr_apiKey :: string
  pr_models :: "string list"
  pr_weight :: int
  pr_timeout :: duration

record RoutingRuleConfig =
  rl_taskType :: string
  rl_condition :: string
  rl_targetModels :: "string list"

record RoutingConfig =
  ro_strategies :: "string list"
  ro_rules :: "RoutingRuleConfig list"
  ro_cascade :: "string \<rightharpoonup> string list"

record SemanticCategoryConfig =
  ct_name :: string
  ct_targetModels :: "string list"
  ct_exemplars :: "string list"

record SemanticRoutingConfig =
  sr_threshold :: f64
  sr_maxPromptLength :: int
  sr_categories :: "SemanticCategoryConfig list"

record FallbackConfig =
  fb_retryMax :: int
  fb_retryBackoff :: duration
  fb_chains :: "string \<rightharpoonup> string list"

record CircuitBreakerConfig =
  cc_failureThreshold :: int
  cc_window :: duration
  cc_cooldown :: duration

record CacheSection =
  cs_enabled :: bool
  cs_threshold :: f64
  cs_ttl :: duration
  cs_maxEntries :: int
  cs_maxPromptLength :: int

record BalancerSection =
  bs_concurrency :: f64
  bs_latency :: f64
  bs_warmupEnabled :: bool
  bs_warmupDuration :: duration
  bs_healthWindowSize :: duration
  bs_healthMinRequests :: int

record EmbeddingConfig =
  em_onnxLibraryPath :: string
  em_modelPath :: string

text \<open>
  The configuration map of the providers is a list of pairs with distinct names: its order
  stands for the order in which one \<^verbatim>\<open>range\<close> over the Go map happens to visit it.
\<close>

record Config =
  cf_server :: ServerConfig
  cf_redis :: RedisConfig
  cf_auth :: AuthConfig
  cf_providers :: "(string \<times> ProviderConfig) list"
  cf_routing :: RoutingConfig
  cf_semanticRouting :: SemanticRoutingConfig
  cf_semanticCache :: CacheSection
  cf_fallback :: FallbackConfig
  cf_breaker :: CircuitBreakerConfig
  cf_balancer :: BalancerSection
  cf_embedding :: EmbeddingConfig

definition config_ok :: "Config \<Rightarrow> bool" where
  "config_ok cfg \<longleftrightarrow> distinct (map fst (cf_providers cfg))"

end
