(* ===== verification/Strategies.thy ===== *)
theory Strategies
  imports Embedding Gateway_Config
begin

text \<open>
  The three routing strategies of \<^verbatim>\<open>internal/decision\<close>: by capability rules
  (\<^verbatim>\<open>strategy_capability.go\<close>), by cost cascade (\<^verbatim>\<open>strategy_cost.go\<close>) and by
  semantic similarity to the prototypes of categories (\<^verbatim>\<open>strategy_semantic.go\<close>). Each
  answers with a list of models to try; the empty list is Go's nil.
\<close>

section \<open>Capability rules\<close>

definition evaluateCondition :: "string \<Rightarrow> int \<Rightarrow> bool" where
  "evaluateCondition condition inputTokens =
     (let parts = str_fields condition in
      if length parts \<noteq> 3 \<or> parts ! 0 \<noteq> ''input_tokens'' then False
      else case atoi (parts ! 2) of
        None \<Rightarrow> False
      | Some threshold \<Rightarrow>
          if parts ! 1 = ''>'' then inputTokens > threshold
          else if parts ! 1 = ''<'' then inputTokens < threshold
          else if parts ! 1 = ''>='' then inputTokens \<ge> threshold
          else if parts ! 1 = ''<='' then inputTokens \<le> threshold
          else False)"

definition matchesRule :: "RoutingRuleConfig \<Rightarrow> StandardRequest \<Rightarrow> int \<Rightarrow> bool" where
  "matchesRule rule req estimatedTokens =
     (if rl_taskType rule \<noteq> '''' \<and> rl_taskType rule \<noteq> req_taskType req then False
      else if rl_condition rule \<noteq> '''' \<and> \<not> evaluateCondition (rl_condition rule) estimatedTokens then False
      else True)"

fun capability_Route :: "RoutingRuleConfig list \<Rightarrow> StandardRequest \<Rightarrow> int \<Rightarrow> string list" where
  "capability_Route [] req estimatedTokens = []"
| "capability_Route (rule # rules) req estimatedTokens =
     (if matchesRule rule req estimatedTokens then rl_targetModels rule
      else capability_Route rules req estimatedTokens)"

section \<open>Cost cascades\<close>

definition CascadeFor :: "(string \<rightharpoonup> string list) \<Rightarrow> string \<Rightarrow> string list" where
  "CascadeFor chainMap model =
     (case chainMap model of
        Some chain \<Rightarrow> if length chain > 0 then chain
          else (case chainMap ''default'' of Some d \<Rightarrow> if length d > 0 then d else [] | None \<Rightarrow> [])
      | None \<Rightarrow> (case chainMap ''default'' of Some d \<Rightarrow> if length d > 0 then d else [] | None \<Rightarrow> []))"

section \<open>Semantic categories\<close>

record CategoryPrototype =
  cp_name :: string
  cp_targetModels :: "string list"
  cp_vector :: "f64 list"

record SemanticRouter =
  sm_categories :: "CategoryPrototype list"
  sm_threshold :: f64
  sm_maxPromptLength :: int
  sm_engine :: "embedder"

text \<open>Adding a vector to the prototype, which panics where the vector is longer.\<close>

definition add_vector :: "f64 list \<Rightarrow> f64 list \<Rightarrow> f64 list go_result" where
  "add_vector prototype v =
     (if length v \<le> length prototype
      then Ok (map2 fadd (take (length v) prototype) v @ drop (length v) prototype) else Panic)"

fun sum_vectors :: "f64 list \<Rightarrow> f64 list list \<Rightarrow> f64 list go_result" where
  "sum_vectors prototype [] = Ok prototype"
| "sum_vectors prototype (v # vs) = go_bind (add_vector prototype v) (\<lambda>p. sum_vectors p vs)"

fun category_loop :: "embed_fun \<Rightarrow> SemanticCategoryConfig list \<Rightarrow> CategoryPrototype list \<Rightarrow>
    CategoryPrototype list go_result" where
  "category_loop emb [] acc = Ok acc"
| "category_loop emb (cat # cats) acc =
     go_bind (emb (ct_exemplars cat)) (\<lambda>vecs.
     if length vecs = 0 then category_loop emb cats acc
     else go_bind (sum_vectors (replicate (length (vecs ! 0)) fzero) vecs) (\<lambda>prototype.
          let n = f64_of_int (int (length vecs));
              prototype = NormalizeVector (map (\<lambda>x. fdiv x n) prototype)
          in category_loop emb cats
               (acc @ [\<lparr>cp_name = ct_name cat, cp_targetModels = ct_targetModels cat,
                        cp_vector = prototype\<rparr>])))"

definition NewSemanticRouter :: "SemanticRoutingConfig \<Rightarrow> embedder \<Rightarrow> SemanticRouter go_result" where
  "NewSemanticRouter cfg eng =
     (let sr = \<lparr>sm_categories = [], sm_threshold = sr_threshold cfg,
                sm_maxPromptLength = sr_maxPromptLength cfg, sm_engine = eng\<rparr> in
      case eng of
        None \<Rightarrow> Ok sr
      | Some emb \<Rightarrow>
          if length (sr_categories cfg) = 0 then Ok sr
          else go_bind (category_loop emb (sr_categories cfg) []) (\<lambda>cats.
               Ok (sr\<lparr>sm_categories := cats\<rparr>)))"

definition concatenateUserMessages :: "Message list \<Rightarrow> string" where
  "concatenateUserMessages messages =
     (let parts = map msg_content (filter (\<lambda>m. msg_role m = ''user'' \<and> msg_content m \<noteq> '''') messages)
      in if length parts > 0 then parts ! (length parts - 1) else '''')"

text \<open>The best category so far: its models, its name and its score.\<close>

fun semantic_loop :: "f64 \<Rightarrow> f64 list \<Rightarrow> CategoryPrototype list \<Rightarrow> string list \<times> string \<times> f64 \<Rightarrow>
    string list \<times> string \<times> f64" where
  "semantic_loop threshold vec [] best = best"
| "semantic_loop threshold vec (cat # cats) (models, category, confidence) =
     (let score = CosineSimilarity vec (cp_vector cat)
      in if fle threshold score \<and> flt confidence score
         then semantic_loop threshold vec cats (cp_targetModels cat, cp_name cat, score)
         else semantic_loop threshold vec cats (models, category, confidence))"

definition semantic_Route :: "SemanticRouter \<Rightarrow> StandardRequest \<Rightarrow> (string list \<times> string \<times> f64) go_result" where
  "semantic_Route sr req =
     (case sm_engine sr of
        None \<Rightarrow> Ok ([], '''', fzero)
      | Some emb \<Rightarrow>
          if length (sm_categories sr) = 0 then Ok ([], '''', fzero)
          else
            let text = concatenateUserMessages (req_messages req)
            in if text = '''' then Ok ([], '''', fzero)
               else if sm_maxPromptLength sr > 0 \<and> int (rune_count text) > sm_maxPromptLength sr
               then Ok ([], '''', fzero)
               else (case emb [text] of
                       Panic \<Rightarrow> Panic
                     | Err e \<Rightarrow> Ok ([], '''', fzero)
                     | Ok vecs \<Rightarrow> if length vecs = 0 then Ok ([], '''', fzero)
                         else Ok (semantic_loop (sm_threshold sr) (vecs ! 0) (sm_categories sr)
                                    ([], '''', fzero))))"

lemmas strategy_defs [routing_simps] = matchesRule_def CascadeFor_def NewSemanticRouter_def
  semantic_Route_def

section \<open>Conditions\<close>

text \<open>A word of ASCII characters that are not white space.\<close>

definition word_ok :: "string \<Rightarrow> bool" where
  "word_ok s \<longleftrightarrow> s \<noteq> '''' \<and> (\<forall>c \<in> set s. byte c < 128 \<and> \<not> is_space (byte c))"

lemma fields_from_word:
  "\<forall>c \<in> set s. \<not> is_space (byte c) \<Longrightarrow>
   fields_from (map (\<lambda>c. (byte c, [c])) s @ rs) cur = fields_from rs (cur @ s)"
  by (induction s arbitrary: cur) auto

lemma fields_three:
  assumes "word_ok a" "word_ok b" "word_ok c"
  shows "str_fields (a @ '' '' @ b @ '' '' @ c) = [a, b, c]"
proof -
  let ?r = "map (\<lambda>c. (byte c, [c]))"
  have "runes (a @ '' '' @ b @ '' '' @ c) = ?r a @ (32, '' '') # ?r b @ (32, '' '') # ?r c @ []"
    using assms by (subst runes_ascii) (auto simp: word_ok_def byte_def)
  moreover have "is_space 32" by (simp add: is_space_def)
  ultimately show ?thesis
    using assms unfolding str_fields_def
    by (simp add: fields_from_word word_ok_def del: append_Nil2)
qed

text \<open>The comparison a condition stands for.\<close>

datatype cmp = Gt | Lt | Ge | Le

fun cmp_text :: "cmp \<Rightarrow> string" where
  "cmp_text Gt = ''>''"
| "cmp_text Lt = ''<''"
| "cmp_text Ge = ''>=''"
| "cmp_text Le = ''<=''"

fun cmp_holds :: "cmp \<Rightarrow> int \<Rightarrow> int \<Rightarrow> bool" where
  "cmp_holds Gt t n \<longleftrightarrow> t > n"
| "cmp_holds Lt t n \<longleftrightarrow> t < n"
| "cmp_holds Ge t n \<longleftrightarrow> t \<ge> n"
| "cmp_holds Le t n \<longleftrightarrow> t \<le> n"

lemma word_ok_itoa: "word_ok (itoa n)"
proof -
  have "word_ok (nat_digits k [])" for k
    using nat_digits_chars [of "[]" k] by (fastforce simp: word_ok_def is_space_def)
  then show ?thesis by (auto simp: itoa_def word_ok_def is_space_def byte_def)
qed

lemma word_ok_cmp: "word_ok (cmp_text op)"
  by (cases op) (simp_all add: word_ok_def is_space_def byte_def)

lemma word_ok_input_tokens: "word_ok ''input_tokens''"
  by (simp add: word_ok_def is_space_def byte_def)

lemmas fields_condition = fields_three [OF word_ok_input_tokens word_ok_cmp word_ok_itoa]

text \<open>
  Conditions mean what they say: the condition written as the words input_tokens,
  a comparison and a decimal number compares the estimate with that
  number, for every number that fits 64 bits.
\<close>

theorem condition_means_comparison:
  assumes "in_int64 n"
  shows "evaluateCondition (''input_tokens'' @ '' '' @ cmp_text op @ '' '' @ itoa n) t = cmp_holds op t n"
  unfolding evaluateCondition_def fields_condition using assms
  by (cases op) (simp_all add: atoi_itoa)

theorem condition_means_comparison_witness:
  "evaluateCondition (''input_tokens'' @ '' '' @ cmp_text Ge @ '' '' @ itoa 1000) 1000"
  using condition_means_comparison [of 1000 Ge 1000] by (simp add: in_int64_def min_int64_def max_int64_def)

section \<open>The best category\<close>

text \<open>What a category scores, and whether it may be chosen: it reaches the threshold and is
  more similar than an orthogonal text.\<close>

abbreviation cat_score :: "f64 list \<Rightarrow> CategoryPrototype \<Rightarrow> f64" where
  "cat_score vec cat \<equiv> CosineSimilarity vec (cp_vector cat)"

definition eligible :: "f64 \<Rightarrow> f64 list \<Rightarrow> CategoryPrototype \<Rightarrow> bool" where
  "eligible threshold vec cat \<longleftrightarrow> fle threshold (cat_score vec cat) \<and> flt fzero (cat_score vec cat)"

text \<open>Where the loop's last choice stands among the categories: it beats the score the loop
  started from and all admissible scores before it, and none after it beats it.\<close>

definition chosen_from :: "f64 \<Rightarrow> f64 list \<Rightarrow> f64 \<Rightarrow> CategoryPrototype list \<Rightarrow> CategoryPrototype list \<Rightarrow>
    CategoryPrototype \<Rightarrow> CategoryPrototype list \<Rightarrow> bool" where
  "chosen_from thr vec s0 cats pre c post \<longleftrightarrow> cats = pre @ c # post \<and> fle thr (cat_score vec c) \<and> flt s0 (cat_score vec c) \<and>
     (\<forall>d \<in> set pre. fle thr (cat_score vec d) \<longrightarrow> flt (cat_score vec d) (cat_score vec c)) \<and>
     (\<forall>d \<in> set post. fle thr (cat_score vec d) \<longrightarrow> \<not> flt (cat_score vec c) (cat_score vec d))"

lemma chosen_from_raised:
  assumes "chosen_from thr vec (cat_score vec cat) cats pre c post" and "flt s0 (cat_score vec cat)"
  shows "chosen_from thr vec s0 (cat # cats) (cat # pre) c post"
  using assms flt_trans unfolding chosen_from_def by auto

lemma chosen_from_passed:
  assumes "chosen_from thr vec s0 cats pre c post" and "s0 \<noteq> NaN"
    and "\<not> (fle thr (cat_score vec cat) \<and> flt s0 (cat_score vec cat))"
  shows "chosen_from thr vec s0 (cat # cats) (cat # pre) c post"
proof -
  have "flt (cat_score vec cat) (cat_score vec c)" if "fle thr (cat_score vec cat)"
  proof -
    have "cat_score vec cat \<noteq> NaN" using that by auto
    moreover have "\<not> flt s0 (cat_score vec cat)" using that assms(3) by simp
    ultimately show ?thesis using assms(1,2) by (auto simp: chosen_from_def flt_ford)
  qed
  then show ?thesis using assms(1) by (auto simp: chosen_from_def)
qed

lemma semantic_loop_best:
  assumes "semantic_loop thr vec cats (m0, n0, s0) = (models, category, conf)" and "s0 \<noteq> NaN"
  shows "(models, category, conf) = (m0, n0, s0) \<and>
           (\<forall>d \<in> set cats. fle thr (cat_score vec d) \<longrightarrow> \<not> flt s0 (cat_score vec d)) \<or>
         (\<exists>pre c post. (models, category, conf) = (cp_targetModels c, cp_name c, cat_score vec c) \<and>
            chosen_from thr vec s0 cats pre c post)"
  using assms
proof (induction cats arbitrary: m0 n0 s0)
  case Nil
  then show ?case by simp
next
  case (Cons cat cats)
  let ?s = "cat_score vec cat"
  show ?case
  proof (cases "fle thr ?s \<and> flt s0 ?s")
    case True
    then have nn: "?s \<noteq> NaN" by auto
    have "semantic_loop thr vec cats (cp_targetModels cat, cp_name cat, ?s) = (models, category, conf)"
      using Cons.prems(1) True by simp
    from Cons.IH [OF this nn] show ?thesis
    proof (elim disjE)
      assume "(models, category, conf) = (cp_targetModels cat, cp_name cat, ?s) \<and>
          (\<forall>d \<in> set cats. fle thr (cat_score vec d) \<longrightarrow> \<not> flt ?s (cat_score vec d))"
      then show ?thesis using True
        by (intro disjI2 exI [of _ "[]"] exI [of _ cat] exI [of _ cats]) (simp add: chosen_from_def)
    qed (use True chosen_from_raised in blast)
  next
    case False
    then have "semantic_loop thr vec cats (m0, n0, s0) = (models, category, conf)"
      using Cons.prems(1) by (simp add: Let_def split: if_splits)
    from Cons.IH [OF this Cons.prems(2)] show ?thesis
      using False chosen_from_passed [OF _ Cons.prems(2) False] by (metis set_ConsD)
  qed
qed

text \<open>
  C35. The semantic router answers with the most similar eligible category, the first of them
  when several are equally similar, and with no model when none is eligible. This holds for
  the scores as the binary64 arithmetic yields them, whatever the order of the categories.
\<close>

theorem semantic_route_picks_best:
  assumes "sm_engine sr = Some emb" and "concatenateUserMessages (req_messages req) = text"
    and "text \<noteq> ''''" and "sm_maxPromptLength sr > 0 \<longrightarrow> int (rune_count text) \<le> sm_maxPromptLength sr"
    and "emb [text] = Ok (vec # vecs)"
    and "semantic_Route sr req = Ok (models, category, conf)"
  shows "if \<exists>c \<in> set (sm_categories sr). eligible (sm_threshold sr) vec c
         then \<exists>pre c post. sm_categories sr = pre @ c # post \<and> eligible (sm_threshold sr) vec c \<and>
                (models, category, conf) = (cp_targetModels c, cp_name c, cat_score vec c) \<and>
                (\<forall>d \<in> set pre. eligible (sm_threshold sr) vec d \<longrightarrow> flt (cat_score vec d) conf) \<and>
                (\<forall>d \<in> set post. eligible (sm_threshold sr) vec d \<longrightarrow> \<not> flt conf (cat_score vec d))
         else (models, category, conf) = ([], '''', fzero)"
proof (cases "sm_categories sr = []")
  case True
  then show ?thesis using assms(1,6) by (simp add: semantic_Route_def)
next
  case False
  have "semantic_loop (sm_threshold sr) vec (sm_categories sr) ([], '''', fzero) = (models, category, conf)"
    using assms False by (auto simp: semantic_Route_def Let_def split: if_splits)
  then consider "(models, category, conf) = ([], '''', fzero)" "\<forall>d \<in> set (sm_categories sr). \<not> eligible (sm_threshold sr) vec d"
    | pre c post where "(models, category, conf) = (cp_targetModels c, cp_name c, cat_score vec c)"
        "chosen_from (sm_threshold sr) vec fzero (sm_categories sr) pre c post"
    using semantic_loop_best [of "sm_threshold sr" vec "sm_categories sr" "[]" "''''" fzero models category conf]
    unfolding eligible_def by auto
  then show ?thesis
  proof cases
    case (2 pre c post)
    moreover from this have "\<exists>c \<in> set (sm_categories sr). eligible (sm_threshold sr) vec c"
      by (auto simp: chosen_from_def eligible_def)
    ultimately show ?thesis
      by (simp only: if_True) (intro exI [of _ pre] exI [of _ c] exI [of _ post], simp add: chosen_from_def eligible_def)
  qed auto
qed

definition demo_semantic :: SemanticRouter where
  "demo_semantic = \<lparr>sm_categories =
      [\<lparr>cp_name = ''chat'', cp_targetModels = [''m0''], cp_vector = [fzero, f64_of_int 1]\<rparr>,
       \<lparr>cp_name = ''code'', cp_targetModels = [''m1''], cp_vector = [f64_of_int 1, fzero]\<rparr>],
     sm_threshold = f64_round False 3 4 0, sm_maxPromptLength = 0,
     sm_engine = Some (\<lambda>_. Ok [[f64_of_int 1, fzero]])\<rparr>"

definition demo_request :: StandardRequest where
  "demo_request = \<lparr>req_id = ''r'', req_model = ''m9'',
     req_messages = [\<lparr>msg_role = ''user'', msg_content = ''hi''\<rparr>], req_stream = False,
     req_temperature = None, req_maxTokens = None, req_taskType = '''', req_metadata = Map.empty\<rparr>"

lemma demo_text: "concatenateUserMessages (req_messages demo_request) = ''hi''"
  by (simp add: concatenateUserMessages_def demo_request_def)

lemma demo_semantic_Route:
  "semantic_Route demo_semantic demo_request = Ok ([''m1''], ''code'', f64_of_int 1)"
  unfolding semantic_Route_def demo_text
  by (simp add: demo_semantic_def demo_cosines demo_compare Let_def)

theorem semantic_route_picks_best_witness:
  "\<exists>pre c post. sm_categories demo_semantic = pre @ c # post \<and> [''m1''] = cp_targetModels c \<and>
      (\<forall>d \<in> set pre. eligible (sm_threshold demo_semantic) [f64_of_int 1, fzero] d \<longrightarrow>
         flt (cat_score [f64_of_int 1, fzero] d) (f64_of_int 1))"
proof -
  let ?v = "[f64_of_int 1, fzero]"
  have el: "\<exists>c \<in> set (sm_categories demo_semantic). eligible (sm_threshold demo_semantic) ?v c"
    by (simp add: demo_semantic_def eligible_def demo_cosines demo_compare)
  from semantic_route_picks_best [OF _ demo_text, of demo_semantic "\<lambda>_. Ok [?v]" ?v "[]",
      OF _ _ _ _ demo_semantic_Route] this
  show ?thesis by (auto simp: demo_semantic_def)
qed

section \<open>Building the prototypes\<close>

lemma sum_vectors_ok:
  "\<forall>v \<in> set vs. length v = length p \<Longrightarrow> \<exists>q. sum_vectors p vs = Ok q \<and> length q = length p"
proof (induction vs arbitrary: p)
  case Nil
  then show ?case by simp
next
  case (Cons v vs)
  then have "add_vector p v = Ok (map2 fadd p v)" by (simp add: add_vector_def)
  then show ?case using Cons.IH [of "map2 fadd p v"] Cons.prems by simp
qed

definition with_exemplars :: "SemanticCategoryConfig list \<Rightarrow> SemanticCategoryConfig list" where
  "with_exemplars cats = filter (\<lambda>c. ct_exemplars c \<noteq> []) cats"

lemma category_loop_ok:
  assumes emb: "\<And>texts. \<exists>vs. emb texts = Ok vs \<and> length vs = length texts \<and> (\<forall>v \<in> set vs. length v = dm)"
    and "\<forall>c \<in> set acc. length (cp_vector c) = dm"
  shows "\<exists>cs. category_loop emb cats acc = Ok (acc @ cs) \<and>
           map (\<lambda>c. (cp_name c, cp_targetModels c)) cs = map (\<lambda>c. (ct_name c, ct_targetModels c)) (with_exemplars cats) \<and>
           (\<forall>c \<in> set cs. length (cp_vector c) = dm)"
  using assms(2)
proof (induction cats arbitrary: acc)
  case Nil
  then show ?case by (simp add: with_exemplars_def)
next
  case (Cons cat cats)
  obtain vs where vs: "emb (ct_exemplars cat) = Ok vs" "length vs = length (ct_exemplars cat)"
      "\<forall>v \<in> set vs. length v = dm"
    using emb by blast
  show ?case
  proof (cases "ct_exemplars cat = []")
    case True
    then show ?thesis using Cons.IH [OF Cons.prems] vs by (simp add: with_exemplars_def)
  next
    case False
    then have "vs \<noteq> []" using vs(2) by auto
    then have "length (vs ! 0) = dm" using vs(3) by simp
    moreover obtain q where q: "sum_vectors (replicate dm fzero) vs = Ok q" "length q = dm"
      using sum_vectors_ok [of vs "replicate dm fzero"] vs(3) by auto
    let ?c = "\<lparr>cp_name = ct_name cat, cp_targetModels = ct_targetModels cat,
       cp_vector = NormalizeVector (map (\<lambda>x. fdiv x (f64_of_int (int (length vs)))) q)\<rparr>"
    have "\<forall>c \<in> set (acc @ [?c]). length (cp_vector c) = dm" using Cons.prems q by auto
    from Cons.IH [OF this] obtain cs where "category_loop emb cats (acc @ [?c]) = Ok (acc @ ?c # cs)"
      "map (\<lambda>c. (cp_name c, cp_targetModels c)) cs = map (\<lambda>c. (ct_name c, ct_targetModels c)) (with_exemplars cats)"
      "\<forall>c \<in> set cs. length (cp_vector c) = dm" by auto
    ultimately show ?thesis using vs q False \<open>vs \<noteq> []\<close>
      by (intro exI [of _ "?c # cs"]) (simp add: with_exemplars_def Let_def)
  qed
qed

text \<open>
  With an engine that yields one vector of a fixed dimension per text, the semantic router
  is built without a panic: it has a prototype for each configured category that has
  exemplars, in their order, each of that dimension and with that category's target models.
\<close>

theorem semantic_router_has_prototypes:
  assumes "\<And>texts. \<exists>vs. emb texts = Ok vs \<and> length vs = length texts \<and> (\<forall>v \<in> set vs. length v = dm)"
  shows "\<exists>sr. NewSemanticRouter cfg (Some emb) = Ok sr \<and>
           map (\<lambda>c. (cp_name c, cp_targetModels c)) (sm_categories sr) =
             map (\<lambda>c. (ct_name c, ct_targetModels c)) (with_exemplars (sr_categories cfg)) \<and>
           (\<forall>c \<in> set (sm_categories sr). length (cp_vector c) = dm)"
  using category_loop_ok [OF assms, of "[]" "sr_categories cfg"]
  by (auto simp: NewSemanticRouter_def Let_def with_exemplars_def)

theorem semantic_router_has_prototypes_witness:
  "\<exists>sr. NewSemanticRouter \<lparr>sr_threshold = fzero, sr_maxPromptLength = 0, sr_categories =
       [\<lparr>ct_name = ''a'', ct_targetModels = [''m''], ct_exemplars = [''x'', ''y'']\<rparr>]\<rparr>
     (Some (\<lambda>texts. Ok (map (\<lambda>_. [fzero]) texts))) = Ok sr \<and> map cp_name (sm_categories sr) = [''a'']"
  using semantic_router_has_prototypes [of "\<lambda>texts. Ok (map (\<lambda>_. [fzero]) texts)" 1
      "\<lparr>sr_threshold = fzero, sr_maxPromptLength = 0, sr_categories =
         [\<lparr>ct_name = ''a'', ct_targetModels = [''m''], ct_exemplars = [''x'', ''y'']\<rparr>]\<rparr>"]
  by (auto simp: with_exemplars_def)

end
