(* ===== verification/Swrr_Spec.thy ===== *)
theory Swrr_Spec
  imports Main
begin

text \<open>
  Smooth weighted round-robin on integer weights: the specification that the design gives
  in prose. In a round every current weight grows by its weight, the first largest is
  picked, and the picked one gives back the total. The theory proves that a full period of
  rounds picks every index exactly as often as its weight says and returns to the start.
\<close>

fun first_max_from :: "int list \<Rightarrow> nat \<Rightarrow> nat \<Rightarrow> int \<Rightarrow> nat" where
  "first_max_from [] i bi bw = bi"
| "first_max_from (x # xs) i bi bw =
     (if bw < x then first_max_from xs (Suc i) i x else first_max_from xs (Suc i) bi bw)"

definition first_max :: "int list \<Rightarrow> nat" where
  "first_max xs = (case xs of [] \<Rightarrow> 0 | x # xs \<Rightarrow> first_max_from xs 1 0 x)"

definition swrr_step :: "int list \<Rightarrow> int list \<Rightarrow> nat \<times> int list" where
  "swrr_step ws cw =
     (let cw = map2 (+) cw ws; i = first_max cw in (i, cw[i := cw ! i - sum_list ws]))"

fun swrr_run :: "nat \<Rightarrow> int list \<Rightarrow> int list \<Rightarrow> nat list \<times> int list" where
  "swrr_run 0 ws cw = ([], cw)"
| "swrr_run (Suc k) ws cw =
     (let (i, cw) = swrr_step ws cw; (is, cw) = swrr_run k ws cw in (i # is, cw))"

section \<open>The first maximum\<close>

lemma first_max_from_bounds:
  "first_max_from xs i bi bw = bi \<or>
   i \<le> first_max_from xs i bi bw \<and> first_max_from xs i bi bw < i + length xs"
  by (induction xs i bi bw rule: first_max_from.induct) (fastforce+)

text \<open>With the best so far at an earlier index of the whole list, the result is its first maximum.\<close>

lemma first_max_from_max:
  assumes "drop i ys = xs" and "i \<le> length ys" and "bi < i" and "ys ! bi = bw"
    and "\<forall>j < i. ys ! j \<le> bw" and "\<forall>j < bi. ys ! j < bw"
  shows "first_max_from xs i bi bw < length ys
    \<and> (\<forall>j < length ys. ys ! j \<le> ys ! first_max_from xs i bi bw)
    \<and> (\<forall>j < first_max_from xs i bi bw. ys ! j < ys ! first_max_from xs i bi bw)"
  using assms
proof (induction xs i bi bw rule: first_max_from.induct)
  case (1 i bi bw)
  then show ?case by simp
next
  case (2 x xs i bi bw)
  have i: "i < length ys" using "2.prems"(1) by (metis drop_all list.distinct(1) not_less)
  then have x: "ys ! i = x" "drop (Suc i) ys = xs"
    using "2.prems"(1) by (metis Cons_nth_drop_Suc list.inject)+
  show ?case
  proof (cases "bw < x")
    case True
    have "\<forall>j < i. ys ! j < x" "\<forall>j < i. ys ! j \<le> x" using True "2.prems"(5) by force+
    then show ?thesis using "2.IH"(1) [OF True] True i x by (auto simp: less_Suc_eq)
  next
    case False
    then show ?thesis using "2.IH"(2) "2.prems" i x by (auto simp: less_Suc_eq)
  qed
qed

lemma first_max_props:
  assumes "xs \<noteq> []"
  shows "first_max xs < length xs" and "j < length xs \<Longrightarrow> xs ! j \<le> xs ! first_max xs"
    and "j < first_max xs \<Longrightarrow> xs ! j < xs ! first_max xs"
proof -
  obtain y ys where xs: "xs = y # ys" using assms by (cases xs) auto
  have "first_max xs < length xs \<and> (\<forall>j < length xs. xs ! j \<le> xs ! first_max xs)
      \<and> (\<forall>j < first_max xs. xs ! j < xs ! first_max xs)"
    unfolding first_max_def xs list.case
    by (rule first_max_from_max) simp_all
  then show "first_max xs < length xs" and "j < length xs \<Longrightarrow> xs ! j \<le> xs ! first_max xs"
    and "j < first_max xs \<Longrightarrow> xs ! j < xs ! first_max xs" by simp_all
qed

section \<open>The invariant of the rounds\<close>

text \<open>
  The current weights sum to zero and none falls to minus the total: the largest of numbers
  that sum to the total is positive.
\<close>

definition swrr_inv :: "int list \<Rightarrow> int list \<Rightarrow> bool" where
  "swrr_inv ws cw \<longleftrightarrow> length cw = length ws \<and> sum_list cw = 0 \<and>
     (\<forall>c \<in> set cw. - sum_list ws < c)"

definition weights_ok :: "int list \<Rightarrow> bool" where
  "weights_ok ws \<longleftrightarrow> (\<forall>w \<in> set ws. 0 \<le> w) \<and> 0 < sum_list ws"

lemma weights_ok_nonempty: "weights_ok ws \<Longrightarrow> ws \<noteq> []"
  by (auto simp: weights_ok_def)

lemma swrr_inv_start: "weights_ok ws \<Longrightarrow> swrr_inv ws (replicate (length ws) 0)"
  by (auto simp: swrr_inv_def weights_ok_def sum_list_replicate)

lemma sum_list_map2_add:
  "length xs = length ys \<Longrightarrow> sum_list (map2 (+) xs ys) = sum_list xs + (sum_list ys :: int)"
  by (induction xs ys rule: list_induct2) auto

lemma sum_list_update_int:
  "i < length xs \<Longrightarrow> sum_list (xs[i := x]) = sum_list xs - xs ! i + (x :: int)"
  by (induction xs arbitrary: i) (auto split: nat.split)

lemma sum_list_pos_ex_max:
  assumes "0 < sum_list xs" shows "\<exists>x \<in> set xs. 0 < (x :: int)"
proof (rule ccontr)
  assume "\<not> ?thesis"
  then have "sum_list xs \<le> 0" by (intro sum_list_nonpos) auto
  with assms show False by simp
qed

lemma swrr_step_facts:
  assumes "weights_ok ws" and "swrr_inv ws cw" and "swrr_step ws cw = (i, cw')"
  shows "i < length ws" and "swrr_inv ws cw'"
    and "j < length ws \<Longrightarrow> cw' ! j = cw ! j + ws ! j - (if i = j then sum_list ws else 0)"
proof -
  let ?up = "map2 (+) cw ws" and ?W = "sum_list ws"
  have len: "length cw = length ws" and zero: "sum_list cw = 0" and low: "\<forall>c \<in> set cw. - ?W < c"
    using assms(2) by (simp_all add: swrr_inv_def)
  have ne: "?up \<noteq> []" using len weights_ok_nonempty [OF assms(1)] by auto
  have i: "i = first_max ?up" and cw': "cw' = ?up[i := ?up ! i - ?W]"
    using assms(3) by (auto simp: swrr_step_def Let_def)
  show il: "i < length ws" using first_max_props(1) [OF ne] len by (simp add: i)
  show val: "cw' ! j = cw ! j + ws ! j - (if i = j then ?W else 0)" if "j < length ws" for j
    using that il len by (simp add: cw' nth_list_update)
  have total: "sum_list ?up = ?W" using len zero by (simp add: sum_list_map2_add)
  have "0 < ?up ! i"
  proof -
    have "\<exists>x \<in> set ?up. 0 < x"
      using sum_list_pos_ex_max [of ?up] assms(1) by (simp add: total weights_ok_def)
    then obtain k where "k < length ?up" "0 < ?up ! k" by (metis in_set_conv_nth)
    then show ?thesis using first_max_props(2) [OF ne, of k] unfolding i by linarith
  qed
  then have "- ?W < cw' ! j" if "j < length ws" for j
  proof (cases "i = j")
    case True
    then show ?thesis using \<open>0 < ?up ! i\<close> val [OF that] that len by simp
  next
    case False
    have "- ?W < cw ! j" "0 \<le> ws ! j"
      using low assms(1) that len by (simp_all add: weights_ok_def)
    then show ?thesis using False val [OF that] by simp
  qed
  then have "\<forall>c \<in> set cw'. - ?W < c"
    using len by (auto simp: cw' in_set_conv_nth)
  moreover have "sum_list cw' = 0"
    using il len total by (simp add: cw' sum_list_update_int)
  ultimately show "swrr_inv ws cw'" using len by (simp add: swrr_inv_def cw')
qed

text \<open>An upper bound follows from the sum and the lower bound.\<close>

lemma swrr_inv_upper:
  assumes "weights_ok ws" and "swrr_inv ws cw" and "c \<in> set cw"
  shows "c \<le> (int (length ws) - 1) * sum_list ws"
proof -
  have len: "length cw = length ws" and zero: "sum_list cw = 0" and low: "\<forall>c \<in> set cw. - sum_list ws < c"
    using assms(2) by (simp_all add: swrr_inv_def)
  obtain xs ys where cw: "cw = xs @ c # ys" using assms(3) by (meson split_list)
  have "sum_list (map (\<lambda>_. - sum_list ws) (xs @ ys)) \<le> sum_list (xs @ ys)"
    using low cw sum_list_mono [of "xs @ ys" "\<lambda>_. - sum_list ws" id] by (force simp: less_imp_le)
  then have "- (int (length (xs @ ys)) * sum_list ws) \<le> sum_list (xs @ ys)"
    by (simp add: sum_list_triv algebra_simps)
  moreover have "int (length (xs @ ys)) = int (length ws) - 1" using len cw by simp
  ultimately show ?thesis using zero cw by simp
qed

section \<open>A full period\<close>

lemma swrr_run_facts:
  assumes "weights_ok ws" and "swrr_inv ws cw" and "swrr_run k ws cw = (is, cw')"
  shows "swrr_inv ws cw' \<and> length is = k \<and> set is \<subseteq> {..<length ws} \<and>
    (\<forall>j < length ws. cw' ! j = cw ! j + int k * ws ! j - int (count_list is j) * sum_list ws)"
  using assms(2,3)
proof (induction k arbitrary: cw "is")
  case 0
  then show ?case by simp
next
  case (Suc k)
  obtain i cw1 where step: "swrr_step ws cw = (i, cw1)" by fastforce
  obtain is1 where run: "swrr_run k ws cw1 = (is1, cw')" and "is": "is = i # is1"
    using Suc.prems(2) by (auto simp: step split: prod.splits)
  note s = swrr_step_facts [OF assms(1) Suc.prems(1) step]
  from Suc.IH [OF s(2) run] s(1,3) show ?case
    by (auto simp: "is" algebra_simps)
qed

lemma swrr_period:
  assumes "weights_ok ws" and run: "swrr_run (nat (sum_list ws)) ws (replicate (length ws) 0) = (is, cw')"
  shows "(\<forall>i < length ws. int (count_list is i) = ws ! i) \<and> cw' = replicate (length ws) 0"
proof -
  let ?W = "sum_list ws" and ?n = "length ws"
  have W: "0 < ?W" using assms(1) by (simp add: weights_ok_def)
  note f = swrr_run_facts [OF assms(1) swrr_inv_start [OF assms(1)] run]
  have val: "cw' ! j = ?W * (ws ! j - int (count_list is j))" if "j < ?n" for j
    using f that W by (simp add: algebra_simps)
  have le: "int (count_list is j) \<le> ws ! j" if "j < ?n" for j
  proof -
    have "- ?W < cw' ! j" using nth_mem [of j cw'] f that by (simp only: swrr_inv_def)
    then have "?W * (- 1) < ?W * (ws ! j - int (count_list is j))" using val [OF that] by simp
    then have "- 1 < ws ! j - int (count_list is j)" using W by (simp only: mult_less_cancel_left_pos)
    then show ?thesis by simp
  qed
  have "(\<Sum>j<?n. int (count_list is j)) = ?W"
    using f W sum_count_set [of "is" "{..<?n}"] by (simp flip: of_nat_sum)
  also have "?W = (\<Sum>j<?n. ws ! j)" by (simp add: sum_list_sum_nth atLeast0LessThan)
  finally have eq: "int (count_list is j) = ws ! j" if "j < ?n" for j
    using that le by (intro sum_mono_inv [where I = "{..<?n}" and f = "\<lambda>j. int (count_list is j)"]) auto
  moreover have "cw' = replicate ?n 0"
    using f val eq by (intro nth_equalityI) (auto simp: swrr_inv_def)
  ultimately show ?thesis by simp
qed

end
