(* ===== verification/Router.thy ===== *)
theory Router
  imports Strategies Balancer
begin

text \<open>
  The router of \<^verbatim>\<open>internal/decision/router.go\<close>: it tries its strategies in order,
  takes the first model that some provider serves, and lets the balancer choose among the
  providers. The balancer is the only part of it that a call changes. The functions that
  find the providers of a model and weigh them are supplied by the caller; the locale
  \<open>router_env\<close> states what the router needs of them.
\<close>

section \<open>The code\<close>

record RouteDecision =
  rd_provider :: string
  rd_model :: string
  rd_strategy :: string

definition zero_decision :: RouteDecision where
  "zero_decision = \<lparr>rd_provider = '''', rd_model = '''', rd_strategy = ''''\<rparr>"

text \<open>The router; a field whose pointer or function may be nil is an option.\<close>

record 'w Router =
  rt_strategies :: "string list"
  rt_defaultCascade :: "string list"
  rt_balancer :: "Balancer option"
  rt_semantic :: "SemanticRouter option"
  rt_capability :: "RoutingRuleConfig list option"
  rt_cost :: "(string \<rightharpoonup> string list) option"
  rt_modelProviders :: "string \<Rightarrow> 'w Provider list"
  rt_buildCandidates :: "('w Provider list \<Rightarrow> string \<Rightarrow> ProviderCandidate list) option"

definition NewRouter :: "string list \<Rightarrow> string list \<Rightarrow> Balancer option \<Rightarrow> SemanticRouter option \<Rightarrow>
    RoutingRuleConfig list option \<Rightarrow> (string \<rightharpoonup> string list) option \<Rightarrow> (string \<Rightarrow> 'w Provider list) \<Rightarrow>
    ('w Provider list \<Rightarrow> string \<Rightarrow> ProviderCandidate list) option \<Rightarrow> 'w Router" where
  "NewRouter strategies cascade balancer semantic capability cost providers build =
     \<lparr>rt_strategies = strategies, rt_defaultCascade = cascade, rt_balancer = balancer,
      rt_semantic = semantic, rt_capability = capability, rt_cost = cost,
      rt_modelProviders = providers, rt_buildCandidates = build\<rparr>"

definition estimateInputTokens :: "Message list \<Rightarrow> int" where
  "estimateInputTokens messages =
     (let totalChars = foldl (\<lambda>n m. n + int (length (msg_content m))) 0 messages
      in if totalChars > 0 then totalChars div 4 else 0)"

definition balanced_choice :: "'w Provider list \<Rightarrow> string \<Rightarrow> 'w Router \<Rightarrow> string option \<times> 'w Router" where
  "balanced_choice providers model r =
     (case (rt_balancer r, rt_buildCandidates r) of
        (Some b, Some build) \<Rightarrow>
          let candidates = build providers model in
          if length candidates > 0
          then let (selected, b) = bal_Select candidates b; r = r\<lparr>rt_balancer := Some b\<rparr>
               in if pc_name selected \<noteq> '''' then (Some (pc_name selected), r) else (None, r)
          else (None, r)
      | _ \<Rightarrow> (None, r))"

definition resolveWithBalancer :: "'w Provider list \<Rightarrow> string \<Rightarrow> string \<Rightarrow> 'w Router \<Rightarrow>
    RouteDecision option \<times> 'w Router" where
  "resolveWithBalancer providers model strategy r =
     (case balanced_choice providers model r of
        (Some name, r) \<Rightarrow> (Some \<lparr>rd_provider = name, rd_model = model, rd_strategy = strategy\<rparr>, r)
      | (None, r) \<Rightarrow>
          if length providers > 0
          then (Some \<lparr>rd_provider = pv_name (providers ! 0), rd_model = model, rd_strategy = strategy\<rparr>, r)
          else (None, r))"

fun resolveModelList :: "string list \<Rightarrow> string \<Rightarrow> 'w Router \<Rightarrow> RouteDecision option \<times> 'w Router" where
  "resolveModelList [] strategy r = (None, r)"
| "resolveModelList (m # ms) strategy r =
     (let providers = rt_modelProviders r m in
      if length providers = 0 then resolveModelList ms strategy r
      else case resolveWithBalancer providers m strategy r of
             (Some dec, r) \<Rightarrow> (Some dec, r)
           | (None, r) \<Rightarrow> resolveModelList ms strategy r)"

text \<open>The models that a strategy proposes for a request, in the switch of the main loop.\<close>

definition strategy_models :: "string \<Rightarrow> StandardRequest \<Rightarrow> 'w Router \<Rightarrow> string list go_result" where
  "strategy_models strategy req r =
     (if strategy = ''explicit'' then Ok []
      else if strategy = ''semantic'' then
        (case rt_semantic r of None \<Rightarrow> Ok []
         | Some sr \<Rightarrow> go_bind (semantic_Route sr req) (\<lambda>(models, _, _). Ok models))
      else if strategy = ''capability'' then
        (case rt_capability r of None \<Rightarrow> Ok []
         | Some rules \<Rightarrow> Ok (capability_Route rules req (estimateInputTokens (req_messages req))))
      else if strategy = ''cost_cascade'' then
        (case rt_cost r of None \<Rightarrow> Ok []
         | Some chainMap \<Rightarrow> let chain = CascadeFor chainMap (req_model req)
                          in Ok (if length chain = 0 then rt_defaultCascade r else chain))
      else Ok [])"

fun route_strategies :: "string list \<Rightarrow> StandardRequest \<Rightarrow> 'w Router \<Rightarrow>
    RouteDecision option go_result \<times> 'w Router" where
  "route_strategies [] req r = (Ok None, r)"
| "route_strategies (strategy # rest) req r =
     (case strategy_models strategy req r of
        Panic \<Rightarrow> (Panic, r)
      | Err e \<Rightarrow> (Err e, r)
      | Ok models \<Rightarrow>
          (case resolveModelList models strategy r of
             (Some dec, r) \<Rightarrow> (Ok (Some dec), r)
           | (None, r) \<Rightarrow> route_strategies rest req r))"

text \<open>What follows the loop: the default cascade, then the requested model itself.\<close>

definition route_default :: "StandardRequest \<Rightarrow> 'w Router \<Rightarrow> RouteDecision go_result \<times> 'w Router" where
  "route_default req r =
     (case (if length (rt_defaultCascade r) > 0
            then resolveModelList (rt_defaultCascade r) ''default'' r else (None, r)) of
        (Some dec, r) \<Rightarrow> (Ok dec, r)
      | (None, r) \<Rightarrow>
          (case (if req_model req \<noteq> ''''
                 then resolveWithBalancer (rt_modelProviders r (req_model req)) (req_model req) ''default'' r
                 else (None, r)) of
             (Some dec, r) \<Rightarrow> (Ok dec, r)
           | (None, r) \<Rightarrow> (Err (new_error ErrCodeModelNotFound ''no route matched''), r)))"

definition router_Route :: "StandardRequest \<Rightarrow> 'w Router \<Rightarrow> RouteDecision go_result \<times> 'w Router" where
  "router_Route req r =
     (if str_contains (req_model req) ''/'' then
        let (provider, model) = split_first (CHR ''/'') (req_model req)
        in (Ok \<lparr>rd_provider = provider, rd_model = model, rd_strategy = ''explicit''\<rparr>, r)
      else case route_strategies (rt_strategies r) req r of
             (Ok (Some dec), r) \<Rightarrow> (Ok dec, r)
           | (Ok None, r) \<Rightarrow> route_default req r
           | (Err e, r) \<Rightarrow> (Err e, r)
           | (Panic, r) \<Rightarrow> (Panic, r))"

section \<open>Explicit routes\<close>

lemma explicit_route:
  assumes "CHR ''/'' \<notin> set p" and "req_model req = p @ ''/'' @ m"
  shows "router_Route req r = (Ok \<lparr>rd_provider = p, rd_model = m, rd_strategy = ''explicit''\<rparr>, r)"
  using assms
  by (simp add: router_Route_def str_contains_char split_first_append)

text \<open>
  A requested model that names its provider is routed there and nowhere else: the text
  before the first slash is the provider, all that follows is the model, and neither the
  strategies nor the balancer are consulted.
\<close>

theorem explicit_model_routes_to_its_provider:
  assumes "CHR ''/'' \<notin> set p" and "req_model req = p @ ''/'' @ m"
  shows "router_Route req r = (Ok \<lparr>rd_provider = p, rd_model = m, rd_strategy = ''explicit''\<rparr>, r)"
  using assms by (rule explicit_route)

theorem explicit_model_routes_to_its_provider_witness:
  "fst (router_Route (demo_request\<lparr>req_model := ''openai/meta/llama''\<rparr>)
       (NewRouter [''semantic''] [''x''] None None None None (\<lambda>_. []) None)) =
     Ok \<lparr>rd_provider = ''openai'', rd_model = ''meta/llama'', rd_strategy = ''explicit''\<rparr>"
  by (subst explicit_model_routes_to_its_provider [of "''openai''" _ "''meta/llama''"])
    (simp_all add: demo_request_def)

section \<open>What the router decides, apart from the balancing\<close>

text \<open>
  The specification: the pairs of a strategy and a model that the router would try, in
  order. The first pair whose model some provider serves is the decision.
\<close>

definition proposals :: "string \<Rightarrow> StandardRequest \<Rightarrow> 'w Router \<Rightarrow> (string \<times> string) list" where
  "proposals strategy req r =
     (case strategy_models strategy req r of Ok models \<Rightarrow> map (Pair strategy) models | _ \<Rightarrow> [])"

definition route_options :: "StandardRequest \<Rightarrow> 'w Router \<Rightarrow> (string \<times> string) list" where
  "route_options req r =
     concat (map (\<lambda>s. proposals s req r) (rt_strategies r)) @
     map (Pair ''default'') (rt_defaultCascade r) @
     (if req_model req = '''' then [] else [(''default'', req_model req)])"

text \<open>
  A strategy may panic. What is tried then are the proposals of the strategies before the
  first that does, and nothing else.
\<close>

definition calm_strategies :: "StandardRequest \<Rightarrow> 'w Router \<Rightarrow> string list" where
  "calm_strategies req r = takeWhile (\<lambda>s. strategy_models s req r \<noteq> Panic) (rt_strategies r)"

definition tried_options :: "StandardRequest \<Rightarrow> 'w Router \<Rightarrow> (string \<times> string) list" where
  "tried_options req r =
     concat (map (\<lambda>s. proposals s req r) (calm_strategies req r)) @
     (if calm_strategies req r = rt_strategies r
      then map (Pair ''default'') (rt_defaultCascade r) @
        (if req_model req = '''' then [] else [(''default'', req_model req)])
      else [])"

lemma calm_all:
  "\<forall>s \<in> set (rt_strategies r). strategy_models s req r \<noteq> Panic \<Longrightarrow> calm_strategies req r = rt_strategies r"
  by (simp add: calm_strategies_def takeWhile_eq_all_conv)

lemma tried_all:
  "\<forall>s \<in> set (rt_strategies r). strategy_models s req r \<noteq> Panic \<Longrightarrow> tried_options req r = route_options req r"
  by (simp add: tried_options_def route_options_def calm_all)

definition served :: "'w Router \<Rightarrow> string \<times> string \<Rightarrow> bool" where
  "served r sm \<longleftrightarrow> rt_modelProviders r (snd sm) \<noteq> []"

lemma find_append: "List.find P (xs @ ys) = (case List.find P xs of None \<Rightarrow> List.find P ys | Some x \<Rightarrow> Some x)"
  by (induction xs) auto

text \<open>Two routers that differ in the state of the balancer only.\<close>

definition same_setup :: "'w Router \<Rightarrow> 'w Router \<Rightarrow> bool" where
  "same_setup r r' \<longleftrightarrow> r'\<lparr>rt_balancer := None\<rparr> = r\<lparr>rt_balancer := None\<rparr>"

lemma same_setup_refl [simp]: "same_setup r r"
  by (simp add: same_setup_def)

lemma same_setup_trans: "same_setup r s \<Longrightarrow> same_setup s t \<Longrightarrow> same_setup r t"
  by (simp add: same_setup_def)

lemma same_setup_fields:
  assumes "same_setup r r'"
  shows "rt_strategies r' = rt_strategies r" "rt_defaultCascade r' = rt_defaultCascade r"
    "rt_semantic r' = rt_semantic r" "rt_capability r' = rt_capability r" "rt_cost r' = rt_cost r"
    "rt_modelProviders r' = rt_modelProviders r" "rt_buildCandidates r' = rt_buildCandidates r"
  using assms by (cases r; cases r'; simp add: same_setup_def)+

lemma same_setup_models: "same_setup r r' \<Longrightarrow> strategy_models s req r' = strategy_models s req r"
  by (simp add: strategy_models_def same_setup_fields cong: if_cong option.case_cong)

lemma strategy_models_not_Err: "strategy_models s req r \<noteq> Err e"
  by (auto simp: strategy_models_def semantic_Route_def Let_def
      split: option.splits if_splits go_result.splits prod.splits)

lemma route_strategies_not_Err: "fst (route_strategies ss req r) \<noteq> Err e"
proof (induction ss arbitrary: r)
  case (Cons s ss)
  show ?case
  proof (cases "strategy_models s req r")
    case (Ok ms)
    obtain d r1 where "resolveModelList ms s r = (d, r1)" by fastforce
    then show ?thesis using Ok Cons by (cases d) simp_all
  qed (use strategy_models_not_Err in auto)
qed simp

lemma router_Route_error:
  assumes "router_Route req r = (Err e, r')" shows "e = new_error ErrCodeModelNotFound ''no route matched''"
proof -
  obtain d r1 where d: "route_strategies (rt_strategies r) req r = (d, r1)" by fastforce
  then have "d \<noteq> Err e" using route_strategies_not_Err [of "rt_strategies r" req r e] by simp
  then have "route_default req r1 = (Err e, r')"
    using assms d by (auto simp: router_Route_def split: if_splits prod.splits go_result.splits option.splits)
  then show ?thesis by (auto simp: route_default_def split: prod.splits option.splits)
qed

section \<open>The environment of the router\<close>

text \<open>
  What the router needs of the functions it is given: a provider is listed for a model only
  if it serves it, and there is one candidate per provider, under the provider's name.
\<close>

locale router_env =
  fixes providers_of :: "string \<Rightarrow> 'w Provider list"
    and build :: "'w Provider list \<Rightarrow> string \<Rightarrow> ProviderCandidate list"
  assumes provider_serves: "p \<in> set (providers_of m) \<Longrightarrow> m \<in> set (pv_models p)"
    and candidate_names: "map pc_name (build ps m) = map pv_name ps"
begin

definition uses_env :: "'w Router \<Rightarrow> bool" where
  "uses_env r \<longleftrightarrow> rt_modelProviders r = providers_of \<and> rt_buildCandidates r = Some build \<and>
     (case rt_balancer r of None \<Rightarrow> True | Some b \<Rightarrow> bal_ok b)"

text \<open>A decision: some provider that serves the model was taken, under the strategy's name.\<close>

definition decides :: "string \<Rightarrow> string \<Rightarrow> RouteDecision \<Rightarrow> bool" where
  "decides s m dec \<longleftrightarrow> rd_strategy dec = s \<and> rd_model dec = m \<and>
     (\<exists>p \<in> set (providers_of m). m \<in> set (pv_models p) \<and> rd_provider dec = pv_name p)"

lemma uses_env_same_setup:
  "uses_env r \<Longrightarrow> same_setup r r' \<Longrightarrow> (case rt_balancer r' of None \<Rightarrow> True | Some b \<Rightarrow> bal_ok b) \<Longrightarrow> uses_env r'"
  by (simp add: uses_env_def same_setup_fields)

lemma balanced_choice_env:
  assumes "uses_env r" and "balanced_choice ps m r = (c, r')"
  shows "uses_env r' \<and> same_setup r r' \<and> (case c of None \<Rightarrow> True | Some n \<Rightarrow> n \<in> set (map pv_name ps))"
proof (cases "rt_balancer r")
  case None
  then show ?thesis using assms by (auto simp: balanced_choice_def)
next
  case (Some b)
  have b: "bal_ok b" and bc: "rt_buildCandidates r = Some build" using assms(1) Some by (simp_all add: uses_env_def)
  show ?thesis
  proof (cases "build ps m = []")
    case True
    then show ?thesis using assms Some bc by (auto simp: balanced_choice_def)
  next
    case False
    obtain sel b' where s: "bal_Select (build ps m) b = (sel, b')" by fastforce
    then have "bal_ok b'" and sel: "sel \<in> set (build ps m)"
      using bal_Select_ok [OF b, of "build ps m"] bal_Select_member [OF False b] by simp_all
    then have "pc_name sel \<in> set (map pc_name (build ps m))" by simp
    then have "pc_name sel \<in> set (map pv_name ps)" by (simp only: candidate_names)
    moreover have "r' = r\<lparr>rt_balancer := Some b'\<rparr>" and "c = None \<or> c = Some (pc_name sel)"
      using assms(2) Some bc False s by (auto simp: balanced_choice_def Let_def split: if_splits)
    ultimately show ?thesis
      using assms(1) \<open>bal_ok b'\<close> by (auto simp: uses_env_def same_setup_def)
  qed
qed

lemma resolve_provider:
  assumes "uses_env r" and "resolveWithBalancer (providers_of m) m s r = (d, r')"
  shows "uses_env r' \<and> same_setup r r' \<and>
           (case d of None \<Rightarrow> providers_of m = [] | Some dec \<Rightarrow> providers_of m \<noteq> [] \<and> decides s m dec)"
proof -
  obtain c r1 where c: "balanced_choice (providers_of m) m r = (c, r1)" by fastforce
  from balanced_choice_env [OF assms(1) c] have r1: "uses_env r1" "same_setup r r1"
    and n: "\<And>n. c = Some n \<Longrightarrow> n \<in> set (map pv_name (providers_of m))" by auto
  show ?thesis
  proof (cases c)
    case None
    have "decides s m \<lparr>rd_provider = pv_name (providers_of m ! 0), rd_model = m, rd_strategy = s\<rparr>"
      if "providers_of m \<noteq> []"
      using that provider_serves [of "providers_of m ! 0" m] by (force simp: decides_def)
    then show ?thesis using assms(2) c None r1 by (auto simp: resolveWithBalancer_def split: if_splits)
  next
    case (Some name)
    then obtain p where "p \<in> set (providers_of m)" "name = pv_name p" using n by auto
    then have "decides s m \<lparr>rd_provider = name, rd_model = m, rd_strategy = s\<rparr>" "providers_of m \<noteq> []"
      using provider_serves by (auto simp: decides_def)
    then show ?thesis using assms(2) c Some r1 by (auto simp: resolveWithBalancer_def)
  qed
qed

lemma resolve_list:
  assumes "uses_env r" and "resolveModelList ms s r = (d, r')"
  shows "uses_env r' \<and> same_setup r r' \<and>
           (case List.find (served r) (map (Pair s) ms) of
              None \<Rightarrow> d = None
            | Some (s', m) \<Rightarrow> s' = s \<and> (\<exists>dec. d = Some dec \<and> decides s m dec))"
  using assms
proof (induction ms arbitrary: r)
  case Nil
  then show ?case by simp
next
  case (Cons m ms)
  have mp: "rt_modelProviders r = providers_of" using Cons.prems(1) by (simp add: uses_env_def)
  show ?case
  proof (cases "providers_of m = []")
    case True
    then show ?thesis using Cons.IH [OF Cons.prems(1)] Cons.prems(2) mp by (simp add: served_def)
  next
    case False
    obtain d1 r1 where d1: "resolveWithBalancer (providers_of m) m s r = (d1, r1)" by fastforce
    from resolve_provider [OF Cons.prems(1) this] False obtain dec where
      "d1 = Some dec" "decides s m dec" "uses_env r1" "same_setup r r1" by (auto split: option.splits)
    then show ?thesis using Cons.prems(2) d1 False mp by (auto simp: served_def)
  qed
qed

text \<open>
  The strategies before the first that panics, in order, decide as the specification says; if
  none of them decides, the panic is the outcome.
\<close>

lemma route_strategies_env:
  assumes "uses_env r" and "route_strategies ss req r = (d, r')"
  shows "uses_env r' \<and> same_setup r r' \<and>
           (let calm = takeWhile (\<lambda>s. strategy_models s req r \<noteq> Panic) ss in
            case List.find (served r) (concat (map (\<lambda>s. proposals s req r) calm)) of
              None \<Rightarrow> d = (if calm = ss then Ok None else Panic)
            | Some (s, m) \<Rightarrow> \<exists>dec. d = Ok (Some dec) \<and> decides s m dec)"
  using assms
proof (induction ss arbitrary: r)
  case Nil
  then show ?case by simp
next
  case (Cons s ss)
  show ?case
  proof (cases "strategy_models s req r")
    case Panic
    then show ?thesis using Cons.prems by simp
  next
    case (Err e)
    then show ?thesis using strategy_models_not_Err by blast
  next
    case ms: (Ok ms)
    obtain d1 r1 where d1: "resolveModelList ms s r = (d1, r1)" by fastforce
    note rl = resolve_list [OF Cons.prems(1) d1]
    then have su: "same_setup r r1" and r1: "uses_env r1" by simp_all
    have same: "served r1 = served r" "proposals s req r1 = proposals s req r" for s
      using su by (simp_all add: fun_eq_iff served_def proposals_def same_setup_fields same_setup_models)
    show ?thesis
    proof (cases "List.find (served r) (map (Pair s) ms)")
      case None
      then have "route_strategies ss req r1 = (d, r')" using rl Cons.prems(2) ms d1 by simp
      from Cons.IH [OF r1 this] show ?thesis using None ms su
        by (auto simp: find_append proposals_def [of s] same same_setup_models [OF su] Let_def
            simp del: takeWhile_eq_all_conv intro: same_setup_trans split: option.split_asm)
    next
      case (Some sm)
      then show ?thesis using rl Cons.prems(2) ms d1
        by (cases sm) (auto simp: find_append proposals_def)
    qed
  qed
qed

lemma route_default_env:
  assumes "uses_env r" and "route_default req r = (d, r')"
  shows "uses_env r' \<and> same_setup r r' \<and>
           (case List.find (served r) (map (Pair ''default'') (rt_defaultCascade r) @
                   (if req_model req = '''' then [] else [(''default'', req_model req)])) of
              None \<Rightarrow> d = Err (new_error ErrCodeModelNotFound ''no route matched'')
            | Some (s, m) \<Rightarrow> \<exists>dec. d = Ok dec \<and> decides s m dec)"
proof -
  let ?c = "rt_defaultCascade r"
  obtain d1 r1 where d1: "resolveModelList ?c ''default'' r = (d1, r1)" by fastforce
  note rl = resolve_list [OF assms(1) d1]
  then have su: "same_setup r r1" and r1: "uses_env r1" by simp_all
  have casc: "(if length ?c > 0 then resolveModelList ?c ''default'' r else (None, r)) = (d1, r1)"
    using d1 by auto
  show ?thesis
  proof (cases d1)
    case (Some dec)
    then show ?thesis using rl casc assms(2)
      by (auto simp: route_default_def find_append split: option.splits)
  next
    case None
    then have f: "List.find (served r) (map (Pair ''default'') ?c) = None"
      using rl by (auto split: option.splits)
    show ?thesis
    proof (cases "req_model req = ''''")
      case True
      then show ?thesis using None casc assms(2) f su r1 by (auto simp: route_default_def)
    next
      case False
      have mp: "rt_modelProviders r1 = providers_of" "rt_modelProviders r = providers_of"
        using r1 assms(1) by (simp_all add: uses_env_def)
      obtain d2 r2 where d2: "resolveWithBalancer (providers_of (req_model req)) (req_model req) ''default'' r1 = (d2, r2)"
        by fastforce
      note rp = resolve_provider [OF r1 d2]
      then have "same_setup r r2" "uses_env r2" using su by (auto intro: same_setup_trans)
      then show ?thesis using rp None casc assms(2) f False d2 mp
        by (auto simp: route_default_def find_append served_def split: option.splits)
    qed
  qed
qed

lemma route_tries:
  assumes "uses_env r" and "CHR ''/'' \<notin> set (req_model req)" and "router_Route req r = (d, r')"
  shows "uses_env r' \<and> same_setup r r' \<and>
           (case List.find (served r) (tried_options req r) of
              None \<Rightarrow> d = (if calm_strategies req r = rt_strategies r
                then Err (new_error ErrCodeModelNotFound ''no route matched'') else Panic)
            | Some (s, m) \<Rightarrow> \<exists>dec. d = Ok dec \<and> decides s m dec)"
proof -
  obtain d1 r1 where d1: "route_strategies (rt_strategies r) req r = (d1, r1)" by fastforce
  note rs = route_strategies_env [OF assms(1) d1, folded calm_strategies_def, unfolded Let_def]
  then have su: "same_setup r r1" and r1: "uses_env r1" by simp_all
  have same: "served r1 = served r" using su by (simp add: fun_eq_iff served_def same_setup_fields)
  show ?thesis
  proof (cases "List.find (served r) (concat (map (\<lambda>s. proposals s req r) (calm_strategies req r)))")
    case None
    show ?thesis
    proof (cases "calm_strategies req r = rt_strategies r")
      case True
      then have "route_default req r1 = (d, r')"
        using None rs assms(2,3) d1 by (simp add: router_Route_def str_contains_char)
      then show ?thesis
        using None True su same route_default_env [OF r1, of req d r']
        by (auto simp: tried_options_def find_append same_setup_fields intro: same_setup_trans)
    next
      case False
      then show ?thesis using None rs assms(2,3) d1
        by (auto simp: tried_options_def router_Route_def str_contains_char)
    qed
  next
    case (Some sm)
    then show ?thesis using rs assms(2,3) d1
      by (cases sm) (auto simp: tried_options_def find_append router_Route_def str_contains_char)
  qed
qed

lemma route_env:
  assumes "uses_env r" and "CHR ''/'' \<notin> set (req_model req)"
    and "\<forall>s \<in> set (rt_strategies r). strategy_models s req r \<noteq> Panic"
    and "router_Route req r = (d, r')"
  shows "uses_env r' \<and> same_setup r r' \<and>
           (case List.find (served r) (route_options req r) of
              None \<Rightarrow> d = Err (new_error ErrCodeModelNotFound ''no route matched'')
            | Some (s, m) \<Rightarrow> \<exists>dec. d = Ok dec \<and> decides s m dec)"
  using route_tries [OF assms(1,2,4)] unfolding tried_all [OF assms(3)] calm_all [OF assms(3)]
  by (auto split: option.splits)

text \<open>Whatever a request is, and even if a strategy panics, only the balancer changes.\<close>

lemma route_strategies_keeps:
  "uses_env r \<Longrightarrow> route_strategies ss req r = (d, r') \<Longrightarrow> uses_env r' \<and> same_setup r r'"
proof (induction ss arbitrary: r)
  case (Cons s ss)
  show ?case
  proof (cases "strategy_models s req r")
    case (Ok ms)
    obtain d1 r1 where d1: "resolveModelList ms s r = (d1, r1)" by fastforce
    then have "uses_env r1 \<and> same_setup r r1" using resolve_list [OF Cons.prems(1)] by blast
    then show ?thesis using Cons Ok d1 by (cases d1) (auto intro: same_setup_trans)
  qed (use Cons.prems in auto)
qed simp

lemma route_keeps:
  assumes "uses_env r" shows "uses_env (snd (router_Route req r)) \<and> same_setup r (snd (router_Route req r))"
proof (cases "str_contains (req_model req) ''/''")
  case True
  then show ?thesis using assms by (simp add: router_Route_def split: prod.split)
next
  case False
  obtain d r1 where d: "route_strategies (rt_strategies r) req r = (d, r1)" by fastforce
  note r1 = route_strategies_keeps [OF assms d]
  obtain d2 r2 where d2: "route_default req r1 = (d2, r2)" by fastforce
  then have "uses_env r2 \<and> same_setup r1 r2" using route_default_env r1 by blast
  then show ?thesis using r1 False d d2
    by (auto simp: router_Route_def intro: same_setup_trans split: go_result.split option.split)
qed

end

section \<open>Estimates\<close>

lemma estimateInputTokens_eq:
  "estimateInputTokens ms = int (sum_list (map (length \<circ> msg_content) ms)) div 4"
proof -
  have "foldl (\<lambda>n m. n + int (length (msg_content m))) k ms =
      k + int (sum_list (map (length \<circ> msg_content) ms))" for k
    by (induction ms arbitrary: k) auto
  from this [of 0] have f: "foldl (\<lambda>n m. n + int (length (msg_content m))) 0 ms =
      int (sum_list (map (length \<circ> msg_content) ms))" by simp
  have "(if 0 < int k then int k div 4 else 0) = int k div 4" for k by simp
  then show ?thesis unfolding estimateInputTokens_def f Let_def .
qed

end
