(* ===== verification/Fallback.thy ===== *)
theory Fallback
  imports Go_Float_Facts Gateway_Model
begin

text \<open>
  The fallback engine of \<^verbatim>\<open>internal/fallback/engine.go\<close>: one primary attempt, retries
  with exponential backoff, then the chain of fallback models, then a canned response. The
  request context, the timer and the send function are the environment of \<open>fe_Execute\<close>;
  \<open>execute_follows_schedule\<close> gives the order of everything it asks of them.
\<close>

section \<open>The engine\<close>

definition defaultRetryMax :: int where "defaultRetryMax = 2"
definition defaultRetryBackoff :: duration where "defaultRetryBackoff = 1000000000"

text \<open>The UTF-8 bytes of the built-in message.\<close>

definition defaultFallbackMessage :: string where
  "defaultFallbackMessage = map char_of [230 :: nat, 137, 128, 230, 156, 137, 230, 168, 161, 229, 158,
     139, 230, 156, 141, 229, 138, 161, 230, 154, 130, 230, 151, 182, 228, 184, 141, 229, 143, 175, 231,
     148, 168, 239, 188, 140, 232, 175, 183, 231, 168, 141, 229, 144, 142, 233, 135, 141, 232, 175, 149,
     227, 128, 130]"

definition retryableErrors :: "string list" where
  "retryableErrors = [''connection refused'', ''connection reset'', ''i/o timeout'', ''deadline exceeded'',
     ''unexpected eof'', ''no such host'', ''timeout'']"

datatype Level = Primary | Retry | Chained

text \<open>Levels are ordered as an execution goes through them.\<close>

fun level_rank :: "Level \<Rightarrow> nat" where
  "level_rank Primary = 0"
| "level_rank Retry = 1"
| "level_rank Chained = 2"

instantiation Level :: linorder
begin

definition less_eq_Level_def: "l \<le> l' \<longleftrightarrow> level_rank l \<le> level_rank l'"
definition less_Level_def: "l < l' \<longleftrightarrow> level_rank l < level_rank l'"

instance
proof
  show "l = l'" if "l \<le> l'" "l' \<le> l" for l l' :: Level
    using that by (cases l; cases l') (simp_all add: less_eq_Level_def)
qed (auto simp: less_eq_Level_def less_Level_def)

end

text \<open>The strings the code uses for the levels, and the level of the canned response.\<close>

fun level_text :: "Level \<Rightarrow> string" where
  "level_text Primary = ''primary''"
| "level_text Retry = ''retry''"
| "level_text Chained = ''fallback''"

definition exhausted :: string where "exhausted = ''fallback_exhausted''"

record Attempt =
  at_provider :: string
  at_model :: string
  at_level :: Level

record Engine =
  en_chains :: "string \<rightharpoonup> string list"
  en_retryMax :: int
  en_retryBackoff :: duration
  en_defaultMsg :: string

definition NewEngine :: "(string \<rightharpoonup> string list) option \<Rightarrow> int \<Rightarrow> duration \<Rightarrow> string \<Rightarrow> Engine" where
  "NewEngine chainMap retryMax retryBackoff defaultMsg =
     \<lparr>en_chains = (case chainMap of None \<Rightarrow> Map.empty | Some c \<Rightarrow> c),
      en_retryMax = (if retryMax \<le> 0 then defaultRetryMax else retryMax),
      en_retryBackoff = (if retryBackoff \<le> 0 then defaultRetryBackoff else retryBackoff),
      en_defaultMsg = (if defaultMsg = '''' then defaultFallbackMessage else defaultMsg)\<rparr>"

definition fe_Chain :: "Engine \<Rightarrow> string \<Rightarrow> string list" where
  "fe_Chain e model = map_get [] (en_chains e) model"

definition fe_Attempts :: "Engine \<Rightarrow> string \<Rightarrow> string \<Rightarrow> Attempt list" where
  "fe_Attempts e providerName model =
     \<lparr>at_provider = providerName, at_model = model, at_level = Primary\<rparr> #
     replicate (nat (en_retryMax e)) \<lparr>at_provider = providerName, at_model = model, at_level = Retry\<rparr> @
     map (\<lambda>m. \<lparr>at_provider = '''', at_model = m, at_level = Chained\<rparr>) (fe_Chain e model)"

text \<open>The attempts go through the levels in order.\<close>

lemma attempts_escalate: "sorted (map at_level (fe_Attempts e p m))"
  by (simp add: fe_Attempts_def sorted_append less_eq_Level_def comp_def map_replicate_const)

definition DefaultResponse :: "Engine \<Rightarrow> StandardResponse" where
  "DefaultResponse e = zero_response\<lparr>rs_choices :=
     Some [\<lparr>ch_index = 0, ch_message = \<lparr>msg_role = ''assistant'', msg_content = en_defaultMsg e\<rparr>,
            ch_finish = ''stop''\<rparr>]\<rparr>"

definition IsRetryable :: "go_error option \<Rightarrow> bool" where
  "IsRetryable err =
     (case err of
        None \<Rightarrow> False
      | Some err \<Rightarrow>
          (let by_text = (\<exists>pattern \<in> set retryableErrors. str_contains (to_lower (error_string err)) pattern)
           in case err of
                ModelErr me \<Rightarrow>
                  if er_code me \<in> {ErrCodeInvalidRequest, ErrCodeAuthentication, ErrCodeRateLimit,
                                   ErrCodeModelNotFound} then False
                  else if er_code me = ErrCodeProviderError \<or> er_code me = ErrCodeTimeout \<or>
                          er_code me = ErrCodeCircuitOpen then True
                  else by_text
              | OtherErr s \<Rightarrow> by_text))"

definition BackoffDuration :: "Engine \<Rightarrow> int \<Rightarrow> duration" where
  "BackoffDuration e attempt = f64_to_int64 (fmul (f64_of_int (en_retryBackoff e)) (f64_pow2 attempt))"

section \<open>Execution\<close>

text \<open>
  The environment over a state of the world: \<^verbatim>\<open>ctx.Err()\<close>; the select between the end
  of the context and the timer, which yields the context's error in the first case; and the
  send function, which may be nil.
\<close>

record 'w fe_env =
  fe_ctxErr :: "'w \<Rightarrow> go_error option"
  fe_wait :: "duration \<Rightarrow> 'w \<Rightarrow> go_error option \<times> 'w"

type_synonym 'w send_fun = "string \<Rightarrow> string \<Rightarrow> 'w \<Rightarrow> (go_error + StandardResponse) \<times> 'w"

type_synonym fe_result = "(StandardResponse \<times> string) go_result"

fun execute_loop :: "Engine \<Rightarrow> 'w fe_env \<Rightarrow> 'w send_fun \<Rightarrow> Attempt list \<Rightarrow> int \<Rightarrow> bool \<Rightarrow> 'w \<Rightarrow> fe_result \<times> 'w" where
  "execute_loop e env send [] retryAttempt skipRetries w = (Ok (DefaultResponse e, exhausted), w)"
| "execute_loop e env send (att # atts) retryAttempt skipRetries w =
     (case fe_ctxErr env w of
        Some err \<Rightarrow> (Err err, w)
      | None \<Rightarrow>
          if at_level att = Retry \<and> skipRetries then execute_loop e env send atts retryAttempt skipRetries w
          else
            (case (if at_level att = Retry then fe_wait env (BackoffDuration e retryAttempt) w else (None, w)) of
               (Some err, w) \<Rightarrow> (Err err, w)
             | (None, w) \<Rightarrow>
                 let retryAttempt = (if at_level att = Retry then retryAttempt + 1 else retryAttempt) in
                 (case send (at_provider att) (at_model att) w of
                    (Inr resp, w) \<Rightarrow> (Ok (resp, level_text (at_level att)), w)
                  | (Inl err, w) \<Rightarrow>
                      let skipRetries = (if at_level att = Primary \<and> \<not> IsRetryable (Some err) then True
                                         else skipRetries)
                      in execute_loop e env send atts retryAttempt skipRetries w)))"

definition fe_Execute :: "Engine \<Rightarrow> 'w fe_env \<Rightarrow> string \<Rightarrow> string \<Rightarrow> 'w send_fun option \<Rightarrow> 'w \<Rightarrow> fe_result \<times> 'w" where
  "fe_Execute e env providerName modelName sendFn w =
     (case sendFn of
        None \<Rightarrow> (Err (new_error ErrCodeInternal ''send function is nil''), w)
      | Some send \<Rightarrow> execute_loop e env send (fe_Attempts e providerName modelName) 0 False w)"

lemmas fe_defs [fallback_simps] = NewEngine_def fe_Chain_def fe_Attempts_def fe_Execute_def

section \<open>Backoff\<close>

text \<open>
  The backoff doubles with every retry: the wait before retry k is the configured
  duration times 2 ^ k, exactly, as long as that many nanoseconds fit a 64-bit
  duration (and the configured one is below 104 days).
\<close>

theorem backoff_doubles:
  assumes "0 < en_retryBackoff e" and "en_retryBackoff e \<le> 2 ^ 53"
    and "in_int64 (en_retryBackoff e * 2 ^ k)"
  shows "BackoffDuration e (int k) = en_retryBackoff e * 2 ^ k"
proof -
  let ?b = "en_retryBackoff e"
  have "k \<le> 900"
  proof (rule ccontr)
    assume "\<not> k \<le> 900"
    then have "(2::int) ^ 63 \<le> 2 ^ k" by (intro power_increasing) simp_all
    also have "\<dots> \<le> ?b * 2 ^ k" using assms(1) by simp
    finally show False using assms(3) by (simp add: in_int64_def max_int64_def)
  qed
  then have "is_fin (fmul (f64_of_int ?b) (f64_pow2 (int k)))"
    and "fval (fmul (f64_of_int ?b) (f64_pow2 (int k))) = of_int (?b * 2 ^ k)"
    using fmul_pow2 [of ?b k] assms(1,2) by (simp_all add: int_exact_def)
  then show ?thesis
    unfolding BackoffDuration_def using assms(3) by (rule f64_to_int64_exact)
qed

definition demo_engine :: Engine where
  "demo_engine = NewEngine (Some [''m'' \<mapsto> [''n'', ''o'']]) 2 500000000 ''''"

theorem backoff_doubles_witness: "BackoffDuration demo_engine 1 = 1000000000"
  using backoff_doubles [of demo_engine 1]
  by (simp add: demo_engine_def NewEngine_def in_int64_def min_int64_def max_int64_def)

text \<open>
  Beyond that the wait collapses: when the doubled backoff no longer fits 64 bits, the
  conversion yields the most negative duration, so the timer fires at once and the remaining
  retries are made without any pause. With the default backoff of one second this begins
  at retry 34.
\<close>

theorem backoff_overflow:
  assumes "34 \<le> k" and "k \<le> 900" and "en_retryBackoff e = defaultRetryBackoff"
  shows "BackoffDuration e (int k) = min_int64"
proof -
  let ?x = "fmul (f64_of_int (10 ^ 9)) (f64_pow2 (int k))"
  have x: "is_fin ?x" "fval ?x = of_int (10 ^ 9) * 2 ^ k"
    using fmul_pow2 [of "10 ^ 9" k] assms(2) by (simp_all add: int_exact_def)
  then obtain s m e' where xe: "?x = Fin s m e'" by (cases ?x) auto
  have "f64_to_int64 ?x = min_int64"
  proof (rule ccontr)
    assume "f64_to_int64 ?x \<noteq> min_int64"
    then have i: "in_int64 (sgn_nat s (m * 2 ^ nat e' div 2 ^ nat (- e')))"
      unfolding xe by (auto simp: Let_def split: if_splits)
    have pos: "0 < fval ?x" unfolding x(2) by simp
    then have s: "\<not> s" unfolding xe by (auto simp: mult_less_0_iff zero_less_mult_iff)
    have "real (m * 2 ^ nat e') / 2 ^ nat (- e') = 10 ^ 9 * 2 ^ k"
      using x(2) s two_powr_nat_diff [of e'] unfolding xe by simp
    then have "real (m * 2 ^ nat e') = real (10 ^ 9 * 2 ^ k * 2 ^ nat (- e'))" by (simp add: field_simps)
    then have "m * 2 ^ nat e' = 10 ^ 9 * 2 ^ k * 2 ^ nat (- e')" by (simp only: of_nat_eq_iff)
    then have q: "m * 2 ^ nat e' div 2 ^ nat (- e') = 10 ^ 9 * 2 ^ k" by simp
    have "(2::int) ^ 34 \<le> 2 ^ k" using assms(1) by (intro power_increasing) simp_all
    then have "10 ^ 9 * 2 ^ 34 \<le> int (10 ^ 9 * 2 ^ k)" by simp
    then show False using i s unfolding q by (simp add: sgn_nat_def in_int64_def max_int64_def)
  qed
  then show ?thesis by (simp add: BackoffDuration_def assms(3) defaultRetryBackoff_def)
qed

theorem backoff_overflow_witness:
  "BackoffDuration (NewEngine None 50 0 '''') 34 = - 9223372036854775808"
  using backoff_overflow [of 34 "NewEngine None 50 0 ''''"] by (simp add: NewEngine_def min_int64_def)

section \<open>What an execution asks of its environment\<close>

text \<open>
  The specification: the schedule of waits and sends that an execution follows until one send
  succeeds. The retries are part of it only if the primary attempt failed in a retryable way.
\<close>

datatype fe_ask = Wait duration | Send string string

fun retry_schedule :: "Engine \<Rightarrow> string \<Rightarrow> string \<Rightarrow> nat \<Rightarrow> nat \<Rightarrow> fe_ask list" where
  "retry_schedule e p m k 0 = []"
| "retry_schedule e p m k (Suc n) =
     Wait (BackoffDuration e (int k)) # Send p m # retry_schedule e p m (Suc k) n"

definition chain_schedule :: "Engine \<Rightarrow> string \<Rightarrow> fe_ask list" where
  "chain_schedule e m = map (\<lambda>m'. Send '''' m') (fe_Chain e m)"

definition full_schedule :: "Engine \<Rightarrow> string \<Rightarrow> string \<Rightarrow> bool \<Rightarrow> fe_ask list" where
  "full_schedule e p m retryable = Send p m #
     (if retryable then retry_schedule e p m 0 (nat (en_retryMax e)) else []) @ chain_schedule e m"

text \<open>The environment that records what it is asked and how it answered, next to the state of
  another one.\<close>

type_synonym fe_event = "fe_ask \<times> StandardResponse option"

definition logged_env :: "'w fe_env \<Rightarrow> ('w \<times> fe_event list) fe_env" where
  "logged_env env = \<lparr>fe_ctxErr = (\<lambda>(w, l). fe_ctxErr env w),
     fe_wait = (\<lambda>d (w, l). let (r, w) = fe_wait env d w in (r, (w, l @ [(Wait d, None)])))\<rparr>"

definition logged_send :: "'w send_fun \<Rightarrow> ('w \<times> fe_event list) send_fun" where
  "logged_send send = (\<lambda>p m (w, l). let (r, w) = send p m w in
     (r, (w, l @ [(Send p m, case r of Inl _ \<Rightarrow> None | Inr resp \<Rightarrow> Some resp)])))"

text \<open>An environment whose context never ends.\<close>

definition never_cancelled :: "'w fe_env \<Rightarrow> bool" where
  "never_cancelled env \<longleftrightarrow> (\<forall>w. fe_ctxErr env w = None) \<and> (\<forall>d w. fst (fe_wait env d w) = None)"

text \<open>
  What an answer says about the log: the canned response comes after a whole schedule of
  failures; every other answer is that of the last event, the first success.
\<close>

definition answers :: "Engine \<Rightarrow> fe_event list \<Rightarrow> fe_ask list \<Rightarrow> StandardResponse \<Rightarrow> string \<Rightarrow> bool" where
  "answers e l rest r lvl \<longleftrightarrow>
     (if lvl = exhausted then rest = [] \<and> r = DefaultResponse e \<and> (\<forall>ev \<in> set l. snd ev = None)
      else \<exists>l0 p m. l = l0 @ [(Send p m, Some r)] \<and> (\<forall>ev \<in> set l0. snd ev = None))"

text \<open>The schedule of a rest of the attempts.\<close>

fun att_schedule :: "Engine \<Rightarrow> int \<Rightarrow> bool \<Rightarrow> Attempt list \<Rightarrow> fe_ask list" where
  "att_schedule e n skip [] = []"
| "att_schedule e n skip (a # as) =
     (if at_level a = Retry then
        (if skip then att_schedule e n skip as
         else Wait (BackoffDuration e n) # Send (at_provider a) (at_model a) # att_schedule e (n + 1) skip as)
      else Send (at_provider a) (at_model a) # att_schedule e n skip as)"

lemma att_schedule_retries:
  "att_schedule e (int k) False (replicate n \<lparr>at_provider = p, at_model = m, at_level = Retry\<rparr> @ as) =
   retry_schedule e p m k n @ att_schedule e (int (k + n)) False as"
proof (induction n arbitrary: k)
  case 0
  then show ?case by simp
next
  case (Suc n)
  from Suc [of "Suc k"] show ?case by (simp add: add.commute)
qed

lemma att_schedule_skip:
  "att_schedule e k True (replicate n \<lparr>at_provider = p, at_model = m, at_level = Retry\<rparr> @ as) =
   att_schedule e k True as"
  by (induction n) auto

lemma att_schedule_chain:
  "att_schedule e k skip (map (\<lambda>m. \<lparr>at_provider = '''', at_model = m, at_level = Chained\<rparr>) ms) =
   map (\<lambda>m. Send '''' m) ms"
  by (induction ms) auto

lemma answers_failed: "answers e l rest r lvl \<Longrightarrow> \<forall>ev \<in> set l0. snd ev = None \<Longrightarrow> answers e (l0 @ l) rest r lvl"
  by (auto simp: answers_def split: if_splits)

lemma level_text_not_exhausted [simp]: "level_text lvl \<noteq> exhausted"
  by (cases lvl) (simp_all add: exhausted_def)

text \<open>The level of an answer, for a part of the attempts.\<close>

definition level_of :: "Attempt list \<Rightarrow> string \<Rightarrow> bool" where
  "level_of atts lvl \<longleftrightarrow> lvl = exhausted \<or> lvl \<in> level_text ` (at_level ` set atts)"

text \<open>One attempt that is not skipped: what it adds to the log and where the loop goes on.\<close>

lemma execute_loop_attempt:
  assumes "never_cancelled env" and "\<not> (at_level a = Retry \<and> skip)" and "at_level a \<noteq> Primary"
    and n1: "n1 = (if at_level a = Retry then n + 1 else n)"
  shows "\<exists>pre (res :: go_error + StandardResponse) w2 l2.
    l2 = l @ pre @ [(Send (at_provider a) (at_model a), case res of Inl _ \<Rightarrow> None | Inr resp \<Rightarrow> Some resp)] \<and>
    (\<forall>ev \<in> set pre. snd ev = None) \<and>
    att_schedule e n skip (a # as) = map fst pre @ Send (at_provider a) (at_model a) # att_schedule e n1 skip as \<and>
    execute_loop e (logged_env env) (logged_send send) (a # as) n skip (w, l) =
      (case res of Inl _ \<Rightarrow> execute_loop e (logged_env env) (logged_send send) as n1 skip (w2, l2)
       | Inr resp \<Rightarrow> (Ok (resp, level_text (at_level a)), (w2, l2)))"
proof -
  let ?pre = "if at_level a = Retry then [(Wait (BackoffDuration e n), None)] else []"
  have ce: "fe_ctxErr (logged_env env) (w, l) = None" for w l
    using assms(1) by (simp add: logged_env_def never_cancelled_def)
  obtain w1 where w1: "(if at_level a = Retry then fe_wait (logged_env env) (BackoffDuration e n) (w, l)
      else (None, (w, l))) = (None, (w1, l @ ?pre))"
  proof (cases "at_level a = Retry")
    case True
    moreover obtain w1 where "fe_wait env (BackoffDuration e n) w = (None, w1)"
      using assms(1) unfolding never_cancelled_def by (metis prod.collapse)
    ultimately show ?thesis using that by (simp add: logged_env_def)
  qed (use that in simp)
  obtain res w2 where s: "send (at_provider a) (at_model a) w1 = (res, w2)" by fastforce
  have ls: "logged_send send (at_provider a) (at_model a) (w1, l @ ?pre) =
      (res, (w2, l @ ?pre @ [(Send (at_provider a) (at_model a), case res of Inl _ \<Rightarrow> None | Inr resp \<Rightarrow> Some resp)]))"
    by (simp add: logged_send_def s)
  have sch: "att_schedule e n skip (a # as) = map fst ?pre @ Send (at_provider a) (at_model a) # att_schedule e n1 skip as"
    using assms(2) by (auto simp: n1)
  show ?thesis
    by (rule exI [where x = ?pre], rule exI [where x = res], rule exI [where x = w2], rule exI, rule conjI [OF refl])
      (cases res; simp only: sch execute_loop.simps ce option.case if_not_P [OF assms(2)] w1 prod.case
         ls sum.case assms(3) simp_thms if_False n1 [symmetric]; simp)
qed

lemma execute_loop_logged:
  assumes "never_cancelled env" and "\<forall>a \<in> set atts. at_level a \<noteq> Primary"
  shows "\<exists>r lvl w' l' rest.
    execute_loop e (logged_env env) (logged_send send) atts n skip (w, l) = (Ok (r, lvl), (w', l @ l')) \<and>
    att_schedule e n skip atts = map fst l' @ rest \<and> answers e l' rest r lvl \<and> level_of atts lvl"
  using assms(2)
proof (induction atts arbitrary: n w l)
  case Nil
  then show ?case by (simp add: answers_def level_of_def)
next
  case (Cons a as)
  have "level_of as lvl \<Longrightarrow> level_of (a # as) lvl" for lvl by (auto simp: level_of_def)
  then have IH: "\<exists>r lvl w' l' rest.
    execute_loop e (logged_env env) (logged_send send) as n skip (w, l) = (Ok (r, lvl), (w', l @ l')) \<and>
    att_schedule e n skip as = map fst l' @ rest \<and> answers e l' rest r lvl \<and> level_of (a # as) lvl" for n w l
    using Cons.IH [of n w l] Cons.prems by (metis list.set_intros(2))
  show ?case
  proof (cases "at_level a = Retry \<and> skip")
    case True
    have "fe_ctxErr (logged_env env) (w, l) = None"
      using assms(1) by (simp add: logged_env_def never_cancelled_def)
    then show ?thesis using True IH [of n w l] by simp
  next
    case False
    let ?n = "if at_level a = Retry then n + 1 else n"
    let ?send = "Send (at_provider a) (at_model a)"
    have "at_level a \<noteq> Primary" using Cons.prems by simp
    from execute_loop_attempt [OF assms(1) False this refl, of l e n as send w]
    obtain pre w2 l2 and res :: "go_error + StandardResponse" where
        l2: "l2 = l @ pre @ [(?send, case res of Inl _ \<Rightarrow> None | Inr resp \<Rightarrow> Some resp)]" and failed: "\<forall>ev \<in> set pre. snd ev = None"
      and sch: "att_schedule e n skip (a # as) = map fst pre @ ?send # att_schedule e ?n skip as"
      and step: "execute_loop e (logged_env env) (logged_send send) (a # as) n skip (w, l) =
        (case res of Inl _ \<Rightarrow> execute_loop e (logged_env env) (logged_send send) as ?n skip (w2, l2)
         | Inr resp \<Rightarrow> (Ok (resp, level_text (at_level a)), (w2, l2)))"
      by (elim exE conjE) (rule that)
    show ?thesis
    proof (cases res)
      case (Inr resp)
      have "answers e (pre @ [(?send, Some resp)]) (att_schedule e ?n skip as) resp (level_text (at_level a))"
        by (rule answers_failed [OF _ failed]) (simp add: answers_def)
      then show ?thesis unfolding sch step l2 Inr sum.case
        by (intro exI [of _ resp] exI [of _ "level_text (at_level a)"] exI [of _ w2] exI [of _ "pre @ [(?send, Some resp)]"]
            exI [of _ "att_schedule e ?n skip as"]) (simp add: level_of_def)
    next
      case (Inl err)
      obtain r lvl w' l' rest where r:
        "execute_loop e (logged_env env) (logged_send send) as ?n skip (w2, l @ pre @ [(?send, None)]) =
           (Ok (r, lvl), (w', (l @ pre @ [(?send, None)]) @ l'))"
        "att_schedule e ?n skip as = map fst l' @ rest" "answers e l' rest r lvl" "level_of (a # as) lvl"
        using IH [of ?n w2 "l @ pre @ [(?send, None)]"] by blast
      have "answers e ((pre @ [(?send, None)]) @ l') rest r lvl"
        by (rule answers_failed [OF r(3)]) (use failed in simp)
      then show ?thesis unfolding sch step l2 Inl sum.case r(1,2) using r(4)
        by (intro exI [of _ r] exI [of _ lvl] exI [of _ w'] exI [of _ "pre @ [(?send, None)] @ l'"] exI [of _ rest]) simp
    qed
  qed
qed

text \<open>
  C21. While the context lives, an execution always returns a response, and what it asks of its
  environment is an initial part of one schedule: the primary send; then, only if its error
  was retryable, every retry after its backoff; then one send per model of the chain. It goes
  through the whole schedule exactly when no send succeeds, and then answers with the canned
  response; otherwise it stops at the first send that succeeds and answers with its response.
\<close>

theorem execute_follows_schedule:
  assumes "never_cancelled env" and "send p m w = (res, w1)"
  shows "\<exists>r lvl w' l rest. fe_Execute e (logged_env env) p m (Some (logged_send send)) (w, []) = (Ok (r, lvl), (w', l)) \<and>
           full_schedule e p m (case res of Inl err \<Rightarrow> IsRetryable (Some err) | Inr _ \<Rightarrow> False) = map fst l @ rest \<and>
           answers e l rest r lvl \<and>
           (case res of Inr resp \<Rightarrow> r = resp \<and> lvl = ''primary''
            | Inl err \<Rightarrow> lvl = exhausted \<or> lvl = ''retry'' \<or> lvl = ''fallback'')"
proof -
  let ?tail = "replicate (nat (en_retryMax e)) \<lparr>at_provider = p, at_model = m, at_level = Retry\<rparr> @
     map (\<lambda>m. \<lparr>at_provider = '''', at_model = m, at_level = Chained\<rparr>) (fe_Chain e m)"
  have ce: "fe_ctxErr (logged_env env) (w, []) = None"
    using assms(1) by (simp add: logged_env_def never_cancelled_def)
  have ls: "logged_send send p m (w, []) =
      (res, (w1, [(Send p m, case res of Inl _ \<Rightarrow> None | Inr resp \<Rightarrow> Some resp)]))"
    using assms(2) by (simp add: logged_send_def)
  show ?thesis
  proof (cases res)
    case (Inr resp)
    have "answers e [(Send p m, Some resp)] (chain_schedule e m) resp (level_text Primary)"
      by (simp add: answers_def exhausted_def)
    then show ?thesis using Inr ce ls
      by (simp add: fe_Execute_def fe_Attempts_def full_schedule_def)
  next
    case (Inl err)
    let ?skip = "\<not> IsRetryable (Some err)" and ?ev = "(Send p m, None)"
    have ex: "fe_Execute e (logged_env env) p m (Some (logged_send send)) (w, []) =
        execute_loop e (logged_env env) (logged_send send) ?tail 0 ?skip (w1, [?ev])"
      using Inl ce ls by (simp add: fe_Execute_def fe_Attempts_def)
    have "\<forall>a \<in> set ?tail. at_level a \<noteq> Primary" by auto
    from execute_loop_logged [OF assms(1) this, of e send 0 ?skip w1 "[?ev]"]
    obtain r lvl w' l' rest where r:
      "execute_loop e (logged_env env) (logged_send send) ?tail 0 ?skip (w1, [?ev]) = (Ok (r, lvl), (w', [?ev] @ l'))"
      "att_schedule e 0 ?skip ?tail = map fst l' @ rest" "answers e l' rest r lvl" "level_of ?tail lvl"
      by blast
    have "full_schedule e p m (\<not> ?skip) = Send p m # att_schedule e 0 ?skip ?tail"
      using att_schedule_retries [of e 0 "nat (en_retryMax e)" p m "map (\<lambda>m. \<lparr>at_provider = '''', at_model = m, at_level = Chained\<rparr>) (fe_Chain e m)"]
      by (cases ?skip) (simp_all add: full_schedule_def att_schedule_skip att_schedule_chain chain_schedule_def)
    moreover have "answers e ([?ev] @ l') rest r lvl" by (rule answers_failed [OF r(3)]) simp
    moreover have "lvl = exhausted \<or> lvl = ''retry'' \<or> lvl = ''fallback''"
      using r(4) by (auto simp: level_of_def)
    ultimately show ?thesis unfolding ex r(1) using Inl r(2)
      by (intro exI [of _ r] exI [of _ lvl] exI [of _ w'] exI [of _ "[?ev] @ l'"] exI [of _ rest]) simp
  qed
qed

text \<open>An environment of the tests: nothing ends the context, and only model o answers.\<close>

definition demo_env :: "unit fe_env" where
  "demo_env = \<lparr>fe_ctxErr = (\<lambda>_. None), fe_wait = (\<lambda>_ w. (None, w))\<rparr>"

definition demo_send :: "unit send_fun" where
  "demo_send p m w = (if m = ''o'' then Inr zero_response else Inl (OtherErr ''i/o timeout''), w)"

lemma demo_retryable: "IsRetryable (Some (OtherErr ''i/o timeout''))"
  by code_simp

theorem execute_follows_schedule_witness:
  "\<exists>r lvl w' l rest. fe_Execute demo_engine (logged_env demo_env) ''p'' ''m'' (Some (logged_send demo_send)) ((), []) =
       (Ok (r, lvl), (w', l)) \<and>
     map fst l @ rest = [Send ''p'' ''m'', Wait (BackoffDuration demo_engine 0), Send ''p'' ''m'',
        Wait (BackoffDuration demo_engine 1), Send ''p'' ''m'', Send '''' ''n'', Send '''' ''o'']"
proof -
  have "never_cancelled demo_env" by (simp add: never_cancelled_def demo_env_def)
  moreover have "demo_send ''p'' ''m'' () = (Inl (OtherErr ''i/o timeout''), ())" by (simp add: demo_send_def)
  moreover have "full_schedule demo_engine ''p'' ''m'' True =
      [Send ''p'' ''m'', Wait (BackoffDuration demo_engine 0), Send ''p'' ''m'',
        Wait (BackoffDuration demo_engine 1), Send ''p'' ''m'', Send '''' ''n'', Send '''' ''o'']"
    by (simp add: full_schedule_def demo_engine_def NewEngine_def chain_schedule_def fe_Chain_def
        map_get_def numeral_2_eq_2)
  ultimately show ?thesis
    using execute_follows_schedule [of demo_env demo_send "''p''" "''m''" "()" _ "()" demo_engine] demo_retryable
    by (fastforce simp del: full_schedule_def)
qed


section \<open>What an execution keeps and where its results come from\<close>

lemma execute_loop_step:
  assumes "fe_ctxErr env w = None" and "\<not> (at_level a = Retry \<and> skip)"
    and "(if at_level a = Retry then fe_wait env (BackoffDuration e n) w else (None, w)) = (werr, w1)"
    and "send (at_provider a) (at_model a) w1 = (res, w2)"
  shows "execute_loop e env send (a # as) n skip w =
     (case werr of Some err \<Rightarrow> (Err err, w1)
      | None \<Rightarrow> (case res of Inr resp \<Rightarrow> (Ok (resp, level_text (at_level a)), w2)
                | Inl err \<Rightarrow> execute_loop e env send as (if at_level a = Retry then n + 1 else n)
                    (if at_level a = Primary \<and> \<not> IsRetryable (Some err) then True else skip) w2))"
  using assms
  by (simp only: execute_loop.simps option.case if_not_P prod.case Let_def) (simp split: option.split sum.split)

text \<open>
  The contract of the environment that the engine runs in: waiting and sending keep an
  invariant of the state. Then so does an execution, and its result can be traced back.
\<close>

locale fallback_client =
  fixes env :: "'w fe_env" and send :: "'w send_fun" and Inv :: "'w \<Rightarrow> bool"
  assumes wait_keeps: "Inv w \<Longrightarrow> Inv (snd (fe_wait env d w))"
    and send_keeps: "Inv w \<Longrightarrow> Inv (snd (send p m w))"
begin

lemma wait_keeps': "Inv w \<Longrightarrow> (if b then fe_wait env d w else (None, w)) = (x, w1) \<Longrightarrow> Inv w1"
  using wait_keeps [of w d] by (auto split: if_splits)

lemma loop_keeps: "Inv w \<Longrightarrow> Inv (snd (execute_loop e env send atts n skip w))"
proof (induction atts arbitrary: n skip w)
  case Nil
  then show ?case by simp
next
  case (Cons a as)
  obtain werr w1 where w1: "(if at_level a = Retry then fe_wait env (BackoffDuration e n) w else (None, w)) = (werr, w1)"
    by fastforce
  obtain res w2 where s: "send (at_provider a) (at_model a) w1 = (res, w2)" by fastforce
  have i: "Inv w1" "Inv w2" using wait_keeps' [OF Cons.prems w1] send_keeps [of w1] s by (auto, metis snd_conv)
  show ?case
  proof (cases "fe_ctxErr env w = None \<and> \<not> (at_level a = Retry \<and> skip)")
    case True
    then show ?thesis using execute_loop_step [where send = send, OF _ _ w1 s] i Cons.IH by (simp split: option.split sum.split)
  next
    case False
    then show ?thesis using Cons by (auto split: option.split)
  qed
qed

lemma loop_result:
  assumes "Inv w" and "execute_loop e env send atts n skip w = (Ok (r, lvl), w')"
  shows "(lvl = exhausted \<and> r = DefaultResponse e) \<or>
     (\<exists>a \<in> set atts. \<exists>w1. Inv w1 \<and> lvl = level_text (at_level a) \<and>
        send (at_provider a) (at_model a) w1 = (Inr r, w'))"
  using assms
proof (induction atts arbitrary: n skip w)
  case Nil
  then show ?case by simp
next
  case (Cons a as)
  have ce: "fe_ctxErr env w = None" using Cons.prems(2) by (auto split: option.splits)
  show ?case
  proof (cases "at_level a = Retry \<and> skip")
    case True
    then show ?thesis using Cons.IH [OF Cons.prems(1)] Cons.prems(2) ce by auto
  next
    case False
    obtain werr w1 where w1: "(if at_level a = Retry then fe_wait env (BackoffDuration e n) w else (None, w)) = (werr, w1)"
      by fastforce
    obtain res w2 where s: "send (at_provider a) (at_model a) w1 = (res, w2)" by fastforce
    note step = Cons.prems(2) [unfolded execute_loop_step [where send = send, OF ce False w1 s]]
    have i: "Inv w1" "Inv w2" using wait_keeps' [OF Cons.prems(1) w1] send_keeps [of w1] s by (auto, metis snd_conv)
    show ?thesis
    proof (cases res)
      case (Inr resp)
      then show ?thesis using step s i by (cases werr) auto
    next
      case (Inl err)
      then show ?thesis using step Cons.IH [OF i(2)] by (cases werr) auto
    qed
  qed
qed

lemma Execute_keeps: "Inv w \<Longrightarrow> Inv (snd (fe_Execute e env p m (Some send) w))"
  by (simp add: fe_Execute_def loop_keeps)

lemma Execute_result:
  assumes "Inv w" and "fe_Execute e env p m (Some send) w = (Ok (r, lvl), w')"
  shows "(lvl = exhausted \<and> r = DefaultResponse e) \<or>
     (\<exists>a \<in> set (fe_Attempts e p m). \<exists>w1. Inv w1 \<and> lvl = level_text (at_level a) \<and>
        send (at_provider a) (at_model a) w1 = (Inr r, w'))"
  using loop_result [OF assms(1)] assms(2) by (simp add: fe_Execute_def)

end

text \<open>An execution never panics, and the only errors it returns are those of the context.\<close>

lemma execute_loop_error:
  assumes "execute_loop e env send atts n skip w = (res, w')"
  shows "res \<noteq> Panic \<and> (res = Err err \<longrightarrow> (\<exists>w. fe_ctxErr env w = Some err) \<or> (\<exists>d w. fst (fe_wait env d w) = Some err))"
  using assms
proof (induction atts arbitrary: n skip w)
  case Nil
  then show ?case by auto
next
  case (Cons a as)
  obtain werr w1 where w1: "(if at_level a = Retry then fe_wait env (BackoffDuration e n) w else (None, w)) = (werr, w1)"
    by fastforce
  have we: "werr = Some e' \<Longrightarrow> \<exists>d w. fst (fe_wait env d w) = Some e'" for e'
    using w1 by (auto split: if_splits) (metis fst_conv)
  show ?case
  proof (cases "fe_ctxErr env w")
    case (Some e')
    then show ?thesis using Cons.prems by auto
  next
    case None
    show ?thesis
    proof (cases "at_level a = Retry \<and> skip")
      case True
      then have "execute_loop e env send as n skip w = (res, w')" using Cons.prems None by simp
      then show ?thesis by (rule Cons.IH)
    next
      case False
      obtain r2 w2 where s: "send (at_provider a) (at_model a) w1 = (r2, w2)" by fastforce
      show ?thesis using Cons.prems Cons.IH we unfolding execute_loop_step [where send = send, OF None False w1 s]
        by (cases werr; cases r2) auto
    qed
  qed
qed

lemma Execute_error:
  assumes "fe_Execute e env p m (Some send) w = (res, w')"
  shows "res \<noteq> Panic \<and> (res = Err err \<longrightarrow> (\<exists>w. fe_ctxErr env w = Some err) \<or> (\<exists>d w. fst (fe_wait env d w) = Some err))"
  by (rule execute_loop_error) (use assms in \<open>simp add: fe_Execute_def\<close>)

end
