(* ===== verification/Json_Roundtrip.thy ===== *)
theory Json_Roundtrip
  imports Json
begin

text \<open>
  The parser of \<^theory_text>\<open>Json\<close> inverts the encoder: on strings that are valid UTF-8,
  numbers that are number literals, and nesting within the limit.
\<close>

section \<open>Runes that decode\<close>

lemma byte_eq_char: "byte c = n \<Longrightarrow> c = char_of n"
  by (auto simp: byte_def)

definition valid_rune :: "nat \<times> string \<Rightarrow> bool" where
  "valid_rune = (\<lambda>(r, bs). \<not> (r = 65533 \<and> length bs = 1))"

definition valid_utf8 :: "string \<Rightarrow> bool" where
  "valid_utf8 s \<longleftrightarrow> list_all valid_rune (runes s)"

text \<open>A rune as the decoder delivers it: its bytes decode to it whatever follows.\<close>

definition rune_ok :: "nat \<times> string \<Rightarrow> bool" where
  "rune_ok = (\<lambda>(r, bs). bs \<noteq> [] \<and> valid_rune (r, bs) \<and> (\<forall>t. decode_rune (bs @ t) = (r, length bs)))"

lemma decode_rune_prefix:
  assumes "decode_rune s = (r, w)" and "s \<noteq> []" and "\<not> (r = 65533 \<and> w = 1)"
  shows "decode_rune (take w s @ t) = (r, w)"
proof -
  obtain c cs where s: "s = c # cs" using assms(2) by (cases s) auto
  show ?thesis using assms(1,3) unfolding s
    by (auto simp: decode_rune.simps(2) Let_def split: prod.splits if_splits list.splits)
qed

lemma valid_utf8_ascii: "\<forall>c \<in> set s. byte c < 128 \<Longrightarrow> valid_utf8 s"
  by (auto simp: valid_utf8_def valid_rune_def runes_ascii list_all_iff)

lemma runes_rune_ok: "valid_utf8 s \<Longrightarrow> x \<in> set (runes s) \<Longrightarrow> rune_ok x"
proof (induction s rule: runes.induct)
  case 1
  then show ?case by simp
next
  case (2 c cs)
  obtain r w where rw: "decode_rune (c # cs) = (r, w)" by fastforce
  then have w: "0 < w" "w \<le> length (c # cs)" using decode_rune_width [of "c # cs"] by simp_all
  have rs: "runes (c # cs) = (r, take w (c # cs)) # runes (drop w (c # cs))"
    by (simp add: runes.simps(2) rw)
  have v: "valid_rune (r, take w (c # cs))" "valid_utf8 (drop w (c # cs))"
    using "2.prems"(1) unfolding valid_utf8_def rs by simp_all
  then have "\<not> (r = 65533 \<and> w = 1)" using w by (simp add: valid_rune_def)
  then have "rune_ok (r, take w (c # cs))"
    using decode_rune_prefix [OF rw] v w by (auto simp: rune_ok_def)
  then show ?case using "2.IH" [OF rw [symmetric] refl v(2)] "2.prems"(2) unfolding rs by auto
qed

lemma decode_rune_ascii: "decode_rune (c # t) = (r, w) \<Longrightarrow> r < 128 \<Longrightarrow> r = byte c \<and> w = 1"
  by (auto simp: decode_rune.simps(2) Let_def cont_def second_range_def split: prod.splits if_splits list.splits)

lemma rune_ok_ascii: "rune_ok (r, bs) \<Longrightarrow> r < 128 \<Longrightarrow> bs = [char_of r]"
proof -
  assume ok: "rune_ok (r, bs)" and r: "r < 128"
  then obtain c cs where bs: "bs = c # cs" by (cases bs) (auto simp: rune_ok_def)
  then have "decode_rune (c # cs) = (r, length bs)" using ok by (auto simp: rune_ok_def dest: spec [of _ "[]"])
  from decode_rune_ascii [OF this r] show ?thesis using bs by (simp add: byte_def)
qed

lemma rune_ok_multi:
  assumes "rune_ok (r, bs)" and "128 \<le> r"
  obtains c cs where "bs = c # cs" and "128 \<le> byte c"
proof -
  obtain c cs where bs: "bs = c # cs" using assms(1) by (cases bs) (auto simp: rune_ok_def)
  then have d: "decode_rune (c # cs) = (r, length bs)" using assms(1) by (auto simp: rune_ok_def dest: spec [of _ "[]"])
  have "128 \<le> byte c"
    using d assms(2) by (cases "byte c < 128") (simp_all add: decode_rune.simps(2) Let_def split: prod.splits)
  then show ?thesis using that bs by blast
qed

section \<open>Strings\<close>

lemma parse_chars_step:
  assumes "parse_char (c # s) = Got x t" and "c \<noteq> quote" and "length t \<le> length s"
  shows "parse_chars (c # s) = pmap (\<lambda>xs. x @ xs) (parse_chars t)"
  using assms by (subst parse_chars.simps) (simp add: less_Suc_eq_le)

lemma parse_chars_raw:
  assumes "rune_ok (r, c # cs)" and "c \<noteq> quote" and "c \<noteq> bslash" and "32 \<le> byte c"
  shows "parse_chars ((c # cs) @ t) = pmap (\<lambda>xs. (c # cs) @ xs) (parse_chars t)"
proof -
  have "decode_rune (c # cs @ t) = (r, length (c # cs))" and "\<not> (r = 65533 \<and> length (c # cs) = 1)"
    using assms(1) by (auto simp: rune_ok_def valid_rune_def)
  then have "parse_char (c # cs @ t) = Got (c # cs) t"
    using assms(3,4) by (auto simp: parse_char_def Let_def)
  from parse_chars_step [OF this assms(2)] show ?thesis by simp
qed

lemma hex_digit_value: "n < 16 \<Longrightarrow> hex_value (hex_digit n) = Some n"
  by (auto simp: hex_digit_def Let_def)

lemma parse_hex_four:
  assumes "hex_value a = Some i" "hex_value b = Some j" "hex_value c = Some k" "hex_value d = Some l"
  shows "parse_hex 4 0 (a # b # c # d # t) = Got (16 * (16 * (16 * i + j) + k) + l) t"
proof -
  have "(4::nat) = Suc (Suc (Suc (Suc 0)))" by simp
  then show ?thesis using assms by (simp only: parse_hex.simps option.case mult_0_right add_0)
qed

lemma parse_hex_00: "n < 256 \<Longrightarrow>
    parse_hex 4 0 (CHR ''0'' # CHR ''0'' # hex_digit (n div 16) # hex_digit (n mod 16) # t) = Got n t"
proof -
  assume n: "n < 256"
  have z: "hex_value (CHR ''0'') = Some 0" by (simp add: byte_def)
  have "n div 16 < 16" using n by simp
  then show ?thesis
    by (subst parse_hex_four [OF z z hex_digit_value hex_digit_value]) simp_all
qed

lemma parse_chars_escape:
  assumes "parse_escape s = Got x t" and "length t \<le> length s"
  shows "parse_chars (bslash # s) = pmap (\<lambda>xs. x @ xs) (parse_chars t)"
  by (rule parse_chars_step) (use assms in \<open>simp_all add: parse_char_def\<close>)

lemma parse_chars_esc_byte:
  assumes "b < 128"
  shows "parse_chars (esc_byte b @ t) = pmap (\<lambda>xs. char_of b # xs) (parse_chars t)"
proof -
  let ?c = "char_of b :: char"
  have bc: "byte ?c = b" using assms by simp
  have eq: "?c = c \<longleftrightarrow> b = byte c" for c using bc by (auto simp: byte_def)
  consider (q) "b = 34 \<or> b = 92" | (short) "b \<in> {8, 9, 10, 12, 13}"
    | (u) "b < 32 \<or> b = 60 \<or> b = 62 \<or> b = 38" "b \<notin> {8, 9, 10, 12, 13}" "b \<noteq> 34" "b \<noteq> 92"
    | (raw) "32 \<le> b" "b \<notin> {34, 92, 60, 62, 38}"
    by force
  then show ?thesis
  proof cases
    case q
    then have "esc_byte b = [bslash, ?c]" by (auto simp: esc_byte_def)
    moreover have "?c = quote \<or> ?c = bslash" using q unfolding eq by (auto simp: byte_def)
    then have "parse_escape (?c # t) = Got [?c] t" by (auto simp: parse_escape_def)
    ultimately show ?thesis using parse_chars_escape by simp
  next
    case short
    then obtain e where "esc_byte b = [bslash, e]" and "parse_escape (e # t) = Got [?c] t"
      by (auto simp: esc_byte_def parse_escape_def)
    then show ?thesis using parse_chars_escape by simp
  next
    case u
    then have "esc_byte b = [bslash, CHR ''u'', CHR ''0'', CHR ''0'', hex_digit (b div 16), hex_digit (b mod 16)]"
      by (auto simp: esc_byte_def)
    moreover have "parse_escape (CHR ''u'' # CHR ''0'' # CHR ''0'' # hex_digit (b div 16) # hex_digit (b mod 16) # t) = Got [?c] t"
      using assms parse_hex_00 [of b t] by (simp add: parse_escape_def parse_u_def encode_rune_def)
    ultimately show ?thesis using parse_chars_escape by simp
  next
    case raw
    have "rune_ok (b, [?c])"
      using assms by (auto simp: rune_ok_def valid_rune_def decode_rune.simps(2) Let_def split: prod.splits)
    moreover have "esc_byte b = [?c]" using raw by (auto simp: esc_byte_def)
    moreover have "?c \<noteq> quote" "?c \<noteq> bslash" using raw by (simp_all add: eq byte_def)
    ultimately show ?thesis using parse_chars_raw [of b ?c "[]" t] raw bc by simp
  qed
qed

text \<open>The two line separators that the encoder escapes.\<close>

lemma decode_separator:
  assumes "rune_ok (r, bs)" and "r = 8232 \<or> r = 8233"
  shows "bs = encode_rune r"
proof -
  obtain c cs where bs: "bs = c # cs" using assms(1) by (cases bs) (auto simp: rune_ok_def)
  have d: "decode_rune (c # cs) = (r, length (c # cs))"
    using assms(1) bs by (auto simp: rune_ok_def dest: spec [of _ "[]"])
  obtain c1 c2 where cs: "cs = [c1, c2]" and b: "224 \<le> byte c" "byte c \<le> 239"
      "128 \<le> byte c1" "byte c1 \<le> 191" "128 \<le> byte c2" "byte c2 \<le> 191"
    and r: "r = (byte c - 224) * 4096 + (byte c1 - 128) * 64 + (byte c2 - 128)"
    using d assms(2)
    by (auto simp: decode_rune.simps(2) Let_def cont_def second_range_def length_Suc_conv
        split: prod.splits if_splits list.splits)
  obtain i where i0: "byte c = 224 + i" using b(1) le_Suc_ex by blast
  obtain j where j0: "byte c1 = 128 + j" using b(3) le_Suc_ex by blast
  obtain k where k0: "byte c2 = 128 + k" using b(5) le_Suc_ex by blast
  have i: "byte c = 224 + i" "byte c1 = 128 + j" "byte c2 = 128 + k" "j \<le> 63" "k \<le> 63"
    using b i0 j0 k0 by simp_all
  then have "r = i * 4096 + j * 64 + k" using r by simp
  then have "i = 2" using assms(2) i(4,5) by linarith
  then have "j = 0" using \<open>r = i * 4096 + j * 64 + k\<close> assms(2) by linarith
  then have "byte c = 226" "byte c1 = 128" "byte c2 = r - 8232 + 168"
    using i \<open>i = 2\<close> \<open>r = i * 4096 + j * 64 + k\<close> assms(2) by auto
  then have "c = char_of (226::nat)" "c1 = char_of (128::nat)" "c2 = char_of (r - 8232 + 168)"
    by (simp_all only: byte_eq_char)
  then show ?thesis using assms(2) by (auto simp: bs cs encode_rune_def)
qed

lemma parse_chars_esc_rune:
  assumes "rune_ok (r, bs)"
  shows "parse_chars (esc_rune (r, bs) @ t) = pmap (\<lambda>xs. bs @ xs) (parse_chars t)"
proof -
  consider (ascii) "r < 128" | (sep) "r = 8232 \<or> r = 8233" | (raw) "128 \<le> r" "r \<noteq> 8232" "r \<noteq> 8233" by linarith
  then show ?thesis
  proof cases
    case ascii
    then show ?thesis using parse_chars_esc_byte [of r t] rune_ok_ascii [OF assms] by (simp add: esc_rune_def)
  next
    case sep
    then have bs: "bs = encode_rune r" using decode_separator [OF assms] by blast
    have hv: "hex_value (CHR ''2'') = Some 2" "hex_value (CHR ''0'') = Some 0"
      "hex_value (CHR ''8'') = Some 8" "hex_value (CHR ''9'') = Some 9" by (simp_all add: byte_def)
    then have "parse_hex 4 0 (''2028'' @ t) = Got 8232 t" "parse_hex 4 0 (''2029'' @ t) = Got 8233 t"
      using parse_hex_four [OF hv(1,2,1,3), of t] parse_hex_four [OF hv(1,2,1,4), of t] by simp_all
    then have "parse_escape (''u2028'' @ t) = Got (encode_rune 8232) t" "parse_escape (''u2029'' @ t) = Got (encode_rune 8233) t"
      by (simp_all add: parse_escape_def parse_u_def)
    then show ?thesis using sep bs parse_chars_escape [of "''u2028'' @ t"] parse_chars_escape [of "''u2029'' @ t"]
      by (auto simp: esc_rune_def)
  next
    case raw
    then obtain c cs where bs: "bs = c # cs" "128 \<le> byte c" using rune_ok_multi [OF assms] by metis
    then have "c \<noteq> quote" "c \<noteq> bslash" "32 \<le> byte c" by (auto simp: byte_def)
    moreover have "esc_rune (r, bs) = bs"
      using raw assms by (auto simp: esc_rune_def rune_ok_def valid_rune_def)
    ultimately show ?thesis using parse_chars_raw assms bs by simp
  qed
qed

lemma parse_chars_quote: "parse_chars (quote # t) = Got [] t"
  by (subst parse_chars.simps) simp

lemma pmap_pmap: "pmap f (pmap g p) = pmap (\<lambda>x. f (g x)) p"
  by (cases p) auto

lemma parse_chars_runes:
  "\<forall>x \<in> set rs. rune_ok x \<Longrightarrow>
   parse_chars (concat (map esc_rune rs) @ quote # t) = Got (concat (map snd rs)) t"
proof (induction rs)
  case Nil
  then show ?case by (simp add: parse_chars_quote)
next
  case (Cons x rs)
  obtain r bs where x: "x = (r, bs)" by fastforce
  then show ?case
    using Cons parse_chars_esc_rune [of r bs "concat (map esc_rune rs) @ quote # t"] by simp
qed

lemma parse_encode_string:
  assumes "valid_utf8 s" shows "parse_chars (tl (encode_string s) @ t) = Got s t"
  using parse_chars_runes [of "runes s" t] runes_rune_ok [OF assms] by (simp add: encode_string_def concat_runes)

lemma encode_string_Cons: "encode_string s = quote # tl (encode_string s)"
  by (simp add: encode_string_def)

lemma encode_string_parses:
  assumes "valid_utf8 s"
  obtains u where "encode_string s = quote # u" and "\<And>t. parse_chars (u @ t) = Got s t"
  using parse_encode_string [OF assms] encode_string_Cons by blast

section \<open>Numbers\<close>

text \<open>What may follow a number without extending it.\<close>

definition number_stop :: "string \<Rightarrow> bool" where
  "number_stop r \<longleftrightarrow> (case r of [] \<Rightarrow> True
     | c # _ \<Rightarrow> \<not> is_digit c \<and> c \<noteq> CHR ''.'' \<and> c \<noteq> CHR ''e'' \<and> c \<noteq> CHR ''E'')"

definition number_lit :: "string \<Rightarrow> bool" where
  "number_lit lit \<longleftrightarrow> lex_number lit = Got lit []"

lemma lex_digits_append:
  assumes "lex_digits s = Got ds r" and "number_stop t"
  shows "lex_digits (s @ t) = Got ds (r @ t)"
proof (cases "r = []")
  case True
  then have "\<forall>c \<in> set s. is_digit c" using assms(1)
    by (auto simp: lex_digits_def Let_def dropWhile_eq_Nil_conv split: if_splits)
  then show ?thesis using assms True
    by (cases t) (auto simp: lex_digits_def Let_def number_stop_def takeWhile_append dropWhile_append
        takeWhile_eq_all_conv [THEN iffD2] split: if_splits)
next
  case False
  then have "\<exists>c \<in> set s. \<not> is_digit c" using assms(1)
    by (auto simp: lex_digits_def Let_def split: if_splits)
  then show ?thesis using assms False
    by (auto simp: lex_digits_def Let_def takeWhile_append1 dropWhile_append1 split: if_splits)
qed

lemma pmap_Got: "pmap f p = Got y r \<longleftrightarrow> (\<exists>x. p = Got x r \<and> y = f x)"
  by (cases p) auto

lemma pbind_Got: "pbind p f = Got y r \<longleftrightarrow> (\<exists>x r'. p = Got x r' \<and> f x r' = Got y r)"
  by (cases p) auto

lemma lex_int_append: "lex_int s = Got x r \<Longrightarrow> number_stop t \<Longrightarrow> lex_int (s @ t) = Got x (r @ t)"
  using lex_digits_append [of s x r t]
  by (auto simp: lex_int_def split: list.splits if_splits)

lemma lex_frac_append: "lex_frac s = Got x r \<Longrightarrow> number_stop t \<Longrightarrow> lex_frac (s @ t) = Got x (r @ t)"
  using lex_digits_append [of "tl s" _ r t]
  by (cases s; cases t) (auto simp: lex_frac_def number_stop_def pmap_Got split: if_splits)

lemma lex_exp_append: "lex_exp s = Got x r \<Longrightarrow> number_stop t \<Longrightarrow> lex_exp (s @ t) = Got x (r @ t)"
  using lex_digits_append [of "tl s" _ r t] lex_digits_append [of "tl (tl s)" _ r t]
  by (cases s; cases t) (auto simp: lex_exp_def number_stop_def pmap_Got split: if_splits list.splits)

lemma lex_number_append:
  assumes "number_lit lit" and "number_stop t"
  shows "lex_number (lit @ t) = Got lit t"
proof -
  obtain sign s where s: "(case lit of c # t \<Rightarrow> if c = CHR ''-'' then ([c], t) else ([], lit) | [] \<Rightarrow> ([], lit)) = (sign, s)"
    by fastforce
  then have lit: "lit = sign @ s" by (auto split: list.splits if_splits)
  obtain i f x r1 r2 where l: "lex_int s = Got i r1" "lex_frac r1 = Got f r2" "lex_exp r2 = Got x []"
      "sign @ i @ f @ x = lit"
    using assms(1) s by (auto simp: number_lit_def lex_number_def pbind_Got)
  have "s \<noteq> []" using l(1) by (auto simp: lex_int_def)
  then have s2: "(case lit @ t of c # u \<Rightarrow> if c = CHR ''-'' then ([c], u) else ([], lit @ t) | [] \<Rightarrow> ([], lit @ t)) = (sign, s @ t)"
    using s by (auto split: list.splits if_splits)
  show ?thesis
    using lex_int_append [OF l(1) assms(2)] lex_frac_append [OF l(2) assms(2)] lex_exp_append [OF l(3) assms(2)] l(4)
    by (simp add: lex_number_def s2)
qed

lemma number_lit_head:
  assumes "number_lit lit"
  obtains c r where "lit = c # r" and "c = CHR ''-'' \<or> is_digit c"
proof -
  have "lit \<noteq> []" using assms by (auto simp: number_lit_def lex_number_def lex_int_def)
  then obtain c r where lit: "lit = c # r" by (cases lit) auto
  have "c = CHR ''-'' \<or> is_digit c"
    using assms unfolding lit number_lit_def
    by (auto simp: lex_number_def lex_int_def lex_digits_def Let_def pbind_Got is_digit_def byte_def split: if_splits)
  then show ?thesis using that lit by blast
qed

section \<open>Values\<close>

fun depth :: "json \<Rightarrow> nat" where
  "depth (JArr xs) = Suc (foldr max (map depth xs) 0)"
| "depth (JObj ms) = Suc (foldr max (map (\<lambda>(k, v). depth v) ms) 0)"
| "depth _ = 0"

fun json_ok :: "json \<Rightarrow> bool" where
  "json_ok (JNum lit) = number_lit lit"
| "json_ok (JStr s) = valid_utf8 s"
| "json_ok (JArr xs) = list_all json_ok xs"
| "json_ok (JObj ms) = list_all (\<lambda>(k, v). valid_utf8 k \<and> json_ok v) ms"
| "json_ok _ = True"

lemma depth_le_foldr: "x \<in> set xs \<Longrightarrow> f x \<le> foldr max (map f xs) (0::nat)"
  by (induction xs) auto

text \<open>The first character of an encoded value.\<close>

lemma encode_head:
  assumes "json_ok j"
  obtains c t where "encode j = c # t" and "\<not> is_ws c" and "c \<noteq> CHR '']''" and "c \<noteq> CHR ''}''"
proof (cases j)
  case (JNum lit)
  then obtain c r where "lit = c # r" "c = CHR ''-'' \<or> is_digit c" using assms number_lit_head by auto
  moreover from this have "\<not> is_ws c" "c \<noteq> CHR '']''" "c \<noteq> CHR ''}''"
    by (auto simp: is_ws_def is_digit_def byte_def)
  ultimately show ?thesis using that [of c r] JNum by simp
next
  case (JStr s)
  then show ?thesis using that [of quote "tl (encode_string s)"] encode_string_Cons [of s]
    by (simp add: is_ws_def byte_def)
next
  case JNull
  then show ?thesis using that [of "CHR ''n''" "''ull''"] by (simp add: is_ws_def byte_def)
next
  case (JBool b)
  then show ?thesis
    using that [of "CHR ''t''" "''rue''"] that [of "CHR ''f''" "''alse''"]
    by (cases b) (simp_all add: is_ws_def byte_def)
next
  case (JArr xs)
  then show ?thesis using that [of "CHR ''[''"] by (simp add: is_ws_def byte_def)
next
  case (JObj ms)
  then show ?thesis using that [of "CHR ''{''"] by (simp add: is_ws_def byte_def)
qed

lemma skip_ws_encode: "json_ok j \<Longrightarrow> skip_ws (encode j @ t) = encode j @ t"
  by (erule encode_head) (simp add: skip_ws_def)

lemma skip_ws_Cons [simp]: "\<not> is_ws c \<Longrightarrow> skip_ws (c # t) = c # t"
  by (simp add: skip_ws_def)

lemma not_ws [simp]: "\<not> is_ws quote" "\<not> is_ws (CHR '','')" "\<not> is_ws (CHR '':'')"
  "\<not> is_ws (CHR ''['')" "\<not> is_ws (CHR '']'')" "\<not> is_ws (CHR ''{'')" "\<not> is_ws (CHR ''}'')"
  by (simp_all add: is_ws_def byte_def)

lemma number_stop_simps [simp]: "number_stop []" "number_stop (CHR '','' # t)" "number_stop (CHR '']'' # t)"
  "number_stop (CHR ''}'' # t)" "is_ws c \<Longrightarrow> number_stop (c # t)"
  by (auto simp: number_stop_def is_digit_def is_ws_def byte_def)

definition parses :: "nat \<Rightarrow> json \<Rightarrow> bool" where
  "parses d j \<longleftrightarrow> json_ok j \<and> (\<forall>t. number_stop t \<longrightarrow> parse_value d (encode j @ t) = Got j t)"

lemma parse_elems_encode:
  assumes "\<forall>x \<in> set (x # xs). parses d x"
  shows "parse_elems d (join '','' (map encode (x # xs)) @ CHR '']'' # t) = Got (x # xs) t"
  using assms
proof (induction xs arbitrary: x)
  case Nil
  then show ?case by (subst parse_elems.simps) (simp add: parses_def)
next
  case (Cons y ys)
  then show ?case by (subst parse_elems.simps) (simp add: parses_def)
qed

lemma parse_members_encode:
  assumes "\<forall>m \<in> set (m # ms). valid_utf8 (fst m) \<and> parses d (snd m)"
  shows "parse_members d (join '','' (map (\<lambda>(k, v). encode_string k @ '':'' @ encode v) (m # ms)) @ CHR ''}'' # t) =
         Got (m # ms) t"
  using assms
proof (induction ms arbitrary: m)
  case Nil
  obtain k v where m: "m = (k, v)" by fastforce
  obtain u where "encode_string k = quote # u" "\<And>t. parse_chars (u @ t) = Got k t"
    using encode_string_parses [of k] Nil m by auto
  then show ?case using Nil unfolding m
    by (subst parse_members.simps) (simp add: parses_def)
next
  case (Cons m2 ms)
  obtain k v where m: "m = (k, v)" by fastforce
  obtain u where "encode_string k = quote # u" "\<And>t. parse_chars (u @ t) = Got k t"
    using encode_string_parses [of k] Cons.prems m by auto
  then show ?case using Cons unfolding m
    by (subst parse_members.simps) (simp add: parses_def)
qed

lemma array_parses:
  assumes "json_ok (JArr xs)" and "\<forall>x \<in> set xs. parses d x"
  shows "parses (Suc d) (JArr xs)"
proof (cases xs)
  case Nil
  then show ?thesis by (simp add: parses_def parse_value.simps)
next
  case (Cons y ys)
  have ok: "json_ok y" using assms(1) Cons by simp
  then obtain c u where y: "encode y = c # u" "\<not> is_ws c" "c \<noteq> CHR '']''" by (rule encode_head)
  have "\<exists>v. join '','' (map encode xs) = c # v"
    unfolding Cons using y by (cases ys) auto
  then show ?thesis using parse_elems_encode [of y ys d] assms y unfolding parses_def
    by (auto simp: parse_value.simps [of "Suc _"] Cons [symmetric])
qed

lemma object_parses:
  assumes "json_ok (JObj ms)" and "\<forall>m \<in> set ms. valid_utf8 (fst m) \<and> parses d (snd m)"
  shows "parses (Suc d) (JObj ms)"
proof (cases ms)
  case Nil
  then show ?thesis by (simp add: parses_def parse_value.simps)
next
  case (Cons m rest)
  have "\<exists>v. join '','' (map (\<lambda>(k, v). encode_string k @ '':'' @ encode v) ms) = quote # v"
    unfolding Cons by (cases m; cases rest) (auto simp: encode_string_def)
  then show ?thesis using parse_members_encode [of m rest d] assms unfolding parses_def
    by (auto simp: parse_value.simps [of "Suc _"] Cons [symmetric])
qed

lemma parse_value_encode: "json_ok j \<Longrightarrow> depth j \<le> d \<Longrightarrow> parses d j"
proof (induction j arbitrary: d)
  case JNull
  show ?case by (simp add: parses_def parse_value.simps is_ws_def byte_def)
next
  case (JBool b)
  show ?case by (cases b) (simp_all add: parses_def parse_value.simps is_ws_def byte_def)
next
  case (JNum lit)
  then obtain c r where lit: "lit = c # r" "c = CHR ''-'' \<or> is_digit c" using number_lit_head by auto
  then have "\<not> is_ws c" "c \<noteq> quote" "c \<noteq> CHR ''[''" "c \<noteq> CHR ''{''" "c \<noteq> CHR ''t''" "c \<noteq> CHR ''f''" "c \<noteq> CHR ''n''"
    by (auto simp: is_ws_def is_digit_def byte_def)
  then show ?case using JNum lex_number_append [of lit] lit
    by (auto simp: parses_def parse_value.simps)
next
  case (JStr s)
  then obtain u where "encode_string s = quote # u" "\<And>t. parse_chars (u @ t) = Got s t"
    using encode_string_parses [of s] by auto
  then show ?case using JStr by (simp add: parses_def parse_value.simps [of d])
next
  case (JArr xs)
  then obtain d' where d: "d = Suc d'" by (cases d) auto
  have all: "\<forall>x \<in> set xs. parses d' x"
    using JArr depth_le_foldr [of _ xs depth] unfolding d by (fastforce simp: list_all_iff)
  then show ?case unfolding d by (rule array_parses [OF JArr.prems(1)])
next
  case (JObj ms)
  then obtain d' where d: "d = Suc d'" by (cases d) auto
  have all: "\<forall>m \<in> set ms. valid_utf8 (fst m) \<and> parses d' (snd m)"
    using JObj depth_le_foldr [of _ ms "\<lambda>(k, v). depth v"] unfolding d by (fastforce simp: list_all_iff)
  then show ?case unfolding d by (rule object_parses [OF JObj.prems(1)])
qed

lemma parse_document_encode:
  assumes "json_ok j" and "depth j \<le> maxNestingDepth" and "\<forall>c \<in> set t. is_ws c"
  shows "parse_document (encode j @ t) = Inr j"
proof -
  have "number_stop t" using assms(3) by (cases t) simp_all
  then have "parse_value maxNestingDepth (encode j @ t) = Got j t"
    using parse_value_encode [OF assms(1,2)] by (simp add: parses_def)
  moreover have "skip_ws t = []" using assms(3) by (simp add: skip_ws_def)
  ultimately show ?thesis by (simp add: parse_document_def)
qed

text \<open>
  Encoding is lossless: a document that encodes a value, with white space after it, parses
  to that value, for every value whose strings are valid UTF-8, whose numbers are number
  literals and whose nesting is within the limit of the parser.
\<close>

theorem parse_encode:
  assumes "json_ok j" and "depth j \<le> maxNestingDepth" and "\<forall>c \<in> set t. is_ws c"
  shows "parse_document (encode j @ t) = Inr j"
  using assms by (rule parse_document_encode)

theorem parse_encode_witness:
  "parse_document (encode (JObj [(''a'', JArr [JNum ''-1.5e3'', JStr ''<x>'']), (''b'', JNull)]) @ ''  '') =
     Inr (JObj [(''a'', JArr [JNum ''-1.5e3'', JStr ''<x>'']), (''b'', JNull)])"
proof (rule parse_encode)
  have "valid_utf8 ''<x>''" "valid_utf8 ''a''" "valid_utf8 ''b''"
    by (simp_all add: valid_utf8_ascii byte_def)
  moreover have "number_lit ''-1.5e3''"
    by (simp add: number_lit_def lex_number_def lex_int_def lex_frac_def lex_exp_def lex_digits_def is_digit_def byte_def)
  ultimately show "json_ok (JObj [(''a'', JArr [JNum ''-1.5e3'', JStr ''<x>'']), (''b'', JNull)])" by simp
qed (simp_all add: maxNestingDepth_def is_ws_def byte_def)

end
