(* ===== verification/Json_Codec.thy ===== *)
theory Json_Codec
  imports Json_Roundtrip Gateway_Model
begin

text \<open>
  How the structures of \<^verbatim>\<open>internal/model\<close> are written as JSON and read back, by the
  rules of \<^verbatim>\<open>encoding/json\<close>: fields that are omitted when empty, member names matched
  without regard to case, later members overriding earlier ones, null leaving a field as it
  is, and a value of the wrong type failing the whole document.
\<close>

section \<open>Reading\<close>

text \<open>A decoder stores a JSON value into a variable that already has a value.\<close>

type_synonym 'a decoder = "json \<Rightarrow> 'a \<Rightarrow> 'a option"

text \<open>\<^verbatim>\<open>foldName\<close>, on the runes that fold to ASCII letters.\<close>

definition fold_name :: "string \<Rightarrow> nat list" where
  "fold_name s = map (\<lambda>(r, bs). if 97 \<le> r \<and> r \<le> 122 then r - 32
     else if r = 8490 then 75 else if r = 383 then 83 else r) (runes s)"

definition field_is :: "string \<Rightarrow> string \<Rightarrow> bool" where
  "field_is name key \<longleftrightarrow> fold_name key = fold_name name"

fun dec_string :: "string decoder" where
  "dec_string JNull x = Some x"
| "dec_string (JStr s) x = Some s"
| "dec_string _ x = None"

fun dec_bool :: "bool decoder" where
  "dec_bool JNull x = Some x"
| "dec_bool (JBool b) x = Some b"
| "dec_bool _ x = None"

fun dec_int :: "int decoder" where
  "dec_int JNull x = Some x"
| "dec_int (JNum lit) x = atoi lit"
| "dec_int _ x = None"

text \<open>
  The double nearest to a decimal literal; \<open>None\<close> where it overflows. The digits before and
  after the point make one number, scaled by a power of ten.
\<close>

definition exponent_of :: "string \<Rightarrow> int" where
  "exponent_of s =
     (case s of [] \<Rightarrow> 0
      | c # r \<Rightarrow>
          (case r of [] \<Rightarrow> 0
           | d # r2 \<Rightarrow>
               if d = CHR ''-'' then - int (the (digits_value r2 0))
               else if d = CHR ''+'' then int (the (digits_value r2 0))
               else int (the (digits_value r 0))))"

definition scale_ten :: "bool \<Rightarrow> nat \<Rightarrow> int \<Rightarrow> f64" where
  "scale_ten s n x = (if 0 \<le> x then f64_round s (n * 10 ^ nat x) 1 0 else f64_round s n (10 ^ nat (- x)) 0)"

definition parse_float :: "string \<Rightarrow> f64 option" where
  "parse_float lit =
     (let (sign, r) = (case lit of c # t \<Rightarrow> if c = CHR ''-'' then (True, t) else (False, lit) | [] \<Rightarrow> (False, lit));
          ip = takeWhile is_digit r; r = dropWhile is_digit r;
          (fp, r) = (case r of c # t \<Rightarrow> if c = CHR ''.'' then (takeWhile is_digit t, dropWhile is_digit t) else ([], r)
                     | [] \<Rightarrow> ([], r));
          v = scale_ten sign (the (digits_value (ip @ fp) 0)) (exponent_of r - int (length fp))
      in if is_fin v then Some v else None)"

fun dec_float :: "f64 decoder" where
  "dec_float JNull x = Some x"
| "dec_float (JNum lit) x = parse_float lit"
| "dec_float _ x = None"

definition dec_pointer :: "'a \<Rightarrow> 'a decoder \<Rightarrow> 'a option decoder" where
  "dec_pointer z dec v x =
     (case v of JNull \<Rightarrow> Some None
      | _ \<Rightarrow> map_option Some (dec v (case x of None \<Rightarrow> z | Some y \<Rightarrow> y)))"

text \<open>The elements of an array are stored into those that the slice already has.\<close>

fun dec_elems :: "'a \<Rightarrow> 'a decoder \<Rightarrow> json list \<Rightarrow> 'a list \<Rightarrow> 'a list option" where
  "dec_elems z dec [] xs = Some []"
| "dec_elems z dec (v # vs) xs =
     (case dec v (case xs of [] \<Rightarrow> z | x # _ \<Rightarrow> x) of
        None \<Rightarrow> None
      | Some y \<Rightarrow> map_option (Cons y) (dec_elems z dec vs (case xs of [] \<Rightarrow> [] | _ # r \<Rightarrow> r)))"

definition dec_slice :: "'a \<Rightarrow> 'a decoder \<Rightarrow> 'a list option decoder" where
  "dec_slice z dec v xs =
     (case v of JNull \<Rightarrow> Some None
      | JArr vs \<Rightarrow> map_option Some (dec_elems z dec vs (case xs of None \<Rightarrow> [] | Some ys \<Rightarrow> ys))
      | _ \<Rightarrow> None)"

fun dec_members :: "(string \<Rightarrow> json \<Rightarrow> 'a \<Rightarrow> 'a option) \<Rightarrow> (string \<times> json) list \<Rightarrow> 'a \<Rightarrow> 'a option" where
  "dec_members f [] x = Some x"
| "dec_members f ((k, v) # ms) x = (case f k v x of None \<Rightarrow> None | Some y \<Rightarrow> dec_members f ms y)"

definition dec_struct :: "(string \<Rightarrow> json \<Rightarrow> 'a \<Rightarrow> 'a option) \<Rightarrow> 'a decoder" where
  "dec_struct f v x = (case v of JNull \<Rightarrow> Some x | JObj ms \<Rightarrow> dec_members f ms x | _ \<Rightarrow> None)"

definition dec_string_map :: "(string \<rightharpoonup> string) decoder" where
  "dec_string_map v m =
     (case v of JNull \<Rightarrow> Some Map.empty
      | JObj ms \<Rightarrow> dec_members (\<lambda>k v m. map_option (\<lambda>s. m(k \<mapsto> s)) (dec_string v '''')) ms m
      | _ \<Rightarrow> None)"

section \<open>Requests and responses\<close>

definition zero_message :: Message where
  "zero_message = \<lparr>msg_role = '''', msg_content = ''''\<rparr>"

definition dec_Message :: "Message decoder" where
  "dec_Message = dec_struct (\<lambda>k v m.
     if field_is ''role'' k then map_option (\<lambda>s. m\<lparr>msg_role := s\<rparr>) (dec_string v (msg_role m))
     else if field_is ''content'' k then map_option (\<lambda>s. m\<lparr>msg_content := s\<rparr>) (dec_string v (msg_content m))
     else Some m)"

definition zero_request :: StandardRequest where
  "zero_request = \<lparr>req_id = '''', req_model = '''', req_messages = [], req_stream = False,
     req_temperature = None, req_maxTokens = None, req_taskType = '''', req_metadata = Map.empty\<rparr>"

definition dec_StandardRequest :: "StandardRequest decoder" where
  "dec_StandardRequest = dec_struct (\<lambda>k v r.
     if field_is ''request_id'' k then map_option (\<lambda>s. r\<lparr>req_id := s\<rparr>) (dec_string v (req_id r))
     else if field_is ''model'' k then map_option (\<lambda>s. r\<lparr>req_model := s\<rparr>) (dec_string v (req_model r))
     else if field_is ''messages'' k then
       map_option (\<lambda>ms. r\<lparr>req_messages := (case ms of None \<Rightarrow> [] | Some ms \<Rightarrow> ms)\<rparr>)
         (dec_slice zero_message dec_Message v (Some (req_messages r)))
     else if field_is ''stream'' k then map_option (\<lambda>b. r\<lparr>req_stream := b\<rparr>) (dec_bool v (req_stream r))
     else if field_is ''temperature'' k then
       map_option (\<lambda>t. r\<lparr>req_temperature := t\<rparr>) (dec_pointer fzero dec_float v (req_temperature r))
     else if field_is ''max_tokens'' k then
       map_option (\<lambda>n. r\<lparr>req_maxTokens := n\<rparr>) (dec_pointer 0 dec_int v (req_maxTokens r))
     else if field_is ''task_type'' k then map_option (\<lambda>s. r\<lparr>req_taskType := s\<rparr>) (dec_string v (req_taskType r))
     else if field_is ''metadata'' k then map_option (\<lambda>m. r\<lparr>req_metadata := m\<rparr>) (dec_string_map v (req_metadata r))
     else Some r)"

definition dec_Choice :: "Choice decoder" where
  "dec_Choice = dec_struct (\<lambda>k v c.
     if field_is ''index'' k then map_option (\<lambda>n. c\<lparr>ch_index := n\<rparr>) (dec_int v (ch_index c))
     else if field_is ''message'' k then map_option (\<lambda>m. c\<lparr>ch_message := m\<rparr>) (dec_Message v (ch_message c))
     else if field_is ''finish_reason'' k then map_option (\<lambda>s. c\<lparr>ch_finish := s\<rparr>) (dec_string v (ch_finish c))
     else Some c)"

definition zero_choice :: Choice where
  "zero_choice = \<lparr>ch_index = 0, ch_message = zero_message, ch_finish = ''''\<rparr>"

definition dec_Usage :: "Usage decoder" where
  "dec_Usage = dec_struct (\<lambda>k v u.
     if field_is ''prompt_tokens'' k then map_option (\<lambda>n. u\<lparr>us_prompt := n\<rparr>) (dec_int v (us_prompt u))
     else if field_is ''completion_tokens'' k then map_option (\<lambda>n. u\<lparr>us_completion := n\<rparr>) (dec_int v (us_completion u))
     else if field_is ''total_tokens'' k then map_option (\<lambda>n. u\<lparr>us_total := n\<rparr>) (dec_int v (us_total u))
     else Some u)"

definition dec_StandardResponse :: "StandardResponse decoder" where
  "dec_StandardResponse = dec_struct (\<lambda>k v r.
     if field_is ''id'' k then map_option (\<lambda>s. r\<lparr>rs_id := s\<rparr>) (dec_string v (rs_id r))
     else if field_is ''model'' k then map_option (\<lambda>s. r\<lparr>rs_model := s\<rparr>) (dec_string v (rs_model r))
     else if field_is ''provider'' k then map_option (\<lambda>s. r\<lparr>rs_provider := s\<rparr>) (dec_string v (rs_provider r))
     else if field_is ''choices'' k then
       map_option (\<lambda>cs. r\<lparr>rs_choices := cs\<rparr>) (dec_slice zero_choice dec_Choice v (rs_choices r))
     else if field_is ''usage'' k then map_option (\<lambda>u. r\<lparr>rs_usage := u\<rparr>) (dec_Usage v (rs_usage r))
     else if field_is ''cache_hit'' k then map_option (\<lambda>b. r\<lparr>rs_cacheHit := b\<rparr>) (dec_bool v (rs_cacheHit r))
     else Some r)"

text \<open>\<^verbatim>\<open>json.Unmarshal\<close> and \<^verbatim>\<open>Decoder.Decode\<close> into a zero value.\<close>

definition decode_with :: "'a decoder \<Rightarrow> 'a \<Rightarrow> json_error + json \<Rightarrow> json_error + 'a" where
  "decode_with dec z p =
     (case p of Inl e \<Rightarrow> Inl e
      | Inr v \<Rightarrow> (case dec v z of None \<Rightarrow> Inl ErrType | Some x \<Rightarrow> Inr x))"

definition ParseStandardRequest :: "string \<Rightarrow> json_error + StandardRequest" where
  "ParseStandardRequest data = decode_with dec_StandardRequest zero_request (parse_document data)"

definition unmarshal_response :: "string \<Rightarrow> json_error + StandardResponse" where
  "unmarshal_response data = decode_with dec_StandardResponse zero_response (parse_document data)"

section \<open>Writing\<close>

definition omit_empty :: "string \<Rightarrow> string \<Rightarrow> (string \<times> json) list" where
  "omit_empty name s = (if s = '''' then [] else [(name, JStr s)])"

definition enc_Message :: "Message \<Rightarrow> json" where
  "enc_Message m = JObj [(''role'', JStr (msg_role m)), (''content'', JStr (msg_content m))]"

definition enc_Choice :: "Choice \<Rightarrow> json" where
  "enc_Choice c = JObj [(''index'', JNum (itoa (ch_index c))), (''message'', enc_Message (ch_message c)),
     (''finish_reason'', JStr (ch_finish c))]"

definition enc_Usage :: "Usage \<Rightarrow> json" where
  "enc_Usage u = JObj [(''prompt_tokens'', JNum (itoa (us_prompt u))),
     (''completion_tokens'', JNum (itoa (us_completion u))), (''total_tokens'', JNum (itoa (us_total u)))]"

definition enc_StandardResponse :: "StandardResponse \<Rightarrow> json" where
  "enc_StandardResponse r = JObj ([(''id'', JStr (rs_id r)), (''model'', JStr (rs_model r))] @
     omit_empty ''provider'' (rs_provider r) @
     [(''choices'', case rs_choices r of None \<Rightarrow> JNull | Some cs \<Rightarrow> JArr (map enc_Choice cs)),
      (''usage'', enc_Usage (rs_usage r))] @
     (if rs_cacheHit r then [(''cache_hit'', JBool True)] else []))"

definition enc_Error :: "Error \<Rightarrow> json" where
  "enc_Error e = JObj [(''code'', JStr (er_code e)), (''message'', JStr (er_message e)), (''type'', JStr (er_type e))]"

definition enc_StreamChunk :: "StreamChunk \<Rightarrow> json" where
  "enc_StreamChunk c = JObj ([(''id'', JStr (sc_id c)), (''model'', JStr (sc_model c)),
     (''delta'', JObj (omit_empty ''role'' (dl_role (sc_delta c)) @ omit_empty ''content'' (dl_content (sc_delta c)))),
     (''done'', JBool (sc_done c))] @
     (case sc_error c of None \<Rightarrow> [] | Some e \<Rightarrow> [(''error'', enc_Error e)]))"

definition marshal_response :: "StandardResponse \<Rightarrow> string" where
  "marshal_response r = encode (enc_StandardResponse r)"

definition chunk_ToJSON :: "StreamChunk \<Rightarrow> string" where
  "chunk_ToJSON c = encode (enc_StreamChunk c)"

section \<open>Responses survive the round trip\<close>

text \<open>Which member name is which field.\<close>

lemma fold_name_ascii: "\<forall>c \<in> set s. byte c < 128 \<Longrightarrow>
    fold_name s = map (\<lambda>c. if 97 \<le> byte c \<and> byte c \<le> 122 then byte c - 32 else byte c) s"
  by (auto simp: fold_name_def runes_ascii)

lemma fold_names:
  "fold_name ''role'' = [82, 79, 76, 69]"
  "fold_name ''content'' = [67, 79, 78, 84, 69, 78, 84]"
  "fold_name ''id'' = [73, 68]"
  "fold_name ''model'' = [77, 79, 68, 69, 76]"
  "fold_name ''provider'' = [80, 82, 79, 86, 73, 68, 69, 82]"
  "fold_name ''choices'' = [67, 72, 79, 73, 67, 69, 83]"
  "fold_name ''usage'' = [85, 83, 65, 71, 69]"
  "fold_name ''cache_hit'' = [67, 65, 67, 72, 69, 95, 72, 73, 84]"
  "fold_name ''index'' = [73, 78, 68, 69, 88]"
  "fold_name ''message'' = [77, 69, 83, 83, 65, 71, 69]"
  "fold_name ''finish_reason'' = [70, 73, 78, 73, 83, 72, 95, 82, 69, 65, 83, 79, 78]"
  "fold_name ''prompt_tokens'' = [80, 82, 79, 77, 80, 84, 95, 84, 79, 75, 69, 78, 83]"
  "fold_name ''completion_tokens'' = [67, 79, 77, 80, 76, 69, 84, 73, 79, 78, 95, 84, 79, 75, 69, 78, 83]"
  "fold_name ''total_tokens'' = [84, 79, 84, 65, 76, 95, 84, 79, 75, 69, 78, 83]"
  by (simp_all add: fold_name_ascii byte_def)

lemma request_fold_names:
  "fold_name ''request_id'' = [82, 69, 81, 85, 69, 83, 84, 95, 73, 68]"
  "fold_name ''messages'' = [77, 69, 83, 83, 65, 71, 69, 83]"
  "fold_name ''stream'' = [83, 84, 82, 69, 65, 77]"
  "fold_name ''temperature'' = [84, 69, 77, 80, 69, 82, 65, 84, 85, 82, 69]"
  "fold_name ''max_tokens'' = [77, 65, 88, 95, 84, 79, 75, 69, 78, 83]"
  "fold_name ''task_type'' = [84, 65, 83, 75, 95, 84, 89, 80, 69]"
  "fold_name ''metadata'' = [77, 69, 84, 65, 68, 65, 84, 65]"
  by (simp_all add: fold_name_ascii byte_def)

definition message_ok :: "Message \<Rightarrow> bool" where
  "message_ok m \<longleftrightarrow> valid_utf8 (msg_role m) \<and> valid_utf8 (msg_content m)"

definition choice_ok :: "Choice \<Rightarrow> bool" where
  "choice_ok c \<longleftrightarrow> in_int64 (ch_index c) \<and> message_ok (ch_message c) \<and> valid_utf8 (ch_finish c)"

definition response_ok :: "StandardResponse \<Rightarrow> bool" where
  "response_ok r \<longleftrightarrow> valid_utf8 (rs_id r) \<and> valid_utf8 (rs_model r) \<and> valid_utf8 (rs_provider r) \<and>
     (case rs_choices r of None \<Rightarrow> True | Some cs \<Rightarrow> list_all choice_ok cs) \<and>
     in_int64 (us_prompt (rs_usage r)) \<and> in_int64 (us_completion (rs_usage r)) \<and> in_int64 (us_total (rs_usage r))"

lemma nat_digits_digits: "\<forall>c \<in> set (nat_digits n []). is_digit c"
  using nat_digits_chars [of "[]" n] by (simp add: is_digit_def)

lemma nat_digits_head: "hd (nat_digits n []) = CHR ''0'' \<Longrightarrow> nat_digits n [] = ''0''"
proof (induction n rule: less_induct)
  case (less n)
  show ?case
  proof (cases "n < 10")
    case True
    then have "nat_digits n [] = [char_of (48 + n)]" by (simp add: nat_digits.simps [of n])
    then show ?thesis using less.prems by simp
  next
    case False
    then have d: "nat_digits n [] = nat_digits (n div 10) [] @ [char_of (48 + n mod 10)]"
      by (simp add: nat_digits.simps [of n] nat_digits_append [of "n div 10" "[_]"])
    then have "hd (nat_digits (n div 10) []) = CHR ''0''" using less.prems by (simp add: hd_append)
    then have z: "nat_digits (n div 10) [] = ''0''" using less.IH [of "n div 10"] False by simp
    have "digits_value (nat_digits (n div 10) []) 0 = Some (n div 10)" by (rule digits_value_nat_digits)
    then have "n div 10 = 0" unfolding z by (simp add: digit_def byte_def)
    then show ?thesis using False by simp
  qed
qed

lemma number_lit_nat: "lex_int (nat_digits n []) = Got (nat_digits n []) []"
proof -
  obtain c cs where c: "nat_digits n [] = c # cs" by (cases "nat_digits n []") auto
  have "lex_digits (nat_digits n []) = Got (nat_digits n []) []"
    using nat_digits_digits [of n]
    by (simp add: lex_digits_def takeWhile_eq_all_conv [THEN iffD2] dropWhile_eq_Nil_conv [THEN iffD2])
  then show ?thesis using nat_digits_head [of n] c by (auto simp: lex_int_def)
qed

lemma lex_number_int:
  assumes "lex_int s = Got s []"
  shows "lex_number (CHR ''-'' # s) = Got (CHR ''-'' # s) []" "hd s \<noteq> CHR ''-'' \<Longrightarrow> lex_number s = Got s []"
  using assms by (cases s; simp add: lex_number_def lex_frac_def lex_exp_def lex_int_def)+

lemma number_lit_itoa: "number_lit (itoa n)"
proof -
  have "hd (nat_digits k []) \<noteq> CHR ''-''" for k
    using nat_digits_digits [of k] by (cases "nat_digits k []") (auto simp: is_digit_def byte_def)
  then show ?thesis
    using lex_number_int [OF number_lit_nat] by (simp add: itoa_def number_lit_def)
qed

lemma omit_empty_ok: "valid_utf8 k \<Longrightarrow> valid_utf8 s \<Longrightarrow> \<forall>(k', v) \<in> set (omit_empty k s). valid_utf8 k' \<and> json_ok v"
  by (simp add: omit_empty_def)

lemma valid_keys [simp]:
  "valid_utf8 ''role''" "valid_utf8 ''content''" "valid_utf8 ''id''" "valid_utf8 ''model''"
  "valid_utf8 ''provider''" "valid_utf8 ''choices''" "valid_utf8 ''usage''" "valid_utf8 ''cache_hit''"
  "valid_utf8 ''index''" "valid_utf8 ''message''" "valid_utf8 ''finish_reason''"
  "valid_utf8 ''prompt_tokens''" "valid_utf8 ''completion_tokens''" "valid_utf8 ''total_tokens''"
  by (rule valid_utf8_ascii, simp add: byte_def)+

lemma json_ok_choice: "choice_ok c \<Longrightarrow> json_ok (enc_Choice c)"
  by (simp add: choice_ok_def message_ok_def enc_Choice_def enc_Message_def number_lit_itoa)

lemma json_ok_response: "response_ok r \<Longrightarrow> json_ok (enc_StandardResponse r)"
  by (auto simp: response_ok_def enc_StandardResponse_def enc_Usage_def omit_empty_def number_lit_itoa
      list_all_iff json_ok_choice split: option.splits)

lemma depth_choice: "depth (enc_Choice c) = 2"
  by (simp add: enc_Choice_def enc_Message_def)

lemma depth_choices: "foldr max (map depth (map enc_Choice cs)) 0 \<le> 2"
  by (induction cs) (simp_all add: depth_choice)

lemma depth_response: "depth (enc_StandardResponse r) \<le> 4"
  using depth_choices
  by (auto simp: enc_StandardResponse_def enc_Usage_def omit_empty_def split: option.splits)

lemma dec_Message_enc: "dec_Message (enc_Message m) x = Some m"
  by (simp add: dec_Message_def enc_Message_def dec_struct_def field_is_def fold_names)

lemma dec_Choice_enc: "choice_ok c \<Longrightarrow> dec_Choice (enc_Choice c) x = Some c"
  by (simp add: dec_Choice_def enc_Choice_def dec_struct_def field_is_def fold_names dec_Message_enc
      choice_ok_def atoi_itoa)

lemma dec_Usage_enc:
  "in_int64 (us_prompt u) \<Longrightarrow> in_int64 (us_completion u) \<Longrightarrow> in_int64 (us_total u) \<Longrightarrow>
   dec_Usage (enc_Usage u) x = Some u"
  by (simp add: dec_Usage_def enc_Usage_def dec_struct_def field_is_def fold_names atoi_itoa)

lemma dec_choices_enc:
  "list_all choice_ok cs \<Longrightarrow> dec_elems zero_choice dec_Choice (map enc_Choice cs) [] = Some cs"
  by (induction cs) (simp_all add: dec_Choice_enc)

lemma dec_response_enc:
  "response_ok r \<Longrightarrow> dec_StandardResponse (enc_StandardResponse r) zero_response = Some r"
  by (auto simp: dec_StandardResponse_def enc_StandardResponse_def dec_struct_def field_is_def fold_names
      omit_empty_def dec_slice_def dec_choices_enc dec_Usage_enc response_ok_def zero_response_def
      split: option.splits)

lemma unmarshal_marshal:
  assumes "response_ok r"
  shows "unmarshal_response (marshal_response r) = Inr r"
proof -
  have "depth (enc_StandardResponse r) \<le> maxNestingDepth"
    using depth_response [of r] by (simp add: maxNestingDepth_def)
  then have "parse_document (marshal_response r) = Inr (enc_StandardResponse r)"
    using parse_document_encode [OF json_ok_response [OF assms], of "[]"] by (simp add: marshal_response_def)
  moreover note dec_response_enc [OF assms]
  ultimately show ?thesis by (simp add: unmarshal_response_def decode_with_def)
qed

text \<open>
  C36. A response written to the cache is read back as it was, field by field: the choices
  (nil, empty or not), the counts, and the optional fields that the encoding leaves out. The
  strings must be valid UTF-8 and the counts 64-bit integers.
\<close>

theorem response_roundtrip:
  assumes "response_ok r"
  shows "unmarshal_response (marshal_response r) = Inr r"
  using assms by (rule unmarshal_marshal)

theorem response_roundtrip_witness:
  "unmarshal_response (marshal_response (zero_response\<lparr>rs_id := ''x'', rs_choices := Some [zero_choice],
       rs_usage := \<lparr>us_prompt = 3, us_completion = 4, us_total = 7\<rparr>\<rparr>)) =
     Inr (zero_response\<lparr>rs_id := ''x'', rs_choices := Some [zero_choice],
       rs_usage := \<lparr>us_prompt = 3, us_completion = 4, us_total = 7\<rparr>\<rparr>)"
proof (rule response_roundtrip)
  have "valid_utf8 ''x''" "valid_utf8 ''''" by (simp_all add: valid_utf8_ascii byte_def)
  then show "response_ok (zero_response\<lparr>rs_id := ''x'', rs_choices := Some [zero_choice],
       rs_usage := \<lparr>us_prompt = 3, us_completion = 4, us_total = 7\<rparr>\<rparr>)"
    by (simp add: response_ok_def zero_response_def choice_ok_def zero_choice_def zero_message_def
        message_ok_def in_int64_def min_int64_def max_int64_def)
qed

end
