(* ===== verification/Semantic_Cache.thy ===== *)
theory Semantic_Cache
  imports Embedding Json_Codec "HOL-Library.Multiset"
begin

text \<open>
  The semantic cache of \<^verbatim>\<open>internal/cache/semantic.go\<close>: entries per model, found by the
  similarity of embeddings, with expiry, eviction and a persistent store. The readings of the
  clock, the embedder, the store and the hash of a text are arguments. Each operation is taken
  as one step; \<open>Cache_Slices\<close> takes lookups apart into the steps between which others run.
\<close>

section \<open>The cache\<close>

record CacheEntry =
  ce_model :: string
  ce_key :: string
  ce_vector :: "f64 list"
  ce_json :: string
  ce_storedAt :: instant
  ce_lastAccess :: instant

text \<open>The interface \<^verbatim>\<open>CacheStore\<close>, over the state of the outside world.\<close>

record 'w CacheStore =
  st_Save :: "string \<Rightarrow> string \<Rightarrow> f64 list \<Rightarrow> string \<Rightarrow> duration \<Rightarrow> 'w \<Rightarrow> go_error option \<times> 'w"
  st_LoadAll :: "string \<Rightarrow> 'w \<Rightarrow> (go_error + CacheEntry list) \<times> 'w"
  st_Ping :: "'w \<Rightarrow> go_error option \<times> 'w"

record SemanticCacheConfig =
  sg_enabled :: bool
  sg_threshold :: f64
  sg_maxEntries :: int
  sg_ttl :: duration
  sg_maxPromptLength :: int

record 'w SemanticCache =
  ca_entries :: "string \<Rightarrow> CacheEntry list"
  ca_maxEntries :: int
  ca_threshold :: f64
  ca_ttl :: duration
  ca_maxPromptLength :: int
  ca_enabled :: bool
  ca_embedder :: embedder
  ca_store :: "'w CacheStore option"
  ca_recoverable :: "string list"

definition cache_New :: "SemanticCacheConfig \<Rightarrow> embedder \<Rightarrow> 'w CacheStore option \<Rightarrow> 'w SemanticCache" where
  "cache_New cfg emb store =
     \<lparr>ca_entries = (\<lambda>_. []),
      ca_maxEntries = (if sg_maxEntries cfg \<le> 0 then 10000 else sg_maxEntries cfg),
      ca_threshold = sg_threshold cfg, ca_ttl = sg_ttl cfg, ca_maxPromptLength = sg_maxPromptLength cfg,
      ca_enabled = sg_enabled cfg, ca_embedder = emb, ca_store = store, ca_recoverable = []\<rparr>"

definition SetModels :: "string list \<Rightarrow> 'w SemanticCache \<Rightarrow> 'w SemanticCache" where
  "SetModels models c = c\<lparr>ca_recoverable := models\<rparr>"

fun last_user_message :: "Message list \<Rightarrow> string" where
  "last_user_message [] = ''''"
| "last_user_message (m # rest) =
     (if msg_role m = ''user'' \<and> msg_content m \<noteq> '''' then msg_content m else last_user_message rest)"

text \<open>The cache's own \<^verbatim>\<open>concatenateUserMessages\<close>, which runs from the last message back.\<close>

definition cache_text :: "Message list \<Rightarrow> string" where
  "cache_text messages = last_user_message (rev messages)"

text \<open>
  What the two operations share: the embedding of the prompt, or no answer when the cache is
  disabled, the prompt is empty or too long, or the embedder fails.
\<close>

definition prompt_vector :: "'w SemanticCache \<Rightarrow> StandardRequest \<Rightarrow> (string \<times> f64 list) option go_result" where
  "prompt_vector c req =
     (case ca_embedder c of
        None \<Rightarrow> Ok None
      | Some emb \<Rightarrow>
          if \<not> ca_enabled c then Ok None
          else let text = cache_text (req_messages req)
               in if text = '''' then Ok None
                  else if ca_maxPromptLength c > 0 \<and> int (rune_count text) > ca_maxPromptLength c then Ok None
                  else (case emb [text] of
                          Panic \<Rightarrow> Panic
                        | Err e \<Rightarrow> Err e
                        | Ok vecs \<Rightarrow> if length vecs = 0 then Ok None else Ok (Some (text, vecs ! 0))))"

subsection \<open>Lookup\<close>

definition entry_expired :: "duration \<Rightarrow> instant \<Rightarrow> CacheEntry \<Rightarrow> bool" where
  "entry_expired ttl now e \<longleftrightarrow> time_sub now (ce_storedAt e) > ttl"

text \<open>The scan: the index and score of the best entry so far, and the indices of expired ones.\<close>

fun lookup_scan :: "duration \<Rightarrow> instant \<Rightarrow> f64 list \<Rightarrow> CacheEntry list \<Rightarrow> nat \<Rightarrow> nat option \<Rightarrow> f64 \<Rightarrow> nat list \<Rightarrow>
    nat option \<times> nat list" where
  "lookup_scan ttl now vec [] i best bestScore expired = (best, expired)"
| "lookup_scan ttl now vec (e # es) i best bestScore expired =
     (if entry_expired ttl now e then lookup_scan ttl now vec es (Suc i) best bestScore (expired @ [i])
      else
        let score = CosineSimilarity vec (ce_vector e)
        in if fle bestScore score then lookup_scan ttl now vec es (Suc i) (Some i) score expired
           else lookup_scan ttl now vec es (Suc i) best bestScore expired)"

text \<open>
  Removing the expired indices, the last first, each by moving the last entry into its place.
\<close>

fun remove_indices :: "nat list \<Rightarrow> 'a list \<Rightarrow> 'a list" where
  "remove_indices [] es = es"
| "remove_indices (idx # is) es =
     (if idx \<ge> length es then remove_indices is es
      else remove_indices is (take (length es - 1) (es[idx := es ! (length es - 1)])))"

definition removeExpired :: "string \<Rightarrow> nat list \<Rightarrow> 'w SemanticCache \<Rightarrow> 'w SemanticCache" where
  "removeExpired model indices c =
     c\<lparr>ca_entries := (ca_entries c)(model := remove_indices (rev indices) (ca_entries c model))\<rparr>"

text \<open>
  The pointer to the best entry points into the array that the slice had at the start. Removing
  entries never writes to its place, so the response is that of the best entry; but where the
  slice has become too short to contain that place, the new access time is lost.
\<close>

definition cache_Lookup :: "instant \<Rightarrow> StandardRequest \<Rightarrow> 'w SemanticCache \<Rightarrow>
    (StandardResponse option \<times> metric list) go_result \<times> 'w SemanticCache" where
  "cache_Lookup now req c =
     (case prompt_vector c req of
        Panic \<Rightarrow> (Panic, c)
      | Err e \<Rightarrow> (Ok (None, []), c)
      | Ok None \<Rightarrow> (Ok (None, []), c)
      | Ok (Some (text, vec)) \<Rightarrow>
          let entries = ca_entries c (req_model req);
              (best, expired) = lookup_scan (ca_ttl c) now vec entries 0 None (ca_threshold c) [];
              c = (if length expired > 0 then removeExpired (req_model req) expired c else c)
          in case best of
               None \<Rightarrow> (Ok (None, []), c)
             | Some b \<Rightarrow>
                 let kept = ca_entries c (req_model req);
                     c = (if b < length kept
                          then c\<lparr>ca_entries := (ca_entries c)
                                 (req_model req := kept[b := (kept ! b)\<lparr>ce_lastAccess := now\<rparr>])\<rparr>
                          else c);
                     hit = [CacheHitTotal (req_model req) ''semantic'']
                 in case unmarshal_response (ce_json (entries ! b)) of
                      Inl _ \<Rightarrow> (Ok (None, hit), c)
                    | Inr resp \<Rightarrow> (Ok (Some (resp\<lparr>rs_cacheHit := True\<rparr>), hit), c))"

subsection \<open>Store\<close>

text \<open>The first entry with the earliest access time; the scan starts at the second.\<close>

fun oldest_from :: "CacheEntry list \<Rightarrow> nat \<Rightarrow> nat \<Rightarrow> CacheEntry \<Rightarrow> nat" where
  "oldest_from [] i oldest old = oldest"
| "oldest_from (e # es) i oldest old =
     (if ce_lastAccess e < ce_lastAccess old then oldest_from es (Suc i) i e
      else oldest_from es (Suc i) oldest old)"

definition evictOne :: "CacheEntry list \<Rightarrow> CacheEntry list" where
  "evictOne entries =
     (if length entries = 0 then entries
      else let oldest = oldest_from (tl entries) 1 0 (hd entries)
           in take (length entries - 1) (entries[oldest := entries ! (length entries - 1)]))"

definition compactExpired :: "duration \<Rightarrow> instant \<Rightarrow> CacheEntry list \<Rightarrow> CacheEntry list" where
  "compactExpired ttl now entries = filter (\<lambda>e. time_sub now (ce_storedAt e) \<le> ttl) entries"

text \<open>
  The clock is read for the two times of the entry and, if it comes to that, for compaction;
  \<open>hash\<close> stands for \<^verbatim>\<open>hashContent\<close>. The result is the error of the operation.
\<close>

definition add_entry :: "instant \<Rightarrow> CacheEntry \<Rightarrow> 'w SemanticCache \<Rightarrow> 'w SemanticCache" where
  "add_entry t3 entry c =
     (let m = ce_model entry;
          es = ca_entries c m @ [entry];
          es = (if int (length es) > ca_maxEntries c then evictOne es else es);
          es = (if int (length es) > ca_maxEntries c * 3 div 2 then compactExpired (ca_ttl c) t3 es else es)
      in c\<lparr>ca_entries := (ca_entries c)(m := es)\<rparr>)"

definition cache_Store :: "(string \<Rightarrow> string) \<Rightarrow> instant \<times> instant \<times> instant \<Rightarrow> StandardRequest \<Rightarrow>
    StandardResponse \<Rightarrow> 'w SemanticCache \<times> 'w \<Rightarrow> go_error option go_result \<times> ('w SemanticCache \<times> 'w)" where
  "cache_Store hash clk req resp cw =
     (let (c, w) = cw; (t1, t2, t3) = clk in
      if req_stream req then (Ok None, (c, w))
      else case prompt_vector c req of
             Panic \<Rightarrow> (Panic, (c, w))
           | Err e \<Rightarrow> (Ok (Some e), (c, w))
           | Ok None \<Rightarrow> (Ok None, (c, w))
           | Ok (Some (text, vec)) \<Rightarrow>
               let respJSON = marshal_response resp; key = hash text;
                   entry = \<lparr>ce_model = req_model req, ce_key = key, ce_vector = vec, ce_json = respJSON,
                            ce_storedAt = t1, ce_lastAccess = t2\<rparr>;
                   c = add_entry t3 entry c
               in case ca_store c of
                    None \<Rightarrow> (Ok None, (c, w))
                  | Some st \<Rightarrow>
                      let (_, w) = st_Save st (req_model req) key vec respJSON (ca_ttl c) w
                      in (Ok None, (c, w)))"

subsection \<open>Recovery\<close>

text \<open>Each model is loaded in turn; the clock is read once per model that has entries.\<close>

fun load_models :: "('w \<Rightarrow> instant \<times> 'w) \<Rightarrow> 'w CacheStore \<Rightarrow> string list \<Rightarrow> 'w SemanticCache \<times> 'w \<Rightarrow>
    'w SemanticCache \<times> 'w" where
  "load_models clock st [] (c, w) = (c, w)"
| "load_models clock st (m # ms) (c, w) =
     (case st_LoadAll st m w of
        (Inl e, w) \<Rightarrow> load_models clock st ms (c, w)
      | (Inr entries, w) \<Rightarrow>
          if length entries > 0 then
            let (now, w) = clock w;
                fresh = map (\<lambda>e. e\<lparr>ce_storedAt := now, ce_lastAccess := now\<rparr>) entries
            in load_models clock st ms (c\<lparr>ca_entries := (ca_entries c)(m := ca_entries c m @ fresh)\<rparr>, w)
          else load_models clock st ms (c, w))"

definition LoadFromStore :: "('w \<Rightarrow> instant \<times> 'w) \<Rightarrow> 'w SemanticCache \<times> 'w \<Rightarrow> 'w SemanticCache \<times> 'w" where
  "LoadFromStore clock cw =
     (case ca_store (fst cw) of None \<Rightarrow> cw
      | Some st \<Rightarrow> load_models clock st (ca_recoverable (fst cw)) cw)"

lemmas cache_defs [service_simps] = cache_New_def SetModels_def removeExpired_def add_entry_def LoadFromStore_def

section \<open>Removing by index\<close>

lemma nths_append_below:
  assumes "\<forall>i \<in> S. i < length A"
  shows "nths (A @ C) (- S) = nths A (- S) @ C"
proof -
  have "{j. j + length A \<in> - S} = UNIV" using assms by (auto dest: bspec)
  then show ?thesis by (simp add: nths_append nths_all)
qed

text \<open>Moving the last element into a place and shortening the list by one.\<close>

lemma take_swap_last:
  assumes "k < length es"
  shows "\<exists>C. take (length es - 1) (es[k := es ! (length es - 1)]) = take k es @ C \<and> mset C = mset (drop (Suc k) es)"
proof (cases "drop (Suc k) es = []")
  case True
  then have "length es - 1 = k" using assms by simp
  then show ?thesis using True by simp
next
  case False
  then have l: "Suc k < length es" by simp
  then obtain b B' where B: "drop (Suc k) es = B' @ [b]" using False by (metis rev_exhaust)
  have len: "length es - 1 = Suc (k + length B')" using arg_cong [OF B, of length] l by simp
  have b: "es ! (length es - 1) = b"
  proof -
    have "es \<noteq> []" using assms by auto
    moreover have "last es = b" using arg_cong [OF B, of last] l by simp
    ultimately show ?thesis by (simp add: last_conv_nth)
  qed
  have "es[k := b] = take k es @ b # B' @ [b]"
    using assms by (simp add: upd_conv_take_nth_drop B)
  then have "take (length es - 1) (es[k := b]) = take k es @ b # B'"
    using assms unfolding len by simp
  then show ?thesis unfolding b using B by (intro exI [of _ "b # B'"]) simp
qed

lemma mset_remove_indices:
  assumes "sorted_wrt (>) is" and "\<forall>i \<in> set is. i < length es"
  shows "mset (remove_indices is es) = mset (nths es (- set is))"
  using assms
proof (induction "is" arbitrary: es)
  case Nil
  then show ?case by (simp add: nths_all)
next
  case (Cons idx rest)
  then have idx: "idx < length es" and below: "\<forall>i \<in> set rest. i < idx" by auto
  define A B where "A = take idx es" and "B = drop (Suc idx) es"
  have es: "es = A @ es ! idx # B" using idx by (simp add: A_def B_def id_take_nth_drop)
  have lA: "length A = idx" using idx by (simp add: A_def)
  let ?es' = "take (length es - 1) (es[idx := es ! (length es - 1)])"
  obtain C where C: "?es' = A @ C" "mset C = mset B"
    using take_swap_last [OF idx] unfolding A_def B_def by blast
  have "mset (remove_indices (idx # rest) es) = mset (remove_indices rest ?es')" using idx by simp
  also have "\<dots> = mset (nths ?es' (- set rest))"
    using Cons.prems idx below by (intro Cons.IH) auto
  also have "\<dots> = mset (nths A (- set rest)) + mset B"
    unfolding C(1) using nths_append_below [of "set rest" A C] below C(2) lA by simp
  also have "\<dots> = mset (nths es (- set (idx # rest)))"
  proof -
    have "nths es (- set (idx # rest)) = nths A (- set (idx # rest)) @ nths (es ! idx # B) {j. j + idx \<in> - set (idx # rest)}"
      by (subst (1) es) (simp add: nths_append lA)
    moreover have "nths A (- set (idx # rest)) = nths A (- set rest)"
      using lA by (auto simp: nths_def intro!: arg_cong [of _ _ "map fst"] filter_cong dest: set_zip_rightD)
    moreover have "{j. Suc j + idx \<in> - set (idx # rest)} = UNIV" using below by force
    ultimately show ?thesis by (simp add: nths_Cons nths_all)
  qed
  finally show ?case .
qed

section \<open>What a lookup finds\<close>

abbreviation entry_score :: "f64 list \<Rightarrow> CacheEntry \<Rightarrow> f64" where
  "entry_score vec e \<equiv> CosineSimilarity vec (ce_vector e)"

definition expired_at :: "duration \<Rightarrow> instant \<Rightarrow> CacheEntry list \<Rightarrow> nat list" where
  "expired_at ttl now es = filter (\<lambda>k. entry_expired ttl now (es ! k)) [0..<length es]"

lemma expired_at_Cons:
  "expired_at ttl now (e # es) =
     (if entry_expired ttl now e then [0] else []) @ map Suc (expired_at ttl now es)"
  by (simp add: expired_at_def filter_map o_def flip: map_Suc_upt del: upt_Suc)
    (simp add: upt_conv_Cons filter_map o_def flip: map_Suc_upt del: upt_Suc)

lemma lookup_scan_expired:
  "snd (lookup_scan ttl now vec es i best bs ex) = ex @ map (\<lambda>k. i + k) (expired_at ttl now es)"
proof (induction es arbitrary: i best bs ex)
  case Nil
  then show ?case by (simp add: expired_at_def)
next
  case (Cons e es)
  have "map (\<lambda>k. Suc i + k) xs = map (\<lambda>k. i + k) (map Suc xs)" for xs :: "nat list" by simp
  then show ?case using Cons by (simp add: expired_at_Cons Let_def)
qed

text \<open>The best entry: the last of the most similar ones that have not expired.\<close>

definition best_entry :: "duration \<Rightarrow> instant \<Rightarrow> f64 list \<Rightarrow> f64 \<Rightarrow> CacheEntry list \<Rightarrow> nat \<Rightarrow> bool" where
  "best_entry ttl now vec bs es k \<longleftrightarrow> k < length es \<and> \<not> entry_expired ttl now (es ! k) \<and>
     fle bs (entry_score vec (es ! k)) \<and>
     (\<forall>j < length es. \<not> entry_expired ttl now (es ! j) \<longrightarrow> \<not> flt (entry_score vec (es ! k)) (entry_score vec (es ! j))) \<and>
     (\<forall>j < length es. k < j \<and> \<not> entry_expired ttl now (es ! j) \<longrightarrow> \<not> fle (entry_score vec (es ! k)) (entry_score vec (es ! j)))"

lemma best_entry_Suc:
  "best_entry ttl now vec bs es k \<Longrightarrow>
   \<not> entry_expired ttl now e \<longrightarrow> \<not> flt (entry_score vec (es ! k)) (entry_score vec e) \<Longrightarrow>
   best_entry ttl now vec bs (e # es) (Suc k)"
  by (auto simp: best_entry_def less_Suc_eq_0_disj)

lemma best_entry_raised:
  assumes "best_entry ttl now vec (entry_score vec e) es k" and "fle bs (entry_score vec e)"
  shows "best_entry ttl now vec bs (e # es) (Suc k)"
proof -
  have "fle (entry_score vec e) (entry_score vec (es ! k))" using assms(1) by (simp add: best_entry_def)
  then have "fle bs (entry_score vec (es ! k))" "\<not> flt (entry_score vec (es ! k)) (entry_score vec e)"
    using assms(2) fle_trans fle_not_flt by blast+
  then show ?thesis using assms(1) by (auto simp: best_entry_def less_Suc_eq_0_disj)
qed

lemma best_entry_passed:
  assumes "best_entry ttl now vec bs es k" and "entry_expired ttl now e \<or> \<not> fle bs (entry_score vec e)"
  shows "best_entry ttl now vec bs (e # es) (Suc k)"
proof -
  have "fle bs (entry_score vec (es ! k))" using assms(1) by (simp add: best_entry_def)
  then have "\<not> entry_expired ttl now e \<longrightarrow> \<not> flt (entry_score vec (es ! k)) (entry_score vec e)"
    using assms(2) fle_flt_trans by blast
  then show ?thesis using best_entry_Suc [OF assms(1)] by blast
qed

lemma lookup_scan_best:
  assumes "fst (lookup_scan ttl now vec es i best bs ex) = r"
  shows "r = best \<and> (\<forall>e \<in> set es. \<not> entry_expired ttl now e \<longrightarrow> \<not> fle bs (entry_score vec e)) \<or>
         (\<exists>k. r = Some (i + k) \<and> best_entry ttl now vec bs es k)"
  using assms
proof (induction es arbitrary: i best bs ex)
  case Nil
  then show ?case by simp
next
  case (Cons e es)
  let ?s = "entry_score vec e"
  show ?case
  proof (cases "\<not> entry_expired ttl now e \<and> fle bs ?s")
    case True
    then have "(\<exists>k. r = Some (i + Suc k) \<and> best_entry ttl now vec ?s es k) \<or>
        r = Some i \<and> (\<forall>e \<in> set es. \<not> entry_expired ttl now e \<longrightarrow> \<not> fle ?s (entry_score vec e))"
      using Cons.IH [of "Suc i" "Some i" ?s ex] Cons.prems by auto
    then show ?thesis
    proof
      assume r: "r = Some i \<and> (\<forall>e \<in> set es. \<not> entry_expired ttl now e \<longrightarrow> \<not> fle ?s (entry_score vec e))"
      then have "best_entry ttl now vec bs (e # es) 0"
        using True by (auto simp: best_entry_def less_Suc_eq_0_disj fle_def)
      then show ?thesis using r by force
    qed (use True best_entry_raised in blast)
  next
    case False
    obtain ex' where "fst (lookup_scan ttl now vec es (Suc i) best bs ex') = r"
      using Cons.prems False by (cases "entry_expired ttl now e") (auto simp: Let_def)
    from Cons.IH [OF this] have "r = best \<and> (\<forall>e \<in> set es. \<not> entry_expired ttl now e \<longrightarrow> \<not> fle bs (entry_score vec e)) \<or>
        (\<exists>k. r = Some (i + Suc k) \<and> best_entry ttl now vec bs es k)" by simp
    then show ?thesis using False best_entry_passed [of ttl now vec bs es _ e] by auto
  qed
qed

lemma lookup_scan_result:
  assumes "lookup_scan ttl now vec es 0 None bs [] = (r, ex)"
  shows "ex = expired_at ttl now es"
    and "case r of None \<Rightarrow> (\<forall>e \<in> set es. \<not> entry_expired ttl now e \<longrightarrow> \<not> fle bs (entry_score vec e))
         | Some k \<Rightarrow> best_entry ttl now vec bs es k"
  using lookup_scan_expired [of ttl now vec es 0 None bs "[]"]
    lookup_scan_best [of ttl now vec es 0 None bs "[]" r] assms
  by (auto split: option.splits)

text \<open>
  C22. A hit is sound: the response comes, with the hit flag set, from an entry stored under
  the requested model that has not expired, whose similarity reaches the threshold, and than
  which no other live entry of that model is more similar. A miss of an embeddable prompt that
  leaves no hit in the metrics means that no live entry reaches the threshold.
\<close>

theorem cache_hit_is_best_live_entry:
  assumes "prompt_vector c req = Ok (Some (text, vec))"
    and "cache_Lookup now req c = (Ok (answer, ms), c')"
  shows "let es = ca_entries c (req_model req); live = (\<lambda>e. \<not> entry_expired (ca_ttl c) now e) in
     case answer of
       Some resp \<Rightarrow> \<exists>e \<in> set es. live e \<and> fle (ca_threshold c) (entry_score vec e) \<and>
          (\<forall>e' \<in> set es. live e' \<longrightarrow> \<not> flt (entry_score vec e) (entry_score vec e')) \<and>
          (\<exists>r. unmarshal_response (ce_json e) = Inr r \<and> resp = r\<lparr>rs_cacheHit := True\<rparr>)
     | None \<Rightarrow> ms = [] \<longrightarrow> (\<forall>e \<in> set es. live e \<longrightarrow> \<not> fle (ca_threshold c) (entry_score vec e))"
proof -
  let ?es = "ca_entries c (req_model req)"
  obtain best ex where s: "lookup_scan (ca_ttl c) now vec ?es 0 None (ca_threshold c) [] = (best, ex)" by fastforce
  note b = lookup_scan_result(2) [OF s]
  show ?thesis
  proof (cases best)
    case None
    then have "answer = None" using assms s by (auto simp: cache_Lookup_def Let_def)
    then show ?thesis using b None by (simp add: Let_def)
  next
    case (Some k)
    then have k: "best_entry (ca_ttl c) now vec (ca_threshold c) ?es k" using b by simp
    then have e: "?es ! k \<in> set ?es" by (simp add: best_entry_def)
    have "\<forall>e' \<in> set ?es. \<not> entry_expired (ca_ttl c) now e' \<longrightarrow> \<not> flt (entry_score vec (?es ! k)) (entry_score vec e')"
      using k unfolding best_entry_def by (metis in_set_conv_nth)
    moreover have "answer = None \<and> ms \<noteq> [] \<or>
        (\<exists>r. unmarshal_response (ce_json (?es ! k)) = Inr r \<and> answer = Some (r\<lparr>rs_cacheHit := True\<rparr>))"
      using assms s Some by (auto simp: cache_Lookup_def Let_def split: sum.splits)
    ultimately show ?thesis using k e
      by (auto simp: Let_def best_entry_def intro!: bexI [of _ "?es ! k"])
  qed
qed

text \<open>A cache with two entries for one model, and requests whose prompt embeds to \<open>[1, 0]\<close>.\<close>

definition demo_response :: StandardResponse where
  "demo_response = zero_response\<lparr>rs_id := ''r1'', rs_choices := Some []\<rparr>"

definition demo_entry :: "f64 list \<Rightarrow> instant \<Rightarrow> CacheEntry" where
  "demo_entry v t = \<lparr>ce_model = ''m'', ce_key = '''', ce_vector = v, ce_json = marshal_response demo_response,
     ce_storedAt = t, ce_lastAccess = t\<rparr>"

definition demo_cache :: "unit SemanticCache" where
  "demo_cache = \<lparr>ca_entries = (\<lambda>_. [])(''m'' := [demo_entry [fzero, f64_of_int 1] 0, demo_entry [f64_of_int 1, fzero] 50]),
     ca_maxEntries = 2, ca_threshold = f64_round False 3 4 0, ca_ttl = 100, ca_maxPromptLength = 0,
     ca_enabled = True, ca_embedder = Some (\<lambda>_. Ok [[f64_of_int 1, fzero]]), ca_store = None, ca_recoverable = []\<rparr>"

definition demo_prompt :: StandardRequest where
  "demo_prompt = zero_request\<lparr>req_model := ''m'', req_messages := [\<lparr>msg_role = ''user'', msg_content = ''hi''\<rparr>]\<rparr>"

lemma demo_cache_facts: "req_model demo_prompt = ''m''" "ca_ttl demo_cache = 100"
  "ca_entries demo_cache ''m'' = [demo_entry [fzero, f64_of_int 1] 0, demo_entry [f64_of_int 1, fzero] 50]"
  by (simp_all add: demo_prompt_def demo_cache_def)

lemma demo_prompt_vector: "prompt_vector demo_cache demo_prompt = Ok (Some (''hi'', [f64_of_int 1, fzero]))"
  by (simp add: prompt_vector_def demo_cache_def demo_prompt_def cache_text_def Let_def)

lemma demo_response_ok: "response_ok demo_response"
  by (simp add: response_ok_def demo_response_def zero_response_def zero_usage_def in_int64_def min_int64_def
      max_int64_def valid_utf8_ascii byte_def)

lemmas demo_unmarshal = unmarshal_marshal [OF demo_response_ok]

text \<open>At time 120 the first entry has expired; the second is moved into its place.\<close>

lemma demo_Lookup:
  "cache_Lookup 120 demo_prompt demo_cache =
     (Ok (Some (demo_response\<lparr>rs_cacheHit := True\<rparr>), [CacheHitTotal ''m'' ''semantic'']),
      demo_cache\<lparr>ca_entries := (\<lambda>_. [])(''m'' := [demo_entry [f64_of_int 1, fzero] 50])\<rparr>)"
proof -
  have t: "time_sub 120 0 = 120" "time_sub 120 50 = 70"
    by (simp_all add: time_sub_def min_int64_def max_int64_def)
  have m: "req_model demo_prompt = ''m''" by (simp add: demo_prompt_def)
  have s: "lookup_scan (ca_ttl demo_cache) 120 [f64_of_int 1, fzero] (ca_entries demo_cache ''m'') 0 None
      (ca_threshold demo_cache) [] = (Some 1, [0])"
    by (simp add: demo_cache_def demo_entry_def entry_expired_def t demo_cosines demo_compare Let_def)
  show ?thesis
    unfolding cache_Lookup_def demo_prompt_vector m by (simp add: s Let_def)
      (simp add: demo_cache_def demo_entry_def removeExpired_def demo_unmarshal)
qed

theorem cache_hit_is_best_live_entry_witness:
  "\<exists>e \<in> set (ca_entries demo_cache ''m''). \<not> entry_expired 100 120 e \<and>
     (\<exists>r. unmarshal_response (ce_json e) = Inr r \<and> demo_response\<lparr>rs_cacheHit := True\<rparr> = r\<lparr>rs_cacheHit := True\<rparr>)"
  using cache_hit_is_best_live_entry [OF demo_prompt_vector demo_Lookup]
  by (auto simp: Let_def demo_prompt_def demo_cache_def)

section \<open>What a lookup leaves\<close>

lemma nths_cong_index: "(\<And>k. k < length xs \<Longrightarrow> k \<in> A \<longleftrightarrow> k \<in> B) \<Longrightarrow> nths xs A = nths xs B"
proof -
  assume a: "\<And>k. k < length xs \<Longrightarrow> k \<in> A \<longleftrightarrow> k \<in> B"
  have "filter (\<lambda>p. snd p \<in> A) (zip xs [0..<length xs]) = filter (\<lambda>p. snd p \<in> B) (zip xs [0..<length xs])"
    by (rule filter_cong) (use a in \<open>auto dest: set_zip_rightD\<close>)
  then show ?thesis by (simp add: nths_def)
qed

lemma nths_expired:
  "nths es (- set (expired_at ttl now es)) = filter (\<lambda>e. \<not> entry_expired ttl now e) es"
  unfolding filter_eq_nths by (rule nths_cong_index) (simp add: expired_at_def)

lemma remove_expired_mset:
  "mset (remove_indices (rev (expired_at ttl now es)) es) = filter_mset (\<lambda>e. \<not> entry_expired ttl now e) (mset es)"
proof -
  have "sorted_wrt (<) (expired_at ttl now es)" by (simp add: expired_at_def sorted_wrt_filter)
  then have "sorted_wrt (>) (rev (expired_at ttl now es))" by (simp add: sorted_wrt_rev)
  then show ?thesis
    by (subst mset_remove_indices) (auto simp: nths_expired, auto simp: expired_at_def)
qed

text \<open>An entry apart from the time it was last used.\<close>

definition entry_data :: "CacheEntry \<Rightarrow> CacheEntry" where
  "entry_data e = e\<lparr>ce_lastAccess := 0\<rparr>"

lemma map_entry_data_upd: "map entry_data (es[b := (es ! b)\<lparr>ce_lastAccess := t\<rparr>]) = map entry_data es"
proof (cases "b < length es")
  case True
  have "entry_data ((es ! b)\<lparr>ce_lastAccess := t\<rparr>) = map entry_data es ! b"
    using True by (simp add: entry_data_def)
  then show ?thesis by (simp only: map_update list_update_id)
qed (simp add: list_update_beyond)

text \<open>
  A lookup forgets exactly what has expired: afterwards the model has its live entries,
  each once and unchanged but for access times, though perhaps in another order; the entries
  of the other models and the settings are as before.
\<close>

theorem lookup_purges_expired:
  assumes "prompt_vector c req = Ok (Some (text, vec))"
    and "cache_Lookup now req c = (answer, c')"
  shows "image_mset entry_data (mset (ca_entries c' (req_model req))) =
      image_mset entry_data (filter_mset (\<lambda>e. \<not> entry_expired (ca_ttl c) now e) (mset (ca_entries c (req_model req)))) \<and>
    c'\<lparr>ca_entries := (ca_entries c')(req_model req := [])\<rparr> = c\<lparr>ca_entries := (ca_entries c)(req_model req := [])\<rparr>"
proof -
  let ?es = "ca_entries c (req_model req)"
  obtain best ex where s: "lookup_scan (ca_ttl c) now vec ?es 0 None (ca_threshold c) [] = (best, ex)" by fastforce
  have ex: "ex = expired_at (ca_ttl c) now ?es" by (rule lookup_scan_result(1) [OF s])
  define c1 where "c1 = (if length ex > 0 then removeExpired (req_model req) ex c else c)"
  have c1: "mset (ca_entries c1 (req_model req)) = filter_mset (\<lambda>e. \<not> entry_expired (ca_ttl c) now e) (mset ?es)"
    "c1\<lparr>ca_entries := (ca_entries c1)(req_model req := [])\<rparr> = c\<lparr>ca_entries := (ca_entries c)(req_model req := [])\<rparr>"
    using remove_expired_mset [of "ca_ttl c" now ?es] by (auto simp: c1_def removeExpired_def ex)
  have "cache_Lookup now req c = (case best of None \<Rightarrow> (Ok (None, []), c1)
     | Some b \<Rightarrow>
         let kept = ca_entries c1 (req_model req);
             c2 = (if b < length kept
                   then c1\<lparr>ca_entries := (ca_entries c1)(req_model req := kept[b := (kept ! b)\<lparr>ce_lastAccess := now\<rparr>])\<rparr>
                   else c1);
             hit = [CacheHitTotal (req_model req) ''semantic'']
         in case unmarshal_response (ce_json (?es ! b)) of
              Inl _ \<Rightarrow> (Ok (None, hit), c2)
            | Inr resp \<Rightarrow> (Ok (Some (resp\<lparr>rs_cacheHit := True\<rparr>), hit), c2))"
    by (simp only: cache_Lookup_def assms(1) s c1_def [symmetric] go_result.case option.case prod.case Let_def)
  then have "\<exists>b. c' = c1 \<or> c' = c1\<lparr>ca_entries := (ca_entries c1)
      (req_model req := (ca_entries c1 (req_model req))[b := (ca_entries c1 (req_model req) ! b)\<lparr>ce_lastAccess := now\<rparr>])\<rparr>"
    using assms(2) by (auto simp: Let_def split: option.splits if_splits sum.splits)
  then obtain b where "c' = c1 \<or> c' = c1\<lparr>ca_entries := (ca_entries c1)
      (req_model req := (ca_entries c1 (req_model req))[b := (ca_entries c1 (req_model req) ! b)\<lparr>ce_lastAccess := now\<rparr>])\<rparr>" ..
  then have "map entry_data (ca_entries c' (req_model req)) = map entry_data (ca_entries c1 (req_model req))"
    and "c'\<lparr>ca_entries := (ca_entries c')(req_model req := [])\<rparr> = c1\<lparr>ca_entries := (ca_entries c1)(req_model req := [])\<rparr>"
    by (auto simp: map_entry_data_upd)
  then show ?thesis using c1 by (metis mset_map)
qed

theorem lookup_purges_expired_witness:
  "image_mset entry_data (mset (ca_entries (snd (cache_Lookup 120 demo_prompt demo_cache)) ''m'')) =
     {# entry_data (demo_entry [f64_of_int 1, fzero] 50) #}"
proof -
  have "time_sub 120 0 = 120" "time_sub 120 50 = 70"
    by (simp_all add: time_sub_def min_int64_def max_int64_def)
  then show ?thesis
    using lookup_purges_expired [OF demo_prompt_vector demo_Lookup]
    by (simp add: demo_Lookup demo_cache_facts entry_expired_def demo_entry_def)
qed

text \<open>
  The access time of a hit can be lost: when removing expired entries moves the hit entry,
  the new time is written to its old place, which no longer belongs to the cache. Here the
  entry that has just answered still carries its old time, so it is evicted as if unused.
\<close>

theorem hit_may_lose_its_access_time:
  "\<exists>(c :: unit SemanticCache) req now resp ms c'. cache_Lookup now req c = (Ok (Some resp, ms), c') \<and>
     ca_entries c' (req_model req) \<noteq> [] \<and> now \<notin> ce_lastAccess ` set (ca_entries c' (req_model req))"
  by (rule exI [of _ demo_cache], rule exI [of _ demo_prompt], rule exI [of _ 120])
    (simp add: demo_Lookup demo_cache_facts demo_entry_def)

section \<open>Capacity and eviction\<close>

lemma oldest_from_spec:
  assumes "oldest_from es i oldest old = r"
  shows "r = oldest \<and> (\<forall>e \<in> set es. ce_lastAccess old \<le> ce_lastAccess e) \<or>
     (\<exists>k < length es. r = i + k \<and> ce_lastAccess (es ! k) < ce_lastAccess old \<and>
        (\<forall>e \<in> set es. ce_lastAccess (es ! k) \<le> ce_lastAccess e) \<and>
        (\<forall>j < k. ce_lastAccess (es ! k) < ce_lastAccess (es ! j)))"
  using assms
proof (induction es arbitrary: i oldest old)
  case Nil
  then show ?case by simp
next
  case (Cons e es)
  show ?case
  proof (cases "ce_lastAccess e < ce_lastAccess old")
    case True
    then have "oldest_from es (Suc i) i e = r" using Cons.prems by simp
    from Cons.IH [OF this] show ?thesis
    proof (elim disjE exE conjE)
      assume "r = i" "\<forall>x \<in> set es. ce_lastAccess e \<le> ce_lastAccess x"
      then show ?thesis using True by (intro disjI2 exI [of _ 0]) auto
    next
      fix k assume "k < length es" "r = Suc i + k" "ce_lastAccess (es ! k) < ce_lastAccess e"
        "\<forall>x \<in> set es. ce_lastAccess (es ! k) \<le> ce_lastAccess x"
        "\<forall>j < k. ce_lastAccess (es ! k) < ce_lastAccess (es ! j)"
      then show ?thesis using True
        by (intro disjI2 exI [of _ "Suc k"]) (auto simp: less_Suc_eq_0_disj)
    qed
  next
    case False
    then have "oldest_from es (Suc i) oldest old = r" using Cons.prems by simp
    from Cons.IH [OF this] show ?thesis
    proof (elim disjE exE conjE)
      fix k assume "k < length es" "r = Suc i + k" "ce_lastAccess (es ! k) < ce_lastAccess old"
        "\<forall>x \<in> set es. ce_lastAccess (es ! k) \<le> ce_lastAccess x"
        "\<forall>j < k. ce_lastAccess (es ! k) < ce_lastAccess (es ! j)"
      then show ?thesis using False
        by (intro disjI2 exI [of _ "Suc k"]) (auto simp: less_Suc_eq_0_disj)
    qed (use False in auto)
  qed
qed

lemma mset_remove_one:
  assumes "k < length es"
  shows "add_mset (es ! k) (mset (take (length es - 1) (es[k := es ! (length es - 1)]))) = mset es"
proof -
  obtain C where C: "take (length es - 1) (es[k := es ! (length es - 1)]) = take k es @ C" "mset C = mset (drop (Suc k) es)"
    using take_swap_last [OF assms] by blast
  have "mset es = mset (take k es @ es ! k # drop (Suc k) es)" using id_take_nth_drop [OF assms] by simp
  then show ?thesis unfolding C(1) using C(2) by simp
qed

text \<open>
  C28. Eviction drops exactly one entry, the one that was used least recently, and the first of
  those when several were last used at the same time; all others stay.
\<close>

theorem evict_drops_least_recently_used:
  assumes "es \<noteq> []"
  shows "\<exists>k < length es. add_mset (es ! k) (mset (evictOne es)) = mset es \<and>
     (\<forall>e \<in> set es. ce_lastAccess (es ! k) \<le> ce_lastAccess e) \<and>
     (\<forall>j < k. ce_lastAccess (es ! k) < ce_lastAccess (es ! j))"
proof -
  let ?r = "oldest_from (tl es) 1 0 (hd es)"
  obtain e t where es: "es = e # t" using assms by (cases es) auto
  from oldest_from_spec [of t 1 0 e ?r]
  have "?r < length es \<and> (\<forall>x \<in> set es. ce_lastAccess (es ! ?r) \<le> ce_lastAccess x) \<and>
      (\<forall>j < ?r. ce_lastAccess (es ! ?r) < ce_lastAccess (es ! j))"
    unfolding es by (auto simp: less_Suc_eq_0_disj nth_Cons')
  moreover have "evictOne es = take (length es - 1) (es[?r := es ! (length es - 1)])"
    using assms by (simp add: evictOne_def Let_def)
  ultimately show ?thesis using mset_remove_one [of ?r es] by auto
qed

theorem evict_drops_least_recently_used_witness:
  "\<exists>k < 2. add_mset ([demo_entry [] 5, demo_entry [] 3] ! k) (mset (evictOne [demo_entry [] 5, demo_entry [] 3])) =
     {# demo_entry [] 5, demo_entry [] 3 #}"
  using evict_drops_least_recently_used [of "[demo_entry [] 5, demo_entry [] 3]"]
  by (simp add: numeral_2_eq_2) blast

lemma length_evictOne: "length (evictOne es) = length es - 1"
  by (simp add: evictOne_def Let_def)

text \<open>The invariant of the cache: no model has more entries than allowed.\<close>

definition within_capacity :: "'w SemanticCache \<Rightarrow> bool" where
  "within_capacity c \<longleftrightarrow> 0 < ca_maxEntries c \<and> (\<forall>m. int (length (ca_entries c m)) \<le> ca_maxEntries c)"

lemma within_capacity_New: "within_capacity (cache_New cfg emb st)"
  by (simp add: within_capacity_def cache_New_def)

lemma within_capacity_add: "within_capacity c \<Longrightarrow> within_capacity (add_entry t entry c)"
proof -
  assume c: "within_capacity c"
  let ?es = "ca_entries c (ce_model entry)"
  have len: "int (length ?es) \<le> ca_maxEntries c" "0 < ca_maxEntries c" using c by (auto simp: within_capacity_def)
  define es1 where "es1 = (if int (length (?es @ [entry])) > ca_maxEntries c then evictOne (?es @ [entry]) else ?es @ [entry])"
  have l1: "int (length es1) \<le> ca_maxEntries c" using len by (auto simp: es1_def length_evictOne)
  moreover have "ca_maxEntries c \<le> ca_maxEntries c * 3 div 2" using len(2) by simp
  ultimately have "\<not> int (length es1) > ca_maxEntries c * 3 div 2" by linarith
  then have "add_entry t entry c = c\<lparr>ca_entries := (ca_entries c)(ce_model entry := es1)\<rparr>"
    unfolding add_entry_def Let_def es1_def [symmetric] by (simp only: if_False)
  then show ?thesis using c l1 by (auto simp: within_capacity_def)
qed

lemma remove_indices_length: "length (remove_indices is es) \<le> length es"
  by (induction "is" es rule: remove_indices.induct) auto

lemma within_capacity_Lookup: "within_capacity c \<Longrightarrow> within_capacity (snd (cache_Lookup now req c))"
proof -
  assume c: "within_capacity c"
  have r: "within_capacity (removeExpired m ex c)" for m ex
  proof -
    have "int (length (remove_indices (rev ex) (ca_entries c m))) \<le> int (length (ca_entries c m))"
      by (simp add: remove_indices_length)
    also have "\<dots> \<le> ca_maxEntries c" using c by (simp add: within_capacity_def)
    finally show ?thesis using c by (simp add: within_capacity_def removeExpired_def)
  qed
  have u: "within_capacity (c'\<lparr>ca_entries := (ca_entries c')(m := (ca_entries c' m)[b := x])\<rparr>)"
    if "within_capacity c'" for c' :: "'a SemanticCache" and m b x
    using that by (auto simp: within_capacity_def)
  show ?thesis
    using c r u [OF r] u [OF c]
    by (auto simp: cache_Lookup_def Let_def split: go_result.splits option.splits prod.splits sum.splits)
qed

lemma within_capacity_Store: "within_capacity (fst cw) \<Longrightarrow> within_capacity (fst (snd (cache_Store hash clk req resp cw)))"
  by (auto simp: cache_Store_def Let_def within_capacity_add split: go_result.splits option.splits prod.splits)

lemma maxEntries_kept:
  "ca_maxEntries (snd (cache_Lookup now req c)) = ca_maxEntries c"
  "ca_maxEntries (fst (snd (cache_Store hash clk req resp cw))) = ca_maxEntries (fst cw)"
  by (auto simp: cache_Lookup_def cache_Store_def removeExpired_def add_entry_def Let_def
      split: go_result.splits option.splits prod.splits sum.splits)

text \<open>The calls that the service makes on the cache.\<close>

datatype cache_call =
    CallLookup instant StandardRequest
  | CallStore "instant \<times> instant \<times> instant" StandardRequest StandardResponse

fun cache_step :: "(string \<Rightarrow> string) \<Rightarrow> cache_call \<Rightarrow> 'w SemanticCache \<times> 'w \<Rightarrow> 'w SemanticCache \<times> 'w" where
  "cache_step hash (CallLookup now req) (c, w) = (snd (cache_Lookup now req c), w)"
| "cache_step hash (CallStore clk req resp) cw = snd (cache_Store hash clk req resp cw)"

text \<open>
  The cache is bounded: whatever lookups and stores are made on a new cache, no model ever
  has more entries than the configured maximum (10000 when it is not positive).
\<close>

theorem cache_stays_within_capacity:
  "int (length (ca_entries (fst (fold (cache_step hash) calls (cache_New cfg emb st, w))) m)) \<le>
     (if sg_maxEntries cfg \<le> 0 then 10000 else sg_maxEntries cfg)"
proof -
  have step: "within_capacity (fst (cache_step hash call cw)) \<and>
      ca_maxEntries (fst (cache_step hash call cw)) = ca_maxEntries (fst cw)"
    if "within_capacity (fst cw)" for call cw
    using that within_capacity_Lookup within_capacity_Store [of cw]
    by (cases call; cases cw) (simp_all add: maxEntries_kept)
  have "within_capacity (fst cw) \<Longrightarrow> within_capacity (fst (fold (cache_step hash) calls cw)) \<and>
      ca_maxEntries (fst (fold (cache_step hash) calls cw)) = ca_maxEntries (fst cw)" for cw
  proof (induction calls arbitrary: cw)
    case (Cons call calls)
    then show ?case using step [of cw call] by simp
  qed simp
  from this [of "(cache_New cfg emb st, w)"] show ?thesis
    by (auto simp: within_capacity_New) (simp_all add: within_capacity_def cache_New_def)
qed

section \<open>What was stored is found\<close>

lemma prompt_vector_entries [simp]: "prompt_vector (c\<lparr>ca_entries := f\<rparr>) req = prompt_vector c req"
  by (auto simp: prompt_vector_def Let_def split: option.split)

text \<open>
  C29. A stored response is served: below capacity, looking up the same prompt within the time
  to live returns the response just stored, marked as a hit, provided that the prompt is as
  similar to itself as the threshold asks and that no older entry is even more similar to it.
\<close>

theorem store_then_lookup_hits:
  assumes "prompt_vector c req = Ok (Some (text, vec))" and "\<not> req_stream req"
    and "response_ok resp" and "int (length (ca_entries c (req_model req))) < ca_maxEntries c"
    and "cache_Store hash (t1, t2, t3) req resp (c, w) = (r, (c', w'))"
    and "time_sub now t1 \<le> ca_ttl c"
    and "fle (ca_threshold c) (CosineSimilarity vec vec)"
    and "\<forall>e \<in> set (ca_entries c (req_model req)). \<not> flt (CosineSimilarity vec vec) (entry_score vec e)"
  shows "\<exists>ms. fst (cache_Lookup now req c') = Ok (Some (resp\<lparr>rs_cacheHit := True\<rparr>), ms)"
proof -
  let ?m = "req_model req"
  let ?es = "ca_entries c ?m"
  define new where "new = \<lparr>ce_model = ?m, ce_key = hash text, ce_vector = vec, ce_json = marshal_response resp,
     ce_storedAt = t1, ce_lastAccess = t2\<rparr>"
  have "c' = add_entry t3 new c"
    using assms(1,2,5) by (auto simp: cache_Store_def new_def Let_def split: option.splits prod.splits)
  moreover have "\<not> ca_maxEntries c * 3 div 2 < 1 + int (length ?es)" using assms(4) by linarith
  ultimately have c': "c' = c\<lparr>ca_entries := (ca_entries c)(?m := ?es @ [new])\<rparr>"
    using assms(4) by (simp add: add_entry_def new_def Let_def)
  have pv: "prompt_vector c' req = Ok (Some (text, vec))"
    using assms(1) by (simp add: c')
  obtain best ex where s: "lookup_scan (ca_ttl c) now vec (?es @ [new]) 0 None (ca_threshold c) [] = (best, ex)" by fastforce
  have live: "\<not> entry_expired (ca_ttl c) now new" using assms(6) by (simp add: entry_expired_def new_def)
  have sc: "entry_score vec new = CosineSimilarity vec vec" by (simp add: new_def)
  have "best = Some (length ?es)"
  proof (cases best)
    case None
    then show ?thesis using lookup_scan_result(2) [OF s] live assms(7) sc by auto
  next
    case (Some k)
    then have k: "best_entry (ca_ttl c) now vec (ca_threshold c) (?es @ [new]) k"
      using lookup_scan_result(2) [OF s] by simp
    have "\<not> k < length ?es"
    proof
      assume lt: "k < length ?es"
      then have "\<not> fle (entry_score vec (?es ! k)) (entry_score vec new)" "fle (ca_threshold c) (entry_score vec (?es ! k))"
        using k live unfolding best_entry_def by (auto simp: nth_append dest: spec [of _ "length ?es"])
      moreover have "\<not> flt (entry_score vec new) (entry_score vec (?es ! k))" using assms(8) lt sc by simp
      ultimately show False using assms(7) sc by (auto simp: fle_ford flt_ford)
    qed
    then show ?thesis using k Some by (simp add: best_entry_def)
  qed
  then have s': "lookup_scan (ca_ttl c') now vec (ca_entries c' ?m) 0 None (ca_threshold c') [] = (Some (length ?es), ex)"
    using s by (simp add: c')
  have "ce_json (ca_entries c' ?m ! length ?es) = marshal_response resp" by (simp add: c' new_def)
  then show ?thesis
    by (simp add: cache_Lookup_def pv s' unmarshal_marshal [OF assms(3)] Let_def)
qed

definition demo_empty :: "unit SemanticCache" where
  "demo_empty = demo_cache\<lparr>ca_entries := (\<lambda>_. [])\<rparr>"

theorem store_then_lookup_hits_witness:
  "\<exists>ms. fst (cache_Lookup 60 demo_prompt (fst (snd (cache_Store (\<lambda>_. ''k'') (10, 11, 12) demo_prompt demo_response (demo_empty, ()))))) =
     Ok (Some (demo_response\<lparr>rs_cacheHit := True\<rparr>), ms)"
proof -
  have pv: "prompt_vector demo_empty demo_prompt = Ok (Some (''hi'', [f64_of_int 1, fzero]))"
    using demo_prompt_vector by (simp add: demo_empty_def)
  have st: "\<not> req_stream demo_prompt" by (simp add: demo_prompt_def zero_request_def)
  obtain r c' w' where s: "cache_Store (\<lambda>_. ''k'') (10, 11, 12) demo_prompt demo_response (demo_empty, ()) = (r, (c', w'))"
    by (metis prod.exhaust)
  have t: "time_sub 60 10 = 50" by (simp add: time_sub_def min_int64_def max_int64_def)
  have "\<exists>ms. fst (cache_Lookup 60 demo_prompt c') = Ok (Some (demo_response\<lparr>rs_cacheHit := True\<rparr>), ms)"
    by (rule store_then_lookup_hits [OF pv st demo_response_ok _ s])
      (simp_all add: demo_empty_def demo_cache_def t demo_cosines demo_compare)
  then show ?thesis using s by simp
qed

section \<open>Two lookups at once\<close>

text \<open>
  The indices of expired entries are found without the lock and removed under it. When a
  second lookup has found the same indices before the first removes them, its removal takes
  live entries: here the stale index 0, used again, drops the entry that moved there.
\<close>

theorem stale_indices_remove_live_entry:
  "\<exists>(c :: unit SemanticCache) now. let m = ''m''; ex = expired_at (ca_ttl c) now (ca_entries c m);
       c1 = removeExpired m ex c; c2 = removeExpired m ex c1
     in (\<exists>e \<in> set (ca_entries c1 m). \<not> entry_expired (ca_ttl c) now e) \<and> ca_entries c2 m = []"
proof -
  have t: "time_sub 120 0 = 120" "time_sub 120 50 = 70"
    by (simp_all add: time_sub_def min_int64_def max_int64_def)
  have "expired_at (ca_ttl demo_cache) 120 (ca_entries demo_cache ''m'') = [0]"
    unfolding demo_cache_facts by (simp add: expired_at_Cons entry_expired_def demo_entry_def t) (simp add: expired_at_def)
  then show ?thesis
    by (intro exI [of _ demo_cache] exI [of _ 120])
      (simp add: removeExpired_def demo_cache_facts Let_def entry_expired_def demo_entry_def t)
qed

end
