(* ===== verification/Circuit_Breaker.thy ===== *)
theory Circuit_Breaker
  imports Gateway_Prelude
begin

text \<open>
  The three-state circuit breaker of \<^verbatim>\<open>internal/decision/circuitbreaker.go\<close> and
  the manager that keeps one breaker per provider and model
  (\<^verbatim>\<open>circuitBreakerManagerImpl\<close> in \<^verbatim>\<open>internal/ingress/service.go\<close>).
  The clock is an argument of the operations that read it. Mutexes are not modelled: each
  operation holds the lock for its whole body, so an execution is a sequence of operations.
\<close>

section \<open>The breaker\<close>

datatype CircuitState = StateClosed | StateOpen | StateHalfOpen

record CircuitBreaker =
  cb_threshold :: int
  cb_cooldown :: duration
  cb_failures :: int
  cb_state :: CircuitState
  cb_openedAt :: instant

definition NewCircuitBreaker :: "int \<Rightarrow> duration \<Rightarrow> CircuitBreaker" where
  "NewCircuitBreaker threshold cooldown =
     \<lparr>cb_threshold = threshold, cb_cooldown = cooldown, cb_failures = 0,
      cb_state = StateClosed, cb_openedAt = 0\<rparr>"

definition cb_Allow :: "instant \<Rightarrow> CircuitBreaker \<Rightarrow> bool \<times> CircuitBreaker" where
  "cb_Allow now cb =
     (if cb_state cb = StateOpen \<and> time_sub now (cb_openedAt cb) \<ge> cb_cooldown cb
      then (True, cb\<lparr>cb_state := StateHalfOpen\<rparr>)
      else (cb_state cb \<noteq> StateOpen, cb))"

definition cb_RecordSuccess :: "CircuitBreaker \<Rightarrow> CircuitBreaker" where
  "cb_RecordSuccess cb = cb\<lparr>cb_failures := 0, cb_state := StateClosed\<rparr>"

definition cb_RecordFailure :: "instant \<Rightarrow> CircuitBreaker \<Rightarrow> CircuitBreaker" where
  "cb_RecordFailure now cb =
     (let cb = cb\<lparr>cb_failures := cb_failures cb + 1\<rparr>
      in if cb_failures cb \<ge> cb_threshold cb
         then cb\<lparr>cb_state := StateOpen, cb_openedAt := now\<rparr>
         else cb)"

definition cb_State :: "CircuitBreaker \<Rightarrow> CircuitState" where
  "cb_State cb = cb_state cb"

lemmas cb_defs [breaker_simps] =
  NewCircuitBreaker_def cb_Allow_def cb_RecordSuccess_def cb_RecordFailure_def cb_State_def

section \<open>Runs of the breaker\<close>

text \<open>The calls a breaker receives, each with the clock it reads.\<close>

datatype cb_event = EvAllow instant | EvSuccess | EvFailure instant

fun cb_step :: "cb_event \<Rightarrow> CircuitBreaker \<Rightarrow> CircuitBreaker" where
  "cb_step (EvAllow t) cb = snd (cb_Allow t cb)"
| "cb_step EvSuccess cb = cb_RecordSuccess cb"
| "cb_step (EvFailure t) cb = cb_RecordFailure t cb"

fun cb_run :: "cb_event list \<Rightarrow> CircuitBreaker \<Rightarrow> CircuitBreaker" where
  "cb_run [] cb = cb"
| "cb_run (e # es) cb = cb_run es (cb_step e cb)"

lemma cb_run_append [simp]: "cb_run (es @ fs) cb = cb_run fs (cb_run es cb)"
  by (induction es arbitrary: cb) auto

lemma cb_step_config [simp]:
  "cb_threshold (cb_step e cb) = cb_threshold cb"
  "cb_cooldown (cb_step e cb) = cb_cooldown cb"
  by (cases e; simp add: breaker_simps Let_def)+

lemma cb_run_config [simp]:
  "cb_threshold (cb_run es cb) = cb_threshold cb"
  "cb_cooldown (cb_run es cb) = cb_cooldown cb"
  by (induction es arbitrary: cb) simp_all

subsection \<open>What the breaker counts\<close>

text \<open>
  The abstract specification of the failure counter: the failures of a call history since
  the last success. Admission tests do not touch it.
\<close>

fun count_failures :: "int \<Rightarrow> cb_event list \<Rightarrow> int" where
  "count_failures n [] = n"
| "count_failures n (EvAllow t # es) = count_failures n es"
| "count_failures n (EvSuccess # es) = count_failures 0 es"
| "count_failures n (EvFailure t # es) = count_failures (n + 1) es"

lemma cb_run_failures: "cb_failures (cb_run es cb) = count_failures (cb_failures cb) es"
  by (induction "cb_failures cb" es arbitrary: cb rule: count_failures.induct)
    (auto simp: breaker_simps Let_def)

text \<open>The invariant that ties the state to the counter, for a positive threshold.\<close>

definition cb_inv :: "CircuitBreaker \<Rightarrow> bool" where
  "cb_inv cb \<longleftrightarrow> 0 \<le> cb_failures cb \<and>
     (0 < cb_threshold cb \<longrightarrow>
        (cb_state cb = StateClosed \<longleftrightarrow> cb_failures cb < cb_threshold cb))"

lemma cb_inv_New [simp]: "cb_inv (NewCircuitBreaker th cd)"
  by (simp add: cb_inv_def breaker_simps)

lemma cb_inv_Allow [simp]: "cb_inv cb \<Longrightarrow> cb_inv (snd (cb_Allow t cb))"
  by (auto simp: cb_inv_def breaker_simps)

lemma cb_inv_RecordSuccess [simp]: "cb_inv cb \<Longrightarrow> cb_inv (cb_RecordSuccess cb)"
  by (auto simp: cb_inv_def breaker_simps)

lemma cb_inv_RecordFailure [simp]: "cb_inv cb \<Longrightarrow> cb_inv (cb_RecordFailure t cb)"
  by (auto simp: cb_inv_def breaker_simps Let_def)

lemma cb_inv_step: "cb_inv cb \<Longrightarrow> cb_inv (cb_step e cb)"
  by (cases e) simp_all

lemma cb_inv_run: "cb_inv cb \<Longrightarrow> cb_inv (cb_run es cb)"
  by (induction es arbitrary: cb) (simp_all add: cb_inv_step)

text \<open>
  C19. A breaker with a positive threshold is closed exactly while the failures recorded
  since the last success stay below the threshold, whatever calls were interleaved and
  whenever they came.
\<close>

theorem breaker_closed_iff_few_failures:
  assumes "0 < threshold"
  shows "cb_State (cb_run es (NewCircuitBreaker threshold cooldown)) = StateClosed
     \<longleftrightarrow> count_failures 0 es < threshold"
proof -
  let ?cb = "cb_run es (NewCircuitBreaker threshold cooldown)"
  have "cb_inv ?cb" by (simp add: cb_inv_run)
  moreover have "cb_failures ?cb = count_failures 0 es"
    by (simp add: cb_run_failures NewCircuitBreaker_def)
  moreover have "cb_threshold ?cb = threshold" by (simp add: NewCircuitBreaker_def)
  ultimately show ?thesis using assms by (simp add: cb_inv_def cb_State_def)
qed

theorem breaker_closed_iff_few_failures_witness:
  "cb_State (cb_run [EvFailure 1, EvAllow 2, EvFailure 3] (NewCircuitBreaker 2 10)) = StateOpen
   \<and> cb_State (cb_run [EvFailure 1, EvSuccess, EvFailure 3] (NewCircuitBreaker 2 10)) = StateClosed"
proof -
  have "cb_State (cb_run [EvFailure 1, EvSuccess, EvFailure 3] (NewCircuitBreaker 2 10))
        = StateClosed"
    by (subst breaker_closed_iff_few_failures) simp_all
  then show ?thesis by (simp add: breaker_simps Let_def)
qed


subsection \<open>Open circuits reject until the cooldown has passed\<close>

text \<open>A call other than a success, made at an instant from \<open>lo\<close> up to \<open>hi\<close>.\<close>

fun call_between :: "instant \<Rightarrow> instant \<Rightarrow> cb_event \<Rightarrow> bool" where
  "call_between lo hi (EvAllow t) \<longleftrightarrow> lo \<le> t \<and> t < hi"
| "call_between lo hi EvSuccess \<longleftrightarrow> False"
| "call_between lo hi (EvFailure t) \<longleftrightarrow> lo \<le> t \<and> t < hi"

lemma cb_run_stays_open:
  assumes "cb_state cb = StateOpen" and "in_int64 (cb_cooldown cb)"
    and "lo \<le> cb_openedAt cb" and "\<forall>e \<in> set es. call_between lo (lo + cb_cooldown cb) e"
  shows "cb_state (cb_run es cb) = StateOpen \<and> lo \<le> cb_openedAt (cb_run es cb)"
  using assms
proof (induction es arbitrary: cb)
  case Nil
  then show ?case by simp
next
  case (Cons e es)
  have "cb_state (cb_step e cb) = StateOpen \<and> lo \<le> cb_openedAt (cb_step e cb)"
    using Cons.prems
    by (cases e) (auto simp: breaker_simps Let_def time_sub_def in_int64_def min_int64_def)
  with Cons.prems Cons.IH [of "cb_step e cb"] show ?case by simp
qed

text \<open>
  A circuit that opened at an instant rejects every request until a full cooldown has
  passed since then: admission tests and further failures in between, whatever their
  order, neither admit a request nor shorten the wait.
\<close>

theorem open_rejects_until_cooldown:
  assumes "cb_State cb = StateOpen" and "in_int64 (cb_cooldown cb)"
    and "\<forall>e \<in> set es. call_between (cb_openedAt cb) (cb_openedAt cb + cb_cooldown cb) e"
    and "cb_openedAt cb \<le> t" and "t < cb_openedAt cb + cb_cooldown cb"
  shows "\<not> fst (cb_Allow t (cb_run es cb))"
proof -
  have is_open: "cb_state (cb_run es cb) = StateOpen"
    and opened: "cb_openedAt cb \<le> cb_openedAt (cb_run es cb)"
    using cb_run_stays_open [of cb "cb_openedAt cb" es] assms by (simp_all add: cb_State_def)
  have "\<not> cb_cooldown cb \<le> time_sub t (cb_openedAt (cb_run es cb))"
    using opened assms(2,4,5) by (simp add: time_sub_def in_int64_def min_int64_def)
  with is_open show ?thesis by (simp add: cb_Allow_def)
qed

theorem open_rejects_until_cooldown_witness:
  "\<not> fst (cb_Allow 39 (cb_run [EvAllow 15, EvFailure 20]
      (cb_run [EvFailure 5, EvFailure 10] (NewCircuitBreaker 2 30))))"
  by (rule open_rejects_until_cooldown)
    (simp_all add: breaker_simps Let_def in_int64_def min_int64_def max_int64_def)

text \<open>
  After the cooldown an open circuit admits a request and becomes half-open; a failure
  of the probe re-opens it with a fresh cooldown, and a success closes it and clears the
  failure count. This holds for every breaker that calls can bring about.
\<close>

theorem half_open_probe_cycle:
  assumes "0 < threshold" and "in_int64 cooldown" and "min_int64 < cooldown"
    and cb: "cb = cb_run es (NewCircuitBreaker threshold cooldown)"
    and "cb_State cb = StateOpen" and "cooldown \<le> t - cb_openedAt cb"
    and probe: "cb_Allow t cb = (ok, probing)"
  shows "ok \<and> cb_State probing = StateHalfOpen
    \<and> cb_State (cb_RecordFailure t' probing) = StateOpen
    \<and> cb_openedAt (cb_RecordFailure t' probing) = t'
    \<and> cb_State (cb_RecordSuccess probing) = StateClosed
    \<and> cb_failures (cb_RecordSuccess probing) = 0"
proof -
  have inv: "cb_inv cb" and th: "cb_threshold cb = threshold" and cd: "cb_cooldown cb = cooldown"
    by (simp_all add: cb cb_inv_run) (simp_all add: NewCircuitBreaker_def)
  have "cooldown \<le> time_sub t (cb_openedAt cb)"
    using assms(2,3,6) by (simp add: time_sub_ge_iff)
  then have p: "ok" "probing = cb\<lparr>cb_state := StateHalfOpen\<rparr>"
    using probe assms(5) cd by (auto simp: cb_Allow_def cb_State_def)
  have "threshold \<le> cb_failures cb"
    using inv assms(1,5) th by (simp add: cb_inv_def cb_State_def)
  with p th show ?thesis by (simp add: breaker_simps)
qed

theorem half_open_probe_cycle_witness:
  "let cb = cb_run [EvFailure 5, EvFailure 10] (NewCircuitBreaker 2 30) in
   fst (cb_Allow 40 cb) \<and>
   cb_State (cb_RecordFailure 41 (snd (cb_Allow 40 cb))) = StateOpen"
proof -
  let ?cb = "cb_run [EvFailure 5, EvFailure 10] (NewCircuitBreaker 2 30)"
  have "fst (cb_Allow 40 ?cb) \<and>
      cb_State (cb_RecordFailure 41 (snd (cb_Allow 40 ?cb))) = StateOpen"
    using half_open_probe_cycle [of 2 30 ?cb "[EvFailure 5, EvFailure 10]" 40
        "fst (cb_Allow 40 ?cb)" "snd (cb_Allow 40 ?cb)" 41]
    by (simp add: breaker_simps Let_def in_int64_def min_int64_def max_int64_def)
  then show ?thesis by (simp only: Let_def)
qed

subsection \<open>The three-state automaton\<close>

text \<open>
  The transitions between the states. The last rule is not in the documented cycle
  (Closed to Open to Half-Open and back): a success that arrives while the circuit is open,
  from a request admitted before it opened, closes it at once.
\<close>

inductive circuit_trans :: "CircuitState \<Rightarrow> CircuitState \<Rightarrow> bool" where
  trip: "circuit_trans StateClosed StateOpen"
| probe: "circuit_trans StateOpen StateHalfOpen"
| recover: "circuit_trans StateHalfOpen StateClosed"
| reopen: "circuit_trans StateHalfOpen StateOpen"
| late_success: "circuit_trans StateOpen StateClosed"

inductive_simps from_closed_simps [simp]: "circuit_trans StateClosed s"
inductive_simps to_half_open_simps [simp]: "circuit_trans s StateHalfOpen"

lemma cb_step_trans: "cb_state (cb_step e cb) = cb_state cb \<or>
    circuit_trans (cb_state cb) (cb_state (cb_step e cb))"
  by (cases e; cases "cb_state cb") (auto simp: breaker_simps Let_def intro: circuit_trans.intros)

lemma cb_step_half_open:
  assumes "cb_state (cb_step e cb) = StateHalfOpen" and "cb_state cb \<noteq> StateHalfOpen"
  shows "\<exists>t. e = EvAllow t \<and> cb_state cb = StateOpen \<and>
             cb_cooldown cb \<le> time_sub t (cb_openedAt cb)"
  using assms by (cases e) (auto simp: breaker_simps Let_def split: if_splits)

text \<open>
  The state of a breaker only moves along the transitions of the automaton, and the
  half-open state is entered only from the open state, by an admission test that comes a
  cooldown or more after the circuit opened.
\<close>

theorem breaker_moves_along_automaton:
  "(cb_State (cb_step e cb) = cb_State cb \<or> circuit_trans (cb_State cb) (cb_State (cb_step e cb)))
   \<and> (cb_State (cb_step e cb) = StateHalfOpen \<longrightarrow> cb_State cb \<noteq> StateHalfOpen \<longrightarrow>
        (\<exists>t. e = EvAllow t \<and> cb_State cb = StateOpen \<and>
             cb_cooldown cb \<le> time_sub t (cb_openedAt cb)))"
  using cb_step_trans [of e cb] cb_step_half_open [of e cb] by (simp add: cb_State_def)

theorem breaker_moves_along_automaton_witness:
  "cb_State (cb_step (EvAllow 50) (cb_run [EvFailure 5] (NewCircuitBreaker 1 30))) = StateHalfOpen
   \<and> cb_cooldown (cb_run [EvFailure 5] (NewCircuitBreaker 1 30)) \<le>
       time_sub 50 (cb_openedAt (cb_run [EvFailure 5] (NewCircuitBreaker 1 30)))"
  using breaker_moves_along_automaton [of "EvAllow 50" "cb_run [EvFailure 5] (NewCircuitBreaker 1 30)"]
  by (simp add: breaker_simps Let_def time_sub_def min_int64_def max_int64_def)

section \<open>The manager\<close>

record CircuitBreakerManager =
  cbm_breakers :: "string \<rightharpoonup> CircuitBreaker"
  cbm_threshold :: int
  cbm_cooldown :: duration

definition NewCircuitBreakerManager :: "int \<Rightarrow> duration \<Rightarrow> CircuitBreakerManager" where
  "NewCircuitBreakerManager threshold cooldown =
     \<lparr>cbm_breakers = Map.empty, cbm_threshold = threshold, cbm_cooldown = cooldown\<rparr>"

definition cbm_key :: "string \<Rightarrow> string \<Rightarrow> string" where
  "cbm_key provider model = provider @ ''/'' @ model"

definition getOrCreate :: "string \<Rightarrow> CircuitBreakerManager \<Rightarrow> CircuitBreaker \<times> CircuitBreakerManager" where
  "getOrCreate key m =
     (case cbm_breakers m key of
        Some cb \<Rightarrow> (cb, m)
      | None \<Rightarrow>
          let cb = NewCircuitBreaker (cbm_threshold m) (cbm_cooldown m)
          in (cb, m\<lparr>cbm_breakers := (cbm_breakers m)(key \<mapsto> cb)\<rparr>))"

text \<open>
  The source keeps pointers to the breakers in the map and mutates them in place; here the
  changed breaker is written back under its key.
\<close>

definition cbm_Allow :: "instant \<Rightarrow> string \<Rightarrow> string \<Rightarrow> CircuitBreakerManager \<Rightarrow> bool \<times> CircuitBreakerManager" where
  "cbm_Allow now provider model m =
     (let key = cbm_key provider model; (cb, m) = getOrCreate key m; (ok, cb) = cb_Allow now cb
      in (ok, m\<lparr>cbm_breakers := (cbm_breakers m)(key \<mapsto> cb)\<rparr>))"

definition cbm_RecordSuccess :: "string \<Rightarrow> string \<Rightarrow> CircuitBreakerManager \<Rightarrow> CircuitBreakerManager" where
  "cbm_RecordSuccess provider model m =
     (let key = cbm_key provider model; (cb, m) = getOrCreate key m
      in m\<lparr>cbm_breakers := (cbm_breakers m)(key \<mapsto> cb_RecordSuccess cb)\<rparr>)"

definition cbm_RecordFailure :: "instant \<Rightarrow> string \<Rightarrow> string \<Rightarrow> CircuitBreakerManager \<Rightarrow> CircuitBreakerManager" where
  "cbm_RecordFailure now provider model m =
     (let key = cbm_key provider model; (cb, m) = getOrCreate key m
      in m\<lparr>cbm_breakers := (cbm_breakers m)(key \<mapsto> cb_RecordFailure now cb)\<rparr>)"

lemmas cbm_defs [breaker_simps] =
  NewCircuitBreakerManager_def getOrCreate_def cbm_Allow_def cbm_RecordSuccess_def
  cbm_RecordFailure_def

lemma append_sep_inj:
  "c \<notin> set xs \<Longrightarrow> c \<notin> set xs' \<Longrightarrow> xs @ c # ys = xs' @ c # ys' \<longleftrightarrow> xs = xs' \<and> ys = ys'"
  by (auto simp: append_eq_append_conv2 Cons_eq_append_conv append_eq_Cons_conv)

lemma cbm_key_inj:
  assumes "CHR ''/'' \<notin> set p" and "CHR ''/'' \<notin> set p'"
  shows "cbm_key p m = cbm_key p' m' \<longleftrightarrow> p = p' \<and> m = m'"
  using assms append_sep_inj [of "CHR ''/''" p p' m m'] by (simp add: cbm_key_def)

subsection \<open>The interface the chat service uses\<close>

text \<open>
  The contract of a breaker manager: under each key it behaves as one breaker of its own,
  untouched by calls under other keys.
\<close>

locale breaker_manager =
  fixes allow :: "instant \<Rightarrow> string \<Rightarrow> string \<Rightarrow> 'm \<Rightarrow> bool \<times> 'm"
    and success :: "string \<Rightarrow> string \<Rightarrow> 'm \<Rightarrow> 'm"
    and failure :: "instant \<Rightarrow> string \<Rightarrow> string \<Rightarrow> 'm \<Rightarrow> 'm"
    and key :: "string \<Rightarrow> string \<Rightarrow> 'k"
    and breaker :: "'m \<Rightarrow> 'k \<Rightarrow> CircuitBreaker"
  assumes allow_answer: "fst (allow t p md m) = fst (cb_Allow t (breaker m (key p md)))"
    and allow_breaker: "breaker (snd (allow t p md m)) =
          (breaker m)(key p md := snd (cb_Allow t (breaker m (key p md))))"
    and success_breaker: "breaker (success p md m) =
          (breaker m)(key p md := cb_RecordSuccess (breaker m (key p md)))"
    and failure_breaker: "breaker (failure t p md m) =
          (breaker m)(key p md := cb_RecordFailure t (breaker m (key p md)))"

text \<open>A call of the manager: the provider, the model and what is called.\<close>

type_synonym cbm_event = "string \<times> string \<times> cb_event"

fun mgr_step :: "(instant \<Rightarrow> string \<Rightarrow> string \<Rightarrow> 'm \<Rightarrow> bool \<times> 'm) \<Rightarrow>
    (string \<Rightarrow> string \<Rightarrow> 'm \<Rightarrow> 'm) \<Rightarrow> (instant \<Rightarrow> string \<Rightarrow> string \<Rightarrow> 'm \<Rightarrow> 'm) \<Rightarrow>
    cbm_event \<Rightarrow> 'm \<Rightarrow> 'm" where
  "mgr_step allow success failure (p, md, EvAllow t) m = snd (allow t p md m)"
| "mgr_step allow success failure (p, md, EvSuccess) m = success p md m"
| "mgr_step allow success failure (p, md, EvFailure t) m = failure t p md m"

definition calls_of :: "(string \<Rightarrow> string \<Rightarrow> 'k) \<Rightarrow> 'k \<Rightarrow> cbm_event list \<Rightarrow> cb_event list" where
  "calls_of key k es = map (\<lambda>(p, md, e). e) (filter (\<lambda>(p, md, e). key p md = k) es)"

lemma calls_of_simps [simp]:
  "calls_of key k [] = []"
  "calls_of key k ((p, md, e) # es) = (if key p md = k then e # calls_of key k es else calls_of key k es)"
  by (simp_all add: calls_of_def)

context breaker_manager
begin

lemma step_breaker:
  "breaker (mgr_step allow success failure (p, md, e) m) =
     (breaker m)(key p md := cb_step e (breaker m (key p md)))"
  by (cases e) (simp_all add: allow_breaker success_breaker failure_breaker)

lemma run_breaker:
  "breaker (fold (mgr_step allow success failure) es m) k = cb_run (calls_of key k es) (breaker m k)"
  by (induction es arbitrary: m) (auto simp: step_breaker)

lemma allow_other: "k \<noteq> key p md \<Longrightarrow> breaker (snd (allow t p md m)) k = breaker m k"
  by (simp add: allow_breaker)

end

text \<open>The breaker the manager would use for a key: the stored one, or a new one.\<close>

definition cbm_view :: "CircuitBreakerManager \<Rightarrow> string \<Rightarrow> CircuitBreaker" where
  "cbm_view m key = fst (getOrCreate key m)"

lemma cbm_view_code: "cbm_view m key =
    map_get (NewCircuitBreaker (cbm_threshold m) (cbm_cooldown m)) (cbm_breakers m) key"
  by (simp add: cbm_view_def getOrCreate_def map_get_def Let_def split: option.splits)

lemma getOrCreate_pair: "getOrCreate key m = (cbm_view m key, m\<lparr>cbm_breakers := (cbm_breakers m)(key \<mapsto> cbm_view m key)\<rparr>)"
  by (cases m) (auto simp: cbm_view_def getOrCreate_def Let_def fun_upd_idem split: option.splits)

interpretation cbm: breaker_manager cbm_Allow cbm_RecordSuccess cbm_RecordFailure cbm_key cbm_view
  by unfold_locales
    (auto simp: cbm_Allow_def cbm_RecordSuccess_def cbm_RecordFailure_def getOrCreate_pair Let_def
      cbm_view_code fun_eq_iff split: prod.splits)

text \<open>
  C20. Every provider and model has a breaker of its own: after any sequence of calls to a
  new manager, the breaker of a provider and model is the one obtained by feeding a new
  breaker only the calls made for exactly that provider and model. Provider names must not
  contain a slash, since the key joins the two names with one.
\<close>

theorem manager_isolates_breakers:
  assumes "\<forall>(p', md', e) \<in> set es. CHR ''/'' \<notin> set p'" and "CHR ''/'' \<notin> set p"
  shows "cbm_view (fold (mgr_step cbm_Allow cbm_RecordSuccess cbm_RecordFailure) es
            (NewCircuitBreakerManager threshold cooldown)) (cbm_key p md) =
         cb_run (map (\<lambda>(p', md', e). e) (filter (\<lambda>(p', md', e). p' = p \<and> md' = md) es))
            (NewCircuitBreaker threshold cooldown)"
proof -
  have "calls_of cbm_key (cbm_key p md) es =
      map (\<lambda>(p', md', e). e) (filter (\<lambda>(p', md', e). p' = p \<and> md' = md) es)"
    unfolding calls_of_def using assms
    by (intro arg_cong [where f = "map _"] filter_cong) (auto simp: cbm_key_inj)
  then show ?thesis
    by (simp add: cbm.run_breaker) (simp add: cbm_view_code NewCircuitBreakerManager_def)
qed

theorem manager_isolates_breakers_witness:
  "cbm_view (fold (mgr_step cbm_Allow cbm_RecordSuccess cbm_RecordFailure)
       [(''a'', ''x'', EvFailure 1), (''b'', ''x'', EvSuccess), (''a'', ''x'', EvFailure 2)]
       (NewCircuitBreakerManager 2 10)) (cbm_key ''a'' ''x'') =
     cb_run [EvFailure 1, EvFailure 2] (NewCircuitBreaker 2 10)"
  by (subst manager_isolates_breakers) simp_all

end
