(* ===== verification/Chat_Service.thy ===== *)
theory Chat_Service
  imports Router Fallback Semantic_Cache Circuit_Breaker
begin

text \<open>
  The chat service of \<^verbatim>\<open>internal/ingress/service.go\<close>, which composes the cache, the router,
  the circuit breakers, the fallback engine and the providers into the two operations that the
  HTTP handlers call, and the goroutine that forwards a stream.
\<close>

section \<open>The service\<close>

text \<open>
  The request context, the clock and the timer, over the state of the outside world; reading
  the clock may change that state, so two readings may differ. \<open>sx_hash\<close> is the hash of the
  cache keys.
\<close>

record 'w service_env =
  sx_clock :: "'w \<Rightarrow> instant \<times> 'w"
  sx_ctxErr :: "'w \<Rightarrow> go_error option"
  sx_wait :: "duration \<Rightarrow> 'w \<Rightarrow> go_error option \<times> 'w"
  sx_hash :: "string \<Rightarrow> string"

text \<open>
  The fields of \<^verbatim>\<open>chatServiceImpl\<close>, followed by what its operations change outside of it:
  the metrics, as the list of all updates so far, and the outside world. The durations that
  \<^verbatim>\<open>RequestDuration\<close> observes are left out of the updates.
\<close>

record 'w Service =
  sv_router :: "'w Router"
  sv_cbManager :: CircuitBreakerManager
  sv_cache :: "'w SemanticCache option"
  sv_fallbackEng :: Engine
  sv_providerLookup :: "string \<Rightarrow> 'w Provider option"
  sv_metrics :: "metric list"
  sv_world :: 'w

definition NewChatService :: "'w Router \<Rightarrow> CircuitBreakerManager \<Rightarrow> 'w SemanticCache option \<Rightarrow> Engine \<Rightarrow>
    (string \<Rightarrow> 'w Provider option) \<Rightarrow> 'w \<Rightarrow> 'w Service" where
  "NewChatService router mgr cache eng lookup w =
     \<lparr>sv_router = router, sv_cbManager = mgr, sv_cache = cache, sv_fallbackEng = eng,
      sv_providerLookup = lookup, sv_metrics = [], sv_world = w\<rparr>"

definition update_metrics :: "metric list \<Rightarrow> 'w Service \<Rightarrow> 'w Service" where
  "update_metrics ms s = s\<lparr>sv_metrics := sv_metrics s @ ms\<rparr>"

text \<open>The calls to the breaker manager, which read the clock.\<close>

definition svc_Allow :: "'w service_env \<Rightarrow> string \<Rightarrow> string \<Rightarrow> 'w Service \<Rightarrow> bool \<times> 'w Service" where
  "svc_Allow env p m s =
     (let (now, w) = sx_clock env (sv_world s); (ok, mgr) = cbm_Allow now p m (sv_cbManager s)
      in (ok, s\<lparr>sv_cbManager := mgr, sv_world := w\<rparr>))"

definition svc_RecordFailure :: "'w service_env \<Rightarrow> string \<Rightarrow> string \<Rightarrow> 'w Service \<Rightarrow> 'w Service" where
  "svc_RecordFailure env p m s =
     (let (now, w) = sx_clock env (sv_world s)
      in s\<lparr>sv_cbManager := cbm_RecordFailure now p m (sv_cbManager s), sv_world := w\<rparr>)"

definition svc_RecordSuccess :: "string \<Rightarrow> string \<Rightarrow> 'w Service \<Rightarrow> 'w Service" where
  "svc_RecordSuccess p m s = s\<lparr>sv_cbManager := cbm_RecordSuccess p m (sv_cbManager s)\<rparr>"

definition breaker_open :: "string \<Rightarrow> string \<Rightarrow> go_error" where
  "breaker_open p m = new_error ErrCodeCircuitOpen (''circuit breaker open for '' @ p @ ''/'' @ m)"

definition provider_missing :: "string \<Rightarrow> go_error" where
  "provider_missing p = new_error ErrCodeProviderError (''provider not found: '' @ p)"

text \<open>The send function that the fallback engine calls; a nil provider is \<open>None\<close>.\<close>

definition buildSendFn :: "'w service_env \<Rightarrow> StandardRequest \<Rightarrow> 'w Service send_fun" where
  "buildSendFn env originalReq providerName modelName s =
     (case sv_providerLookup s providerName of
        None \<Rightarrow> (Inl (provider_missing providerName), s)
      | Some provider \<Rightarrow>
          let (ok, s) = svc_Allow env providerName modelName s in
          if \<not> ok then (Inl (breaker_open providerName modelName), s)
          else
            let req = originalReq\<lparr>req_model := modelName, req_stream := False\<rparr>;
                (r, w) = pv_send provider req (sv_world s);
                s = s\<lparr>sv_world := w\<rparr>
            in case r of
                 Inl err \<Rightarrow> (Inl err, svc_RecordFailure env providerName modelName s)
               | Inr resp \<Rightarrow>
                   let s = svc_RecordSuccess providerName modelName s;
                       resp = resp\<lparr>rs_provider := providerName\<rparr>;
                       resp = (if rs_model resp = '''' then resp\<lparr>rs_model := modelName\<rparr> else resp)
                   in (Inr resp, s))"

text \<open>The environment in which the engine runs, on the state of the service.\<close>

definition service_fe_env :: "'w service_env \<Rightarrow> 'w Service fe_env" where
  "service_fe_env env =
     \<lparr>fe_ctxErr = (\<lambda>s. sx_ctxErr env (sv_world s)),
      fe_wait = (\<lambda>d s. let (r, w) = sx_wait env d (sv_world s) in (r, s\<lparr>sv_world := w\<rparr>))\<rparr>"

subsection \<open>Completions\<close>

definition service_lookup :: "'w service_env \<Rightarrow> StandardRequest \<Rightarrow> 'w Service \<Rightarrow>
    StandardResponse option go_result \<times> 'w Service" where
  "service_lookup env req s =
     (case sv_cache s of
        None \<Rightarrow> (Ok None, s)
      | Some c \<Rightarrow>
          let (now, w) = sx_clock env (sv_world s); (r, c) = cache_Lookup now req c;
              s = s\<lparr>sv_cache := Some c, sv_world := w\<rparr>
          in case r of
               Panic \<Rightarrow> (Panic, s)
             | Err e \<Rightarrow> (Err e, s)
             | Ok (resp, ms) \<Rightarrow> (Ok resp, update_metrics ms s))"

definition service_store :: "'w service_env \<Rightarrow> StandardRequest \<Rightarrow> StandardResponse \<Rightarrow> 'w Service \<Rightarrow>
    StandardResponse go_result \<times> 'w Service" where
  "service_store env req resp s =
     (case sv_cache s of
        None \<Rightarrow> (Ok resp, s)
      | Some c \<Rightarrow>
          let (t1, w) = sx_clock env (sv_world s); (t2, w) = sx_clock env w; (t3, w) = sx_clock env w;
              (r, c, w) = cache_Store (sx_hash env) (t1, t2, t3) req resp (c, w);
              s = s\<lparr>sv_cache := Some c, sv_world := w\<rparr>
          in case r of Panic \<Rightarrow> (Panic, s) | _ \<Rightarrow> (Ok resp, s))"

text \<open>
  What follows a successful execution: metrics, the provider's name, the cache. A Prometheus
  counter panics when a negative value is added to it.
\<close>

definition finish_request :: "'w service_env \<Rightarrow> StandardRequest \<Rightarrow> RouteDecision \<Rightarrow> StandardResponse \<Rightarrow> string \<Rightarrow>
    'w Service \<Rightarrow> StandardResponse go_result \<times> 'w Service" where
  "finish_request env req dec resp level s =
     (let p = rd_provider dec; m = rd_model dec;
          s = update_metrics [RequestDuration p m] s;
          status = (if level = exhausted then ''fallback_exhausted'' else ''success'');
          s = (if level \<noteq> exhausted \<and> level \<noteq> ''primary''
               then update_metrics [FallbackTotal level (req_model req) m] s else s);
          s = update_metrics [RequestTotal p m status] s
      in if us_prompt (rs_usage resp) < 0 then (Panic, s)
         else let s = update_metrics [TokensTotal p m ''prompt'' (us_prompt (rs_usage resp))] s
         in if us_completion (rs_usage resp) < 0 then (Panic, s)
         else
           let s = update_metrics [TokensTotal p m ''completion'' (us_completion (rs_usage resp))] s;
               resp = (if rs_provider resp = '''' then resp\<lparr>rs_provider := p\<rparr> else resp)
           in if level \<noteq> exhausted then service_store env req resp s else (Ok resp, s))"

definition dispatch :: "'w service_env \<Rightarrow> StandardRequest \<Rightarrow> 'w Service \<Rightarrow> StandardResponse go_result \<times> 'w Service" where
  "dispatch env req s =
     (let (d, r) = router_Route req (sv_router s); s = s\<lparr>sv_router := r\<rparr>
      in case d of
           Panic \<Rightarrow> (Panic, s)
         | Err e \<Rightarrow> (Err e, s)
         | Ok dec \<Rightarrow>
             let (ok, s) = svc_Allow env (rd_provider dec) (rd_model dec) s in
             if \<not> ok then (Err (breaker_open (rd_provider dec) (rd_model dec)), s)
             else case fe_Execute (sv_fallbackEng s) (service_fe_env env) (rd_provider dec) (rd_model dec)
                         (Some (buildSendFn env req)) s of
                    (Panic, s) \<Rightarrow> (Panic, s)
                  | (Err e, s) \<Rightarrow> (Err e, s)
                  | (Ok (resp, level), s) \<Rightarrow> finish_request env req dec resp level s)"

definition HandleChatCompletion :: "'w service_env \<Rightarrow> StandardRequest \<Rightarrow> 'w Service \<Rightarrow>
    StandardResponse go_result \<times> 'w Service" where
  "HandleChatCompletion env req s =
     (if req_stream req
      then (Err (new_error ErrCodeInvalidRequest
                   ''use HandleChatCompletionStream for streaming requests''), s)
      else case service_lookup env req s of
             (Panic, s) \<Rightarrow> (Panic, s)
           | (Err e, s) \<Rightarrow> (Err e, s)
           | (Ok (Some cachedResp), s) \<Rightarrow>
               (Ok cachedResp,
                update_metrics [CacheHitTotal (req_model req) ''semantic'',
                  RequestTotal ''cache'' (req_model req) ''success'',
                  RequestDuration ''cache'' (req_model req)] s)
           | (Ok None, s) \<Rightarrow> dispatch env req s)"

subsection \<open>Streams\<close>

text \<open>
  On success the result is the decision and the chunks that the provider's channel delivers,
  which the goroutine below forwards.
\<close>

definition HandleChatCompletionStream :: "'w service_env \<Rightarrow> StandardRequest \<Rightarrow> 'w Service \<Rightarrow>
    (RouteDecision \<times> StreamChunk list) go_result \<times> 'w Service" where
  "HandleChatCompletionStream env req s =
     (let req = (if \<not> req_stream req then req\<lparr>req_stream := True\<rparr> else req);
          (d, r) = router_Route req (sv_router s); s = s\<lparr>sv_router := r\<rparr>
      in case d of
           Panic \<Rightarrow> (Panic, s)
         | Err e \<Rightarrow> (Err e, s)
         | Ok dec \<Rightarrow>
             let (ok, s) = svc_Allow env (rd_provider dec) (rd_model dec) s in
             if \<not> ok then (Err (breaker_open (rd_provider dec) (rd_model dec)), s)
             else case sv_providerLookup s (rd_provider dec) of
                    None \<Rightarrow> (Err (provider_missing (rd_provider dec)), s)
                  | Some provider \<Rightarrow>
                      let (r, w) = pv_stream provider req (sv_world s); s = s\<lparr>sv_world := w\<rparr>
                      in case r of
                           Inl err \<Rightarrow> (Err err, svc_RecordFailure env (rd_provider dec) (rd_model dec) s)
                         | Inr ch \<Rightarrow> (Ok (dec, ch), s))"

lemmas svc_defs [service_simps] = svc_Allow_def svc_RecordFailure_def svc_RecordSuccess_def update_metrics_def


section \<open>What the operations leave alone\<close>

text \<open>Two states that differ in the breakers, the metrics, the cache and the world only.\<close>

definition same_wiring :: "'w Service \<Rightarrow> 'w Service \<Rightarrow> bool" where
  "same_wiring s s' \<longleftrightarrow> sv_fallbackEng s' = sv_fallbackEng s \<and> sv_providerLookup s' = sv_providerLookup s"

text \<open>And in the breakers and the world only.\<close>

definition same_frame :: "'w Service \<Rightarrow> 'w Service \<Rightarrow> bool" where
  "same_frame s s' \<longleftrightarrow> same_wiring s s' \<and> sv_router s' = sv_router s \<and> sv_cache s' = sv_cache s \<and>
     sv_metrics s' = sv_metrics s"

lemma same_frame_refl [simp]: "same_frame s s"
  by (simp add: same_frame_def same_wiring_def)

lemma same_frame_trans: "same_frame s t \<Longrightarrow> same_frame t u \<Longrightarrow> same_frame s u"
  by (simp add: same_frame_def same_wiring_def)

lemma svc_Allow_frame: "svc_Allow env p m s = (ok, s') \<Longrightarrow> same_frame s s'"
  by (auto simp: svc_Allow_def same_frame_def same_wiring_def Let_def split: prod.splits)

lemma same_frame_steps [simp]:
  "same_frame s (svc_RecordFailure env p m s)" "same_frame s (svc_RecordSuccess p m s)"
  "same_frame s (s\<lparr>sv_world := w\<rparr>)"
  by (simp_all add: svc_defs same_frame_def same_wiring_def split: prod.split)

lemma buildSendFn_frame: "same_frame s (snd (buildSendFn env req p m s))"
proof (cases "sv_providerLookup s p")
  case None
  then show ?thesis by (simp add: buildSendFn_def)
next
  case (Some pv)
  obtain ok s1 where a: "svc_Allow env p m s = (ok, s1)" by fastforce
  obtain r w where r: "pv_send pv (req\<lparr>req_model := m, req_stream := False\<rparr>) (sv_world s1) = (r, w)" by fastforce
  have "same_frame s (s1\<lparr>sv_world := w\<rparr>)"
    using same_frame_trans [OF svc_Allow_frame [OF a]] by simp
  then have "same_frame s (svc_RecordFailure env p m (s1\<lparr>sv_world := w\<rparr>))"
    "same_frame s (svc_RecordSuccess p m (s1\<lparr>sv_world := w\<rparr>))"
    by (auto intro: same_frame_trans)
  then show ?thesis using svc_Allow_frame [OF a]
    by (cases r) (simp_all add: buildSendFn_def Some a r Let_def)
qed

lemma service_fe_env_errors [simp]:
  "fe_ctxErr (service_fe_env env) s = sx_ctxErr env (sv_world s)"
  "fst (fe_wait (service_fe_env env) d s) = fst (sx_wait env d (sv_world s))"
  by (simp_all add: service_fe_env_def split: prod.split)

text \<open>Whatever the engine asks for, an execution changes the breakers and the world only.\<close>

interpretation sending: fallback_client "service_fe_env env" "buildSendFn env req" "same_frame s0"
  for env :: "'w service_env" and req s0
proof
  show "same_frame s0 (snd (fe_wait (service_fe_env env) d s))" if "same_frame s0 s" for d and s :: "'w Service"
    using same_frame_trans [OF that] by (simp add: service_fe_env_def split: prod.split)
  show "same_frame s0 (snd (buildSendFn env req p m s))" if "same_frame s0 s" for p m and s :: "'w Service"
    using same_frame_trans [OF that buildSendFn_frame] .
qed

section \<open>Sends and their breakers\<close>

text \<open>A response as the service passes it on.\<close>

definition attributed :: "string \<Rightarrow> string \<Rightarrow> StandardResponse \<Rightarrow> StandardResponse" where
  "attributed p m raw = raw\<lparr>rs_provider := p, rs_model := (if rs_model raw = '''' then m else rs_model raw)\<rparr>"

text \<open>A response that a provider gave to the request, asked for the model \<open>m\<close>.\<close>

definition sent_by :: "'w Service \<Rightarrow> StandardRequest \<Rightarrow> string \<Rightarrow> string \<Rightarrow> StandardResponse \<Rightarrow> bool" where
  "sent_by s req p m resp \<longleftrightarrow> (\<exists>pv raw w w'. sv_providerLookup s p = Some pv \<and>
     pv_send pv (req\<lparr>req_model := m, req_stream := False\<rparr>) w = (Inr raw, w') \<and> resp = attributed p m raw)"

lemma buildSendFn_answer:
  assumes "buildSendFn env req p m s = (Inr resp, s')"
  shows "sent_by s req p m resp"
proof -
  obtain ok s1 where a: "svc_Allow env p m s = (ok, s1)" by fastforce
  show ?thesis using assms
    by (auto simp: buildSendFn_def a sent_by_def attributed_def Let_def split: option.splits if_splits prod.splits sum.splits)
qed


section \<open>Properties of completions\<close>

lemma update_metrics_cache [simp]: "sv_cache (update_metrics ms s) = sv_cache s"
  by (simp add: update_metrics_def)

lemma service_store_answer: "service_store env req resp s = (Ok r, s') \<Longrightarrow> r = resp"
  by (auto simp: service_store_def Let_def split: option.splits prod.splits go_result.splits)

lemma finish_request_answer:
  assumes "finish_request env req dec resp0 level s = (Ok resp, s')"
  shows "resp = (if rs_provider resp0 = '''' then resp0\<lparr>rs_provider := rd_provider dec\<rparr> else resp0) \<and>
     (if level = exhausted then sv_cache s' = sv_cache s
      else \<exists>s1. sv_cache s1 = sv_cache s \<and> service_store env req resp s1 = (Ok resp, s'))"
proof -
  let ?p = "rd_provider dec" and ?m = "rd_model dec" and ?u = "rs_usage resp0"
  let ?resp = "if rs_provider resp0 = '''' then resp0\<lparr>rs_provider := ?p\<rparr> else resp0"
  let ?s1 = "update_metrics [RequestDuration ?p ?m] s"
  let ?s2 = "if level \<noteq> exhausted \<and> level \<noteq> ''primary'' then update_metrics [FallbackTotal level (req_model req) ?m] ?s1 else ?s1"
  let ?s3 = "update_metrics [TokensTotal ?p ?m ''completion'' (us_completion ?u)]
    (update_metrics [TokensTotal ?p ?m ''prompt'' (us_prompt ?u)]
      (update_metrics [RequestTotal ?p ?m (if level = exhausted then ''fallback_exhausted'' else ''success'')] ?s2))"
  have np: "\<not> us_prompt ?u < 0" using assms by (auto simp: finish_request_def Let_def)
  have nc: "\<not> us_completion ?u < 0" using assms np by (auto simp: finish_request_def Let_def)
  have "(if level \<noteq> exhausted then service_store env req ?resp ?s3 else (Ok ?resp, ?s3)) = (Ok resp, s')"
    using assms by (simp only: finish_request_def Let_def np nc if_False)
  moreover have "sv_cache ?s3 = sv_cache s" by simp
  ultimately obtain t where t: "(if level \<noteq> exhausted then service_store env req ?resp t else (Ok ?resp, t)) = (Ok resp, s')"
    "sv_cache t = sv_cache s" by blast
  then have "resp = ?resp" using service_store_answer [of env req ?resp t resp s'] by (cases "level = exhausted") simp_all
  then show ?thesis using t by (cases "level = exhausted") auto
qed

text \<open>The two ways in which an execution of the service can answer.\<close>

lemma execute_source:
  assumes "fe_Execute e (service_fe_env env) p m (Some (buildSendFn env req)) s = (Ok (resp, lvl), s')"
  shows "same_frame s s' \<and>
    ((lvl = exhausted \<and> resp = DefaultResponse e) \<or>
     (\<exists>a \<in> set (fe_Attempts e p m). lvl = level_text (at_level a) \<and> sent_by s req (at_provider a) (at_model a) resp))"
proof
  show "same_frame s s'" using sending.Execute_keeps [OF same_frame_refl] assms by (metis snd_conv)
  have "sent_by s req q n resp" if "same_frame s s1" "buildSendFn env req q n s1 = (Inr resp, s')" for q n s1
    using buildSendFn_answer [OF that(2)] that(1) by (simp add: sent_by_def same_frame_def same_wiring_def)
  then show "(lvl = exhausted \<and> resp = DefaultResponse e) \<or>
     (\<exists>a \<in> set (fe_Attempts e p m). lvl = level_text (at_level a) \<and> sent_by s req (at_provider a) (at_model a) resp)"
    using sending.Execute_result [OF same_frame_refl assms] by blast
qed

lemma attempt_cases:
  "a \<in> set (fe_Attempts e p m) \<Longrightarrow>
    at_provider a = p \<and> at_model a = m \<and> at_level a \<noteq> Chained \<or> at_provider a = '''' \<and> at_level a = Chained"
  by (auto simp: fe_Attempts_def)

lemma attributed_provider [simp]: "rs_provider (attributed p m raw) = p"
  by (simp add: attributed_def)

lemma service_lookup_wiring: "service_lookup env req s = (r, s') \<Longrightarrow> same_wiring s s' \<and> sv_router s' = sv_router s \<and>
    sv_cbManager s' = sv_cbManager s"
  by (auto simp: service_lookup_def same_wiring_def update_metrics_def Let_def
      split: option.splits prod.splits go_result.splits)

lemma sent_by_wiring: "same_wiring s s' \<Longrightarrow> sent_by s' = sent_by s"
  by (simp add: sent_by_def same_wiring_def fun_eq_iff)

lemma dispatch_answer:
  assumes "dispatch env req s = (Ok resp, s')" and "sv_providerLookup s '''' = None"
  shows "\<exists>dec. fst (router_Route req (sv_router s)) = Ok dec \<and>
    (resp = (DefaultResponse (sv_fallbackEng s))\<lparr>rs_provider := rd_provider dec\<rparr> \<and> sv_cache s' = sv_cache s \<or>
     sent_by s req (rd_provider dec) (rd_model dec) resp \<and>
       (\<exists>s1. sv_cache s1 = sv_cache s \<and> service_store env req resp s1 = (Ok resp, s')))"
proof -
  obtain dec r where d: "router_Route req (sv_router s) = (Ok dec, r)"
    using assms(1) by (cases "router_Route req (sv_router s)") (auto simp: dispatch_def Let_def split: go_result.splits)
  let ?p = "rd_provider dec" and ?m = "rd_model dec"
  obtain ok s2 where a: "svc_Allow env ?p ?m (s\<lparr>sv_router := r\<rparr>) = (ok, s2)" by fastforce
  obtain resp0 lvl s3 where e: "fe_Execute (sv_fallbackEng s2) (service_fe_env env) ?p ?m
      (Some (buildSendFn env req)) s2 = (Ok (resp0, lvl), s3)"
    and f: "finish_request env req dec resp0 lvl s3 = (Ok resp, s')"
    using assms(1) by (auto simp: dispatch_def d a split: if_splits prod.splits go_result.splits)
  have w2: "same_wiring s s2" and c2: "sv_cache s2 = sv_cache s"
    using svc_Allow_frame [OF a] by (simp_all add: same_frame_def same_wiring_def)
  have eng: "sv_fallbackEng s2 = sv_fallbackEng s" using w2 by (simp add: same_wiring_def)
  have ex: "level_text l \<noteq> exhausted" for l by simp
  have src: "lvl = exhausted \<and> resp0 = DefaultResponse (sv_fallbackEng s) \<or>
      lvl \<noteq> exhausted \<and> sent_by s req ?p ?m resp0 \<and> rs_provider resp0 \<noteq> ''''"
    using execute_source [OF e] assms(2) attempt_cases [of _ "sv_fallbackEng s2" ?p ?m]
    unfolding sent_by_wiring [OF w2] eng by (fastforce simp: sent_by_def)
  have c3: "sv_cache s3 = sv_cache s" using execute_source [OF e] c2 by (simp add: same_frame_def)
  have "rs_provider (DefaultResponse e) = ''''" for e by (simp add: DefaultResponse_def zero_response_def)
  with src finish_request_answer [OF f] c3 d show ?thesis by auto
qed

text \<open>
  C8. An answer is never made up: a completed request was answered from the cache, or by the
  provider that the router chose, asked for the model that the router chose, or with the canned
  message under that provider's name. In particular no model of a fallback chain ever answers,
  as long as no provider is registered under the empty name.
\<close>

theorem completion_has_source:
  assumes "HandleChatCompletion env req s = (Ok resp, s')" and "sv_providerLookup s '''' = None"
  shows "(\<exists>c now ms. sv_cache s = Some c \<and> fst (cache_Lookup now req c) = Ok (Some resp, ms)) \<or>
    (\<exists>dec. fst (router_Route req (sv_router s)) = Ok dec \<and>
       (sent_by s req (rd_provider dec) (rd_model dec) resp \<or>
        resp = (DefaultResponse (sv_fallbackEng s))\<lparr>rs_provider := rd_provider dec\<rparr>))"
proof -
  obtain l s1 where l: "service_lookup env req s = (l, s1)" by fastforce
  note w1 = service_lookup_wiring [OF l]
  consider (hit) "l = Ok (Some resp)" | (miss) "l = Ok None" "dispatch env req s1 = (Ok resp, s')"
    using assms(1) l by (auto simp: HandleChatCompletion_def split: if_splits go_result.splits option.splits)
  then show ?thesis
  proof cases
    case hit
    then have "\<exists>c now ms. sv_cache s = Some c \<and> fst (cache_Lookup now req c) = Ok (Some resp, ms)"
      using l by (auto simp: service_lookup_def Let_def split: option.splits prod.splits go_result.splits)
        (metis fst_conv)
    then show ?thesis by blast
  next
    case miss
    have "sv_providerLookup s1 '''' = None" "sent_by s1 = sent_by s" "sv_fallbackEng s1 = sv_fallbackEng s"
      using w1 assms(2) sent_by_wiring [of s s1] by (simp_all add: same_wiring_def)
    with dispatch_answer [OF miss(2)] w1 show ?thesis by auto
  qed
qed

text \<open>
  Models of a fallback chain are attempted without a provider, so their sends fail before
  they reach one: no execution of the service ends at the level of the chain.
\<close>

theorem fallback_chain_never_answers:
  assumes "sv_providerLookup s '''' = None"
    and "fe_Execute e (service_fe_env env) p m (Some (buildSendFn env req)) s = (Ok (resp, lvl), s')"
  shows "lvl \<noteq> ''fallback''"
proof -
  have "lvl = exhausted \<or> (\<exists>l. lvl = level_text l \<and> l \<noteq> Chained)"
    using execute_source [OF assms(2)] assms(1) attempt_cases [of _ e p m]
    by (fastforce simp: sent_by_def)
  moreover have "level_text l = ''fallback'' \<Longrightarrow> l = Chained" for l by (cases l) simp_all
  ultimately show ?thesis by (auto simp: exhausted_def)
qed


text \<open>
  C9. Only what a provider answered gets into the cache: after a miss, the canned message leaves
  the cache as it was, and any other answer is stored, exactly as it was returned.
\<close>

theorem only_provider_answers_are_cached:
  assumes "\<not> req_stream req" and "service_lookup env req s = (Ok None, s1)" and "sv_cache s1 = Some c"
    and "HandleChatCompletion env req s = (Ok resp, s')" and "sv_providerLookup s '''' = None"
  shows "\<exists>dec. fst (router_Route req (sv_router s)) = Ok dec \<and>
    (resp = (DefaultResponse (sv_fallbackEng s))\<lparr>rs_provider := rd_provider dec\<rparr> \<and> sv_cache s' = Some c \<or>
     sent_by s req (rd_provider dec) (rd_model dec) resp \<and>
       (\<exists>clk w. sv_cache s' = Some (fst (snd (cache_Store (sx_hash env) clk req resp (c, w))))))"
proof -
  note w = service_lookup_wiring [OF assms(2)]
  have "dispatch env req s1 = (Ok resp, s')" using assms(1,2,4) by (simp add: HandleChatCompletion_def)
  moreover have "\<exists>clk w. sv_cache s' = Some (fst (snd (cache_Store (sx_hash env) clk req resp (c, w))))"
    if t: "service_store env req resp t = (Ok resp, s')" "sv_cache t = Some c" for t
  proof -
    obtain t1 w1 t2 w2 t3 w3 where k: "sx_clock env (sv_world t) = (t1, w1)" "sx_clock env w1 = (t2, w2)"
      "sx_clock env w2 = (t3, w3)" by (metis prod.collapse)
    show ?thesis using t k
      by (intro exI [of _ "(t1, t2, t3)"] exI [of _ w3])
        (auto simp: service_store_def Let_def split: prod.splits go_result.splits)
  qed
  ultimately show ?thesis using dispatch_answer [of env req s1 resp s'] w assms(3,5) sent_by_wiring [of s s1]
    by (auto simp: same_wiring_def)
qed

section \<open>An instance\<close>

text \<open>One provider that knows one model, and a service without a cache.\<close>

definition demo_upstream :: "unit Provider" where
  "demo_upstream = \<lparr>pv_name = ''p'', pv_models = [''m''],
     pv_send = (\<lambda>r w. (if req_model r = ''m'' then Inr (zero_response\<lparr>rs_id := ''r1''\<rparr>)
                       else Inl (OtherErr ''refused''), w)),
     pv_stream = (\<lambda>r w. (Inr [zero_chunk\<lparr>sc_id := req_model r\<rparr>], w)), pv_health = (\<lambda>w. (None, w))\<rparr>"

definition demo_senv :: "unit service_env" where
  "demo_senv = \<lparr>sx_clock = (\<lambda>w. (0, w)), sx_ctxErr = (\<lambda>_. None), sx_wait = (\<lambda>_ w. (None, w)), sx_hash = id\<rparr>"

definition demo_service :: "unit Service" where
  "demo_service = NewChatService (NewRouter [] [] None None None None (\<lambda>_. []) None)
     (NewCircuitBreakerManager 1 10) None (NewEngine (Some [''x'' \<mapsto> [''m'']]) 1 1 ''busy'')
     (\<lambda>n. if n = ''p'' then Some demo_upstream else None) ()"

definition demo_chat :: "string \<Rightarrow> StandardRequest" where
  "demo_chat m = demo_request\<lparr>req_model := m\<rparr>"

lemma demo_Route: "CHR ''/'' \<notin> set p \<Longrightarrow> router_Route (demo_chat (p @ ''/'' @ m)) r =
    (Ok \<lparr>rd_provider = p, rd_model = m, rd_strategy = ''explicit''\<rparr>, r)"
  by (simp add: demo_chat_def router_Route_def str_contains_char split_first_append)

lemmas demo_Route_at = demo_Route [of "''p''" "''m''", simplified] demo_Route [of "''p''" "''x''", simplified]

lemma demo_chat_fields [simp]: "req_stream (demo_chat m) = False" "req_model (demo_chat m) = m"
  by (simp_all add: demo_chat_def demo_request_def)

lemma demo_breaker [simp]: "cbm_Allow 0 p m (NewCircuitBreakerManager 1 10) =
    (True, (NewCircuitBreakerManager 1 10)\<lparr>cbm_breakers := [cbm_key p m \<mapsto> NewCircuitBreaker 1 10]\<rparr>)"
    "cbm_Allow 0 p m ((NewCircuitBreakerManager 1 10)\<lparr>cbm_breakers := [cbm_key p m \<mapsto> NewCircuitBreaker 1 10]\<rparr>) =
    (True, (NewCircuitBreakerManager 1 10)\<lparr>cbm_breakers := [cbm_key p m \<mapsto> NewCircuitBreaker 1 10]\<rparr>)"
  by (simp_all add: breaker_simps Let_def)

lemma demo_completion: "fst (HandleChatCompletion demo_senv (demo_chat ''p/m'') demo_service) =
    Ok (zero_response\<lparr>rs_id := ''r1'', rs_provider := ''p'', rs_model := ''m''\<rparr>)"
  by (simp add: HandleChatCompletion_def service_lookup_def dispatch_def svc_defs demo_service_def NewChatService_def
      demo_senv_def fe_Execute_def fe_Attempts_def NewEngine_def service_fe_env_def buildSendFn_def demo_upstream_def
      finish_request_def service_store_def zero_response_def zero_usage_def exhausted_def Let_def demo_Route_at)

theorem completion_has_source_witness:
  "sent_by demo_service (demo_chat ''p/m'') ''p'' ''m'' (zero_response\<lparr>rs_id := ''r1'', rs_provider := ''p'', rs_model := ''m''\<rparr>)"
proof -
  obtain s' where "HandleChatCompletion demo_senv (demo_chat ''p/m'') demo_service =
      (Ok (zero_response\<lparr>rs_id := ''r1'', rs_provider := ''p'', rs_model := ''m''\<rparr>), s')"
    using demo_completion by (metis prod.collapse)
  from completion_has_source [OF this] show ?thesis
    by (auto simp: demo_Route_at demo_service_def NewChatService_def DefaultResponse_def zero_response_def)
qed


theorem fallback_chain_never_answers_witness:
  "\<exists>resp lvl s'. fe_Execute (sv_fallbackEng demo_service) (service_fe_env demo_senv) ''p'' ''x''
       (Some (buildSendFn demo_senv (demo_chat ''p/x''))) demo_service = (Ok (resp, lvl), s') \<and>
     fe_Chain (sv_fallbackEng demo_service) ''x'' = [''m''] \<and> lvl \<noteq> ''fallback''"
proof -
  obtain res s' where e: "fe_Execute (sv_fallbackEng demo_service) (service_fe_env demo_senv) ''p'' ''x''
       (Some (buildSendFn demo_senv (demo_chat ''p/x''))) demo_service = (res, s')" by fastforce
  have "res \<noteq> Panic \<and> (\<forall>err. res \<noteq> Err err)"
    using Execute_error [OF e] by (auto simp: service_fe_env_def demo_senv_def)
  then obtain resp lvl where "res = Ok (resp, lvl)" by (cases res) auto
  with e have "fe_Execute (sv_fallbackEng demo_service) (service_fe_env demo_senv) ''p'' ''x''
       (Some (buildSendFn demo_senv (demo_chat ''p/x''))) demo_service = (Ok (resp, lvl), s')" by simp
  from this fallback_chain_never_answers [OF _ this] show ?thesis
    by (auto simp: demo_service_def NewChatService_def NewEngine_def fe_Chain_def map_get_def)
qed

section \<open>What a send tells its breaker\<close>

lemma cbm_views:
  "cbm_view (sv_cbManager (snd (svc_Allow env p m s))) = (cbm_view (sv_cbManager s))
     (cbm_key p m := cb_step (EvAllow (fst (sx_clock env (sv_world s)))) (cbm_view (sv_cbManager s) (cbm_key p m)))"
  "fst (svc_Allow env p m s) \<longleftrightarrow> fst (cb_Allow (fst (sx_clock env (sv_world s))) (cbm_view (sv_cbManager s) (cbm_key p m)))"
  "cbm_view (sv_cbManager (svc_RecordFailure env p m s)) = (cbm_view (sv_cbManager s))
     (cbm_key p m := cb_step (EvFailure (fst (sx_clock env (sv_world s)))) (cbm_view (sv_cbManager s) (cbm_key p m)))"
  "cbm_view (sv_cbManager (svc_RecordSuccess p m s)) = (cbm_view (sv_cbManager s))
     (cbm_key p m := cb_step EvSuccess (cbm_view (sv_cbManager s) (cbm_key p m)))"
  using cbm.allow_breaker cbm.allow_answer
  by (auto simp: svc_Allow_def svc_RecordFailure_def svc_RecordSuccess_def cbm.failure_breaker cbm.success_breaker
      split: prod.splits) (metis fst_conv snd_conv)+

text \<open>
  C11. A send reports to the breaker of exactly its own provider and model, once, and truly: an
  unknown provider is not reported at all; where the breaker does not admit the send, nothing
  else happens and the error says so; where it does, the outcome is recorded as a success if
  and only if the provider answered. No other breaker is touched.
\<close>

theorem send_reports_outcome:
  assumes "buildSendFn env req p m s = (r, s')"
  shows "\<exists>evs. cbm_view (sv_cbManager s') = (cbm_view (sv_cbManager s))
           (cbm_key p m := cb_run evs (cbm_view (sv_cbManager s) (cbm_key p m))) \<and>
    (if sv_providerLookup s p = None then evs = [] \<and> r = Inl (provider_missing p)
     else \<exists>t. if fst (cb_Allow t (cbm_view (sv_cbManager s) (cbm_key p m)))
               then (case r of Inr _ \<Rightarrow> evs = [EvAllow t, EvSuccess] | Inl _ \<Rightarrow> (\<exists>t'. evs = [EvAllow t, EvFailure t']))
               else evs = [EvAllow t] \<and> r = Inl (breaker_open p m))"
proof (cases "sv_providerLookup s p")
  case None
  then show ?thesis using assms by (auto simp: buildSendFn_def intro!: exI [of _ "[]"])
next
  case (Some pv)
  let ?t = "fst (sx_clock env (sv_world s))"
  obtain ok s1 where a: "svc_Allow env p m s = (ok, s1)" by fastforce
  note v = cbm_views(1,2) [of env p m s, unfolded a fst_conv snd_conv]
  obtain res w where r: "pv_send pv (req\<lparr>req_model := m, req_stream := False\<rparr>) (sv_world s1) = (res, w)" by fastforce
  show ?thesis
  proof (cases ok)
    case False
    then show ?thesis using assms v
      by (intro exI [of _ "[EvAllow ?t]"]) (auto simp: buildSendFn_def Some a)
  next
    case True
    show ?thesis
    proof (cases res)
      case (Inl err)
      then show ?thesis using assms v True
        by (intro exI [of _ "[EvAllow ?t, EvFailure (fst (sx_clock env w))]"] conjI)
          (auto simp: buildSendFn_def Some a r cbm_views Let_def)
    next
      case (Inr resp)
      then show ?thesis using assms v True
        by (intro exI [of _ "[EvAllow ?t, EvSuccess]"] conjI)
          (auto simp: buildSendFn_def Some a r cbm_views Let_def)
    qed
  qed
qed

theorem send_reports_outcome_witness:
  "\<exists>r s' evs. buildSendFn demo_senv (demo_chat ''p/x'') ''q'' ''x'' demo_service = (r, s') \<and>
     r = Inl (provider_missing ''q'') \<and> cbm_view (sv_cbManager s') = cbm_view (sv_cbManager demo_service)"
proof -
  obtain r s' where "buildSendFn demo_senv (demo_chat ''p/x'') ''q'' ''x'' demo_service = (r, s')" by fastforce
  from this send_reports_outcome [OF this] show ?thesis
    by (auto simp: demo_service_def NewChatService_def)
qed


section \<open>Refusals, errors and the cache\<close>

text \<open>
  C10. An open circuit protects its provider: where the cache has no answer and the router chooses
  a provider and model whose breaker does not admit the request, the request fails with the error
  code of an open circuit; no provider is called, no breaker changes, nothing is stored in the
  cache, and nothing is counted beyond what the lookup counted. All that happens to the world after
  the lookup is that the clock is read. An answer found in the cache is returned nevertheless,
  without asking the router or the breakers.
\<close>

theorem open_circuit_rejects:
  assumes "\<not> req_stream req" and "service_lookup env req s = (Ok hit, s1)"
    and "router_Route req (sv_router s) = (Ok dec, r)"
    and "sx_clock env (sv_world s1) = (t, w)"
    and "\<not> fst (cb_Allow t (cbm_view (sv_cbManager s) (cbm_key (rd_provider dec) (rd_model dec))))"
  shows "case hit of
       Some resp \<Rightarrow> HandleChatCompletion env req s = (Ok resp, update_metrics
         [CacheHitTotal (req_model req) ''semantic'', RequestTotal ''cache'' (req_model req) ''success'',
          RequestDuration ''cache'' (req_model req)] s1)
     | None \<Rightarrow> \<exists>mgr. HandleChatCompletion env req s =
         (Err (breaker_open (rd_provider dec) (rd_model dec)), s1\<lparr>sv_router := r, sv_cbManager := mgr, sv_world := w\<rparr>) \<and>
         cbm_view mgr = cbm_view (sv_cbManager s)"
proof -
  let ?p = "rd_provider dec" and ?m = "rd_model dec"
  note l = service_lookup_wiring [OF assms(2)]
  obtain ok mgr where a: "cbm_Allow t ?p ?m (sv_cbManager s) = (ok, mgr)" by fastforce
  have "\<not> ok" using assms(5) cbm.allow_answer [of t ?p ?m "sv_cbManager s"] a by simp
  moreover have "cbm_view mgr = (cbm_view (sv_cbManager s))
      (cbm_key ?p ?m := snd (cb_Allow t (cbm_view (sv_cbManager s) (cbm_key ?p ?m))))"
    using cbm.allow_breaker [of t ?p ?m "sv_cbManager s"] a by simp
  moreover have "snd (cb_Allow t cb) = cb" if "\<not> fst (cb_Allow t cb)" for cb
    using that by (auto simp: cb_Allow_def split: if_splits)
  ultimately show ?thesis using assms a l
    by (auto simp: HandleChatCompletion_def dispatch_def svc_Allow_def split: option.split)
qed

definition demo_open :: "unit Service" where
  "demo_open = demo_service\<lparr>sv_cbManager := cbm_RecordFailure 5 ''p'' ''m'' (NewCircuitBreakerManager 1 10),
     sv_cache := Some demo_cache\<rparr>"

lemma demo_miss: "sv_cache s = Some demo_cache \<Longrightarrow> sv_world s = () \<Longrightarrow>
    service_lookup demo_senv (demo_chat ''p/m'') s = (Ok None, s)"
  by (simp add: service_lookup_def demo_senv_def cache_Lookup_def prompt_vector_def demo_cache_def demo_chat_def
      demo_request_def cache_text_def update_metrics_def Let_def)

theorem open_circuit_rejects_witness:
  "fst (HandleChatCompletion demo_senv (demo_chat ''p/m'') demo_open) =
     Err (new_error ErrCodeCircuitOpen ''circuit breaker open for p/m'')"
proof -
  have "service_lookup demo_senv (demo_chat ''p/m'') demo_open = (Ok None, demo_open)"
    by (rule demo_miss) (simp_all add: demo_open_def)
  from open_circuit_rejects [OF _ this, of "\<lparr>rd_provider = ''p'', rd_model = ''m'', rd_strategy = ''explicit''\<rparr>"
      "sv_router demo_open" 0 "()"]
  have "\<exists>mgr. HandleChatCompletion demo_senv (demo_chat ''p/m'') demo_open =
      (Err (breaker_open ''p'' ''m''), demo_open\<lparr>sv_router := sv_router demo_open, sv_cbManager := mgr, sv_world := ()\<rparr>) \<and>
      cbm_view mgr = cbm_view (sv_cbManager demo_open)"
    by (simp add: demo_Route_at demo_open_def demo_service_def NewChatService_def demo_senv_def cbm.failure_breaker)
      (simp add: breaker_simps cbm_view_code Let_def time_sub_def min_int64_def max_int64_def)
  then show ?thesis by (auto simp: breaker_open_def)
qed

lemma cache_Lookup_answer:
  "fst (cache_Lookup t req c) = Ok (resp, ms) \<Longrightarrow> resp \<noteq> None \<Longrightarrow> ms = [CacheHitTotal (req_model req) ''semantic'']"
  "fst (cache_Lookup t req c) \<noteq> Err e"
  unfolding cache_Lookup_def Let_def
  by (cases "prompt_vector c req"; auto split: option.split_asm prod.split_asm sum.split_asm if_split_asm; fail)
    (auto split: go_result.split option.split prod.split sum.split)

lemma finish_request_not_Err: "fst (finish_request env req dec x lvl s) \<noteq> Err e"
proof -
  have "fst (service_store env req y t) \<noteq> Err e" for y t
    by (auto simp: service_store_def Let_def split: option.split prod.split go_result.split)
  then show ?thesis by (simp add: finish_request_def Let_def)
qed

text \<open>
  A cached answer touches nothing upstream: router, breakers and world stay as they are
  (but for reading the clock and the cache's own state), and the hit is counted, twice, since the
  cache and the service count it under the same name.
\<close>

theorem cached_answer_skips_upstream:
  assumes "\<not> req_stream req" and "sv_cache s = Some c" and "sx_clock env (sv_world s) = (t, w)"
    and "cache_Lookup t req c = (Ok (Some resp, ms), c')"
  shows "HandleChatCompletion env req s =
      (Ok resp, s\<lparr>sv_cache := Some c', sv_world := w,
         sv_metrics := sv_metrics s @ [CacheHitTotal (req_model req) ''semantic'', CacheHitTotal (req_model req) ''semantic'',
           RequestTotal ''cache'' (req_model req) ''success'', RequestDuration ''cache'' (req_model req)]\<rparr>)"
proof -
  have "ms = [CacheHitTotal (req_model req) ''semantic'']"
    using cache_Lookup_answer(1) [of t req c] assms(4) by simp
  then show ?thesis using assms
    by (simp add: HandleChatCompletion_def service_lookup_def update_metrics_def)
qed

lemma completion_error_cases:
  fixes s :: "'w Service"
  assumes "HandleChatCompletion env req s = (Err err, s')"
  shows "(\<exists>e. err = ModelErr e) \<or> (\<exists>w. sx_ctxErr env w = Some err) \<or> (\<exists>d w. fst (sx_wait env d w) = Some err)"
proof -
  obtain l s1 where l: "service_lookup env req s = (l, s1)" by fastforce
  have "l \<noteq> Err e" for e
  proof
    assume "l = Err e"
    then obtain t and c c' :: "'w SemanticCache" where "cache_Lookup t req c = (Err e, c')"
      using l by (auto simp: service_lookup_def Let_def split: option.splits prod.splits go_result.splits)
    then show False using cache_Lookup_answer(2) [of t req c e] by simp
  qed
  then consider (stream) "\<exists>e. err = ModelErr e" | (miss) "dispatch env req s1 = (Err err, s')"
    using assms l by (auto simp: HandleChatCompletion_def split: if_splits go_result.splits option.splits)
  then show ?thesis
  proof cases
    case miss
    obtain d r where d: "router_Route req (sv_router s1) = (d, r)" by fastforce
    show ?thesis
    proof (cases d)
      case (Ok dec)
      obtain ok s2 where a: "svc_Allow env (rd_provider dec) (rd_model dec) (s1\<lparr>sv_router := r\<rparr>) = (ok, s2)" by fastforce
      obtain res s3 where e: "fe_Execute (sv_fallbackEng s2) (service_fe_env env) (rd_provider dec) (rd_model dec)
          (Some (buildSendFn env req)) s2 = (res, s3)" by fastforce
      have "ok \<Longrightarrow> res = Err err"
        using miss finish_request_not_Err [of env req dec _ _ s3 err]
        by (cases res) (auto simp: dispatch_def d Ok a e split: prod.splits, metis fst_conv)
      moreover have "\<not> ok \<Longrightarrow> \<exists>e. err = ModelErr e" using miss d Ok a by (auto simp: dispatch_def breaker_open_def)
      ultimately show ?thesis
        using Execute_error [OF e, of err] by (cases ok) auto
    next
      case (Err e')
      then have "e' = new_error ErrCodeModelNotFound ''no route matched''"
        using d by (intro router_Route_error [of req "sv_router s1" _ r]) simp
      then show ?thesis using miss d Err by (auto simp: dispatch_def)
    qed (use miss d in \<open>auto simp: dispatch_def\<close>)
  qed blast
qed

text \<open>
  C12. The only errors of a completion that are not errors of the gateway's own type are those
  of the request context: whatever a provider fails with is absorbed by the fallback engine.
\<close>

theorem completion_errors_are_typed:
  fixes s :: "'w Service"
  assumes "HandleChatCompletion env req s = (Err err, s')"
  shows "(\<exists>e. err = ModelErr e) \<or> (\<exists>w. sx_ctxErr env w = Some err) \<or> (\<exists>d w. fst (sx_wait env d w) = Some err)"
  using assms by (rule completion_error_cases)

text \<open>The same service whose request is cancelled before it starts.\<close>

definition demo_cancelled :: "unit service_env" where
  "demo_cancelled = demo_senv\<lparr>sx_ctxErr := (\<lambda>_. Some (OtherErr ''context canceled''))\<rparr>"

lemma demo_cancelled_completion:
  "fst (HandleChatCompletion demo_cancelled (demo_chat ''p/m'') demo_service) = Err (OtherErr ''context canceled'')"
  by (simp add: HandleChatCompletion_def service_lookup_def dispatch_def svc_defs demo_service_def NewChatService_def
      demo_cancelled_def demo_senv_def fe_Execute_def fe_Attempts_def NewEngine_def service_fe_env_def Let_def demo_Route_at)

theorem completion_errors_are_typed_witness:
  "\<exists>s'. HandleChatCompletion demo_cancelled (demo_chat ''p/m'') demo_service = (Err (OtherErr ''context canceled''), s') \<and>
     (\<exists>w. sx_ctxErr demo_cancelled w = Some (OtherErr ''context canceled''))"
proof -
  obtain s' where s': "HandleChatCompletion demo_cancelled (demo_chat ''p/m'') demo_service = (Err (OtherErr ''context canceled''), s')"
    using demo_cancelled_completion by (metis prod.collapse)
  from completion_errors_are_typed [OF this] s' show ?thesis
    by (auto simp: demo_cancelled_def demo_senv_def)
qed

definition demo_cached_service :: "unit Service" where
  "demo_cached_service = demo_service\<lparr>sv_cache := Some demo_cache\<rparr>"

definition demo_senv120 :: "unit service_env" where
  "demo_senv120 = demo_senv\<lparr>sx_clock := (\<lambda>w. (120, w))\<rparr>"

theorem cached_answer_skips_upstream_witness:
  "\<exists>s'. HandleChatCompletion demo_senv120 demo_prompt demo_cached_service = (Ok (demo_response\<lparr>rs_cacheHit := True\<rparr>), s') \<and>
     sv_router s' = sv_router demo_service \<and> sv_cbManager s' = sv_cbManager demo_service"
  using cached_answer_skips_upstream [OF _ _ _ demo_Lookup, of demo_cached_service demo_senv120 "()"]
  by (simp add: demo_cached_service_def demo_senv120_def demo_prompt_def zero_request_def)

text \<open>The same service with a cache that has no answer: what the provider answers is stored.\<close>

definition demo_missing :: "unit Service" where
  "demo_missing = demo_service\<lparr>sv_cache := Some demo_cache\<rparr>"

lemma demo_missing_lookup:
  "service_lookup demo_senv (demo_chat ''p/m'') demo_missing = (Ok None, demo_missing)"
  by (rule demo_miss) (simp_all add: demo_missing_def demo_service_def NewChatService_def)

lemma add_entry_store [simp]: "ca_store (add_entry t e c) = ca_store c"
  by (simp add: add_entry_def Let_def)

lemma demo_completion_stored:
  "fst (HandleChatCompletion demo_senv (demo_chat ''p/m'') demo_missing) =
    Ok (zero_response\<lparr>rs_id := ''r1'', rs_provider := ''p'', rs_model := ''m''\<rparr>)"
proof -
  have h: "HandleChatCompletion demo_senv (demo_chat ''p/m'') demo_missing = dispatch demo_senv (demo_chat ''p/m'') demo_missing"
    by (simp add: HandleChatCompletion_def demo_missing_lookup)
  show ?thesis unfolding h
    by (simp add: dispatch_def svc_defs demo_missing_def demo_service_def NewChatService_def demo_Route_at)
      (simp add: demo_senv_def fe_Execute_def fe_Attempts_def NewEngine_def service_fe_env_def buildSendFn_def svc_defs
        demo_upstream_def finish_request_def service_store_def zero_response_def zero_usage_def exhausted_def Let_def
        cache_Store_def prompt_vector_def demo_chat_def demo_request_def cache_text_def demo_cache_def)
qed

theorem only_provider_answers_are_cached_witness:
  "\<exists>clk w s'. HandleChatCompletion demo_senv (demo_chat ''p/m'') demo_missing =
       (Ok (zero_response\<lparr>rs_id := ''r1'', rs_provider := ''p'', rs_model := ''m''\<rparr>), s') \<and>
     sv_cache s' = Some (fst (snd (cache_Store id clk (demo_chat ''p/m'')
       (zero_response\<lparr>rs_id := ''r1'', rs_provider := ''p'', rs_model := ''m''\<rparr>) (demo_cache, w))))"
proof -
  obtain s' where h: "HandleChatCompletion demo_senv (demo_chat ''p/m'') demo_missing =
      (Ok (zero_response\<lparr>rs_id := ''r1'', rs_provider := ''p'', rs_model := ''m''\<rparr>), s')"
    using demo_completion_stored by (metis prod.collapse)
  from only_provider_answers_are_cached [OF _ demo_missing_lookup _ h, of demo_cache] h show ?thesis
    by (auto simp: demo_missing_def demo_Route_at demo_service_def NewChatService_def DefaultResponse_def
        zero_response_def demo_senv_def)
qed

text \<open>
  A provider that reports a negative number of prompt tokens makes the gateway panic after
  the answer has arrived, since the number is added to a counter.
\<close>

theorem negative_usage_panics:
  assumes "us_prompt (rs_usage resp) < 0"
  shows "fst (finish_request env req dec resp level s) = Panic"
  using assms by (simp add: finish_request_def Let_def)

theorem negative_usage_panics_witness:
  "fst (finish_request demo_senv (demo_chat ''p/m'') \<lparr>rd_provider = ''p'', rd_model = ''m'', rd_strategy = ''explicit''\<rparr>
     (zero_response\<lparr>rs_usage := \<lparr>us_prompt = - 1, us_completion = 0, us_total = 0\<rparr>\<rparr>) ''primary'' demo_service) = Panic"
  by (rule negative_usage_panics) (simp add: zero_response_def)

section \<open>Streams\<close>

lemma stream_source:
  assumes "HandleChatCompletionStream env req s = (Ok (dec, chunks), s')"
  shows "\<exists>pv w. sv_providerLookup s (rd_provider dec) = Some pv \<and>
    fst (router_Route (req\<lparr>req_stream := True\<rparr>) (sv_router s)) = Ok dec \<and>
    pv_stream pv (req\<lparr>req_stream := True\<rparr>) w = (Inr chunks, sv_world s')"
proof -
  have q: "(if \<not> req_stream req then req\<lparr>req_stream := True\<rparr> else req) = req\<lparr>req_stream := True\<rparr>"
    by (cases req) simp
  obtain d r where d: "router_Route (req\<lparr>req_stream := True\<rparr>) (sv_router s) = (d, r)" by fastforce
  then have "d = Ok dec" and sd: "\<exists>ok s2. svc_Allow env (rd_provider dec) (rd_model dec) (s\<lparr>sv_router := r\<rparr>) = (ok, s2) \<and>
      (\<exists>pv. sv_providerLookup s2 (rd_provider dec) = Some pv \<and>
        pv_stream pv (req\<lparr>req_stream := True\<rparr>) (sv_world s2) = (Inr chunks, sv_world s'))"
    using assms unfolding HandleChatCompletionStream_def q Let_def
    by (auto split: go_result.splits prod.splits if_splits option.splits sum.splits)
  then obtain ok s2 pv where a: "svc_Allow env (rd_provider dec) (rd_model dec) (s\<lparr>sv_router := r\<rparr>) = (ok, s2)"
    and pv: "sv_providerLookup s2 (rd_provider dec) = Some pv"
      "pv_stream pv (req\<lparr>req_stream := True\<rparr>) (sv_world s2) = (Inr chunks, sv_world s')" by blast
  have "sv_providerLookup s2 = sv_providerLookup s"
    using svc_Allow_frame [OF a] by (simp add: same_frame_def same_wiring_def)
  then show ?thesis using pv d \<open>d = Ok dec\<close> by auto
qed

text \<open>
  A stream is asked for under the requested model: the provider that the router chose is
  sent the original request, with the stream flag set but with the model as the client gave it,
  even where the router chose another model, to whose breaker the stream is accounted.
\<close>

theorem stream_sends_requested_model:
  assumes "HandleChatCompletionStream env req s = (Ok (dec, chunks), s')"
  shows "\<exists>pv w. sv_providerLookup s (rd_provider dec) = Some pv \<and>
    fst (router_Route (req\<lparr>req_stream := True\<rparr>) (sv_router s)) = Ok dec \<and>
    pv_stream pv (req\<lparr>req_stream := True\<rparr>) w = (Inr chunks, sv_world s')"
  using assms by (rule stream_source)


theorem stream_sends_requested_model_witness:
  "\<exists>dec chunks s'. HandleChatCompletionStream demo_senv (demo_chat ''p/m'') demo_service = (Ok (dec, chunks), s') \<and>
     rd_model dec = ''m'' \<and> pv_stream demo_upstream ((demo_chat ''p/m'')\<lparr>req_stream := True\<rparr>) () = (Inr chunks, ()) \<and>
     map sc_id chunks = [''p/m'']"
proof -
  have r: "router_Route ((demo_chat ''p/m'')\<lparr>req_stream := True\<rparr>) r =
      (Ok \<lparr>rd_provider = ''p'', rd_model = ''m'', rd_strategy = ''explicit''\<rparr>, r)" for r :: "unit Router"
    using explicit_route [of "''p''" "(demo_chat ''p/m'')\<lparr>req_stream := True\<rparr>" "''m''" r] by simp
  obtain s' where s': "HandleChatCompletionStream demo_senv (demo_chat ''p/m'') demo_service =
      (Ok (\<lparr>rd_provider = ''p'', rd_model = ''m'', rd_strategy = ''explicit''\<rparr>, [zero_chunk\<lparr>sc_id := ''p/m''\<rparr>]), s')"
    by (simp add: HandleChatCompletionStream_def r svc_defs demo_service_def NewChatService_def demo_senv_def
        demo_upstream_def Let_def)
  from stream_sends_requested_model [OF this] s' show ?thesis
    by (auto simp: demo_service_def NewChatService_def demo_upstream_def split: if_splits)
qed

section \<open>The forwarding goroutine\<close>

text \<open>
  The goroutine of \<^verbatim>\<open>HandleChatCompletionStream\<close>, between the provider's channel and an
  unbuffered channel that the HTTP handler reads until it is closed or has delivered an error.
  The calls that it makes to the breaker of its provider and model are recorded; what other
  requests do to that breaker in between is left open.
\<close>

datatype fwd_phase = Receiving | Sending StreamChunk | Finished

record forwarder =
  fw_phase :: fwd_phase
  fw_ch :: "StreamChunk list"
  fw_gotError :: bool
  fw_calls :: "cb_event list"
  fw_out :: "StreamChunk list"
  fw_reading :: bool

definition fwd_start :: "StreamChunk list \<Rightarrow> forwarder" where
  "fwd_start chunks = \<lparr>fw_phase = Receiving, fw_ch = chunks, fw_gotError = False, fw_calls = [], fw_out = [],
     fw_reading = True\<rparr>"

text \<open>
  The steps: a chunk is received from the provider (an error is recorded at once); it is handed
  to the handler, if that still reads; the provider's channel is drained and the goroutine ends.
\<close>

inductive fwd_step :: "forwarder \<Rightarrow> forwarder \<Rightarrow> bool" where
  receive: "fw_phase f = Receiving \<Longrightarrow> fw_ch f = c # cs \<Longrightarrow>
     fwd_step f (f\<lparr>fw_phase := Sending c, fw_ch := cs,
       fw_gotError := (if is_error c then True else fw_gotError f),
       fw_calls := (if is_error c then fw_calls f @ [EvFailure t] else fw_calls f)\<rparr>)"
| deliver: "fw_phase f = Sending c \<Longrightarrow> fw_reading f \<Longrightarrow>
     fwd_step f (f\<lparr>fw_phase := Receiving, fw_out := fw_out f @ [c], fw_reading := \<not> is_error c\<rparr>)"
| finish: "fw_phase f = Receiving \<Longrightarrow> fw_ch f = [] \<Longrightarrow>
     fwd_step f (f\<lparr>fw_phase := Finished,
       fw_calls := (if \<not> fw_gotError f then fw_calls f @ [EvSuccess] else fw_calls f)\<rparr>)"

inductive_cases fwd_stepE: "fwd_step f f'"
inductive_simps fwd_step_simp: "fwd_step f f'"

definition in_flight :: "forwarder \<Rightarrow> StreamChunk list" where
  "in_flight f = (case fw_phase f of Sending c \<Rightarrow> [c] | _ \<Rightarrow> [])"

text \<open>
  The invariant: no chunk is lost, repeated or reordered; the handler reads until it has got an
  error; a failure is recorded per error, and a success at the end if there was none.
\<close>

definition fwd_inv :: "StreamChunk list \<Rightarrow> forwarder \<Rightarrow> bool" where
  "fwd_inv chunks f \<longleftrightarrow>
     chunks = fw_out f @ in_flight f @ fw_ch f \<and>
     fw_reading f = (\<forall>c \<in> set (fw_out f). \<not> is_error c) \<and>
     (\<forall>c \<in> set (butlast (fw_out f)). \<not> is_error c) \<and>
     fw_gotError f = (\<exists>c \<in> set (fw_out f @ in_flight f). is_error c) \<and>
     (\<exists>ts. fw_calls f = map EvFailure ts @ (if fw_phase f = Finished \<and> \<not> fw_gotError f then [EvSuccess] else []) \<and>
        length ts = length (filter is_error (fw_out f @ in_flight f))) \<and>
     (fw_phase f = Finished \<longrightarrow> fw_ch f = [])"

lemma fwd_inv_start: "fwd_inv chunks (fwd_start chunks)"
  by (simp add: fwd_inv_def fwd_start_def in_flight_def)

lemma fwd_inv_step: "fwd_step f f' \<Longrightarrow> fwd_inv chunks f \<Longrightarrow> fwd_inv chunks f'"
proof (induction rule: fwd_step.induct)
  case (receive f c cs t)
  then obtain ts where "fw_calls f = map EvFailure ts" "length ts = length (filter is_error (fw_out f))"
    by (auto simp: fwd_inv_def in_flight_def)
  then have "\<exists>ts'. (if is_error c then fw_calls f @ [EvFailure t] else fw_calls f) = map EvFailure ts' \<and>
      length ts' = length (filter is_error (fw_out f @ [c]))"
    by (intro exI [of _ "if is_error c then ts @ [t] else ts"]) simp
  then show ?case using receive by (auto simp: fwd_inv_def in_flight_def)
next
  case (deliver f c)
  then show ?case by (auto simp: fwd_inv_def in_flight_def)
next
  case (finish f)
  then show ?case by (auto simp: fwd_inv_def in_flight_def)
qed

lemma fwd_inv_reachable: "fwd_step\<^sup>*\<^sup>* (fwd_start chunks) f \<Longrightarrow> fwd_inv chunks f"
  by (induction rule: rtranclp_induct) (auto intro: fwd_inv_start fwd_inv_step)

lemma fwd_stuck_iff: "(\<nexists>f'. fwd_step f f') \<longleftrightarrow> fw_phase f = Finished \<or> (\<exists>c. fw_phase f = Sending c \<and> \<not> fw_reading f)"
  by (cases "fw_phase f"; cases "fw_ch f") (auto elim: fwd_stepE intro: fwd_step.intros)

lemma forwarded_completely:
  assumes "fwd_step\<^sup>*\<^sup>* (fwd_start chunks) f" and "\<nexists>f'. fwd_step f f'"
    and "\<forall>c \<in> set (butlast chunks). \<not> is_error c"
  shows "fw_phase f = Finished \<and> fw_out f = chunks \<and>
    (if \<exists>c \<in> set chunks. is_error c then \<exists>t. fw_calls f = [EvFailure t] else fw_calls f = [EvSuccess])"
proof -
  note inv = fwd_inv_reachable [OF assms(1), unfolded fwd_inv_def]
  have fin: "fw_phase f = Finished"
  proof (rule ccontr)
    assume "fw_phase f \<noteq> Finished"
    then obtain c where c: "fw_phase f = Sending c" "\<not> fw_reading f" using assms(2) fwd_stuck_iff by auto
    then obtain e where "e \<in> set (fw_out f)" "is_error e" using inv by auto
    moreover have "fw_out f = butlast (fw_out f @ [c])" by simp
    ultimately have "e \<in> set (butlast chunks)" using inv c(1)
      by (auto simp: in_flight_def butlast_append split: if_splits)
    then show False using assms(3) \<open>is_error e\<close> by blast
  qed
  then have out: "fw_out f = chunks" using inv by (simp add: in_flight_def)
  have "fw_gotError f = (\<exists>c \<in> set chunks. is_error c) \<and>
      (\<exists>ts. fw_calls f = map EvFailure ts @ (if \<not> fw_gotError f then [EvSuccess] else []) \<and>
      length ts = length (filter is_error chunks))"
    using inv unfolding out fin in_flight_def fwd_phase.case append_Nil2 simp_thms by blast
  then obtain ts where ts: "fw_calls f = map EvFailure ts @ (if \<not> fw_gotError f then [EvSuccess] else [])"
      "length ts = length (filter is_error chunks)" "fw_gotError f = (\<exists>c \<in> set chunks. is_error c)" by blast
  have "length (filter is_error chunks) = (if \<exists>c \<in> set chunks. is_error c then 1 else 0)"
    using assms(3) by (cases chunks rule: rev_cases) (auto simp: filter_empty_conv)
  with ts show ?thesis using fin out by (cases ts) (simp_all split: if_split_asm)
qed

text \<open>So no stream of a provider that keeps its contract leaves the goroutine behind.\<close>

context chat_provider
begin

lemma stream_forwarded:
  "pv_stream pv req w = (Inr chunks, w') \<Longrightarrow> fwd_step\<^sup>*\<^sup>* (fwd_start chunks) f \<Longrightarrow> \<nexists>f'. fwd_step f f' \<Longrightarrow>
    fw_phase f = Finished \<and> fw_out f = chunks \<and>
    (if \<exists>c \<in> set chunks. is_error c then \<exists>t. fw_calls f = [EvFailure t] else fw_calls f = [EvSuccess])"
  using forwarded_completely errors_last by blast

end

text \<open>
  C13. A stream is forwarded completely: where only the last chunk can be an error, as both
  kinds of provider guarantee, the goroutine cannot stop before it has handed every chunk to
  the handler, in order and once, has closed its channel, and has made exactly one call to the
  breaker: a failure if the stream ended with an error, and a success otherwise.
\<close>

theorem stream_is_forwarded:
  assumes "fwd_step\<^sup>*\<^sup>* (fwd_start chunks) f" and "\<nexists>f'. fwd_step f f'"
    and "\<forall>c \<in> set (butlast chunks). \<not> is_error c"
  shows "fw_phase f = Finished \<and> fw_out f = chunks \<and>
    (if \<exists>c \<in> set chunks. is_error c then \<exists>t. fw_calls f = [EvFailure t] else fw_calls f = [EvSuccess])"
  using assms by (rule forwarded_completely)


text \<open>A run in which every chunk is received and handed over in turn.\<close>

lemma fwd_run_ok:
  "\<forall>c \<in> set cs. \<not> is_error c \<Longrightarrow>
    fwd_step\<^sup>*\<^sup>* \<lparr>fw_phase = Receiving, fw_ch = cs @ ds, fw_gotError = False, fw_calls = [], fw_out = out, fw_reading = True\<rparr>
      \<lparr>fw_phase = Receiving, fw_ch = ds, fw_gotError = False, fw_calls = [], fw_out = out @ cs, fw_reading = True\<rparr>"
proof (induction cs arbitrary: out)
  case (Cons c cs)
  let ?f = "\<lparr>fw_phase = Receiving, fw_ch = (c # cs) @ ds, fw_gotError = False, fw_calls = [], fw_out = out, fw_reading = True\<rparr>"
  let ?g = "\<lparr>fw_phase = Sending c, fw_ch = cs @ ds, fw_gotError = False, fw_calls = [], fw_out = out, fw_reading = True\<rparr>"
  let ?h = "\<lparr>fw_phase = Receiving, fw_ch = cs @ ds, fw_gotError = False, fw_calls = [], fw_out = out @ [c], fw_reading = True\<rparr>"
  have "fwd_step ?f ?g" using receive [of ?f c "cs @ ds"] Cons.prems by simp
  moreover have "fwd_step ?g ?h" using deliver [of ?g c] Cons.prems by simp
  moreover have "fwd_step\<^sup>*\<^sup>* ?h \<lparr>fw_phase = Receiving, fw_ch = ds, fw_gotError = False, fw_calls = [], fw_out = out @ c # cs, fw_reading = True\<rparr>"
    using Cons.IH [of "out @ [c]"] Cons.prems by simp
  ultimately show ?case by (meson converse_rtranclp_into_rtranclp)
qed simp

theorem stream_is_forwarded_witness:
  "\<exists>f. fwd_step\<^sup>*\<^sup>* (fwd_start [zero_chunk, zero_chunk\<lparr>sc_done := True\<rparr>]) f \<and> fw_phase f = Finished \<and>
     fw_out f = [zero_chunk, zero_chunk\<lparr>sc_done := True\<rparr>] \<and> fw_calls f = [EvSuccess]"
proof -
  let ?cs = "[zero_chunk, zero_chunk\<lparr>sc_done := True\<rparr>]"
  let ?g = "\<lparr>fw_phase = Receiving, fw_ch = [], fw_gotError = False, fw_calls = [], fw_out = ?cs, fw_reading = True\<rparr>"
  have ne: "\<forall>c \<in> set ?cs. \<not> is_error c" by (simp add: is_error_def zero_chunk_def)
  have "fwd_step\<^sup>*\<^sup>* (fwd_start ?cs) ?g" using fwd_run_ok [OF ne, of "[]" "[]"] by (simp add: fwd_start_def)
  moreover have "fwd_step ?g (?g\<lparr>fw_phase := Finished, fw_calls := [EvSuccess]\<rparr>)" using finish [of ?g] by simp
  ultimately have r: "fwd_step\<^sup>*\<^sup>* (fwd_start ?cs) (?g\<lparr>fw_phase := Finished, fw_calls := [EvSuccess]\<rparr>)"
    by (rule rtranclp.rtrancl_into_rtrancl)
  have "\<nexists>f'. fwd_step (?g\<lparr>fw_phase := Finished, fw_calls := [EvSuccess]\<rparr>) f'"
    unfolding fwd_stuck_iff by simp
  from stream_is_forwarded [OF r this] r ne show ?thesis by auto
qed

text \<open>The steps that a forwarder still has before it, at most.\<close>

definition fwd_work :: "forwarder \<Rightarrow> nat" where
  "fwd_work f = 2 * length (fw_ch f) + (case fw_phase f of Receiving \<Rightarrow> 1 | Sending _ \<Rightarrow> 2 | Finished \<Rightarrow> 0)"

lemma fwd_work_decreases: "fwd_step f f' \<Longrightarrow> fwd_work f' < fwd_work f"
  by (induction rule: fwd_step.induct) (simp_all add: fwd_work_def)

text \<open>
  Whatever the provider streams and wherever the handler stops reading, the goroutine takes at
  most two steps per chunk and one to end.
\<close>

lemma forwarding_terminates:
  assumes "(fwd_step ^^ n) (fwd_start chunks) f"
  shows "n \<le> 2 * length chunks + 1"
proof -
  have "n + fwd_work f \<le> fwd_work (fwd_start chunks)"
    using assms
  proof (induction n arbitrary: f)
    case (Suc n)
    then obtain g where "(fwd_step ^^ n) (fwd_start chunks) g" "fwd_step g f" by auto
    then show ?case using Suc.IH [of g] fwd_work_decreases [of g f] by simp
  qed simp
  then show ?thesis by (simp add: fwd_work_def fwd_start_def)
qed

text \<open>
  A provider that sends more after an error would leak the goroutine: the handler has
  stopped reading, so every run ends blocked in handing over the next chunk, with the outgoing
  channel never closed.
\<close>

theorem chunk_after_error_blocks:
  assumes "fwd_step\<^sup>*\<^sup>* (fwd_start (cs @ e # c # rest)) f" and "\<nexists>f'. fwd_step f f'" and "is_error e"
  shows "\<exists>d. fw_phase f = Sending d"
proof -
  note inv = fwd_inv_reachable [OF assms(1), unfolded fwd_inv_def]
  have "fw_phase f \<noteq> Finished"
  proof
    assume "fw_phase f = Finished"
    then have "fw_out f = cs @ e # c # rest" using inv by (simp add: in_flight_def)
    then have "e \<in> set (butlast (fw_out f))" by (simp add: butlast_append)
    then show False using inv assms(3) by blast
  qed
  then show ?thesis using assms(2) fwd_stuck_iff by auto
qed

theorem chunk_after_error_blocks_witness:
  "\<exists>f d. fwd_step\<^sup>*\<^sup>* (fwd_start [zero_chunk\<lparr>sc_error := Some (NewError ''x'' ''y'')\<rparr>, zero_chunk]) f \<and> fw_phase f = Sending d"
proof -
  let ?e = "zero_chunk\<lparr>sc_error := Some (NewError ''x'' ''y'')\<rparr>"
  let ?f = "fwd_start [?e, zero_chunk]"
  have e: "is_error ?e" by (simp add: is_error_def)
  let ?g = "\<lparr>fw_phase = Sending ?e, fw_ch = [zero_chunk], fw_gotError = True, fw_calls = [EvFailure 0], fw_out = [], fw_reading = True\<rparr>"
  let ?h = "\<lparr>fw_phase = Receiving, fw_ch = [zero_chunk], fw_gotError = True, fw_calls = [EvFailure 0], fw_out = [?e], fw_reading = False\<rparr>"
  let ?i = "\<lparr>fw_phase = Sending zero_chunk, fw_ch = [], fw_gotError = True, fw_calls = [EvFailure 0], fw_out = [?e], fw_reading = False\<rparr>"
  have "fwd_step ?f ?g" using receive [of ?f ?e "[zero_chunk]" 0] e by (simp add: fwd_start_def)
  moreover have "fwd_step ?g ?h" using deliver [of ?g ?e] e by simp
  moreover have "fwd_step ?h ?i" using receive [of ?h zero_chunk "[]"] by (simp add: is_error_def zero_chunk_def)
  ultimately have r: "fwd_step\<^sup>*\<^sup>* ?f ?i" by (meson converse_rtranclp_into_rtranclp rtranclp.rtrancl_refl)
  have "\<nexists>f'. fwd_step ?i f'" unfolding fwd_stuck_iff by simp
  from chunk_after_error_blocks [of "[]" ?e zero_chunk "[]" ?i] this r e show ?thesis by auto
qed

end
