(* ===== verification/Middleware.thy ===== *)
theory Middleware
  imports Json_Codec Gateway_Config
begin

text \<open>
  The middleware of \<^verbatim>\<open>internal/ingress/middleware_*.go\<close>: request ids, logging,
  authentication, rate limits and validation. A middleware turns the handler that follows it
  into one of its own, over any state. Gin itself (routing, recovery from panics) and the
  Redis client are outside; the Redis commands are an argument of the rate limiter.
\<close>

section \<open>Requests and replies\<close>

text \<open>
  A request as the middleware sees it, with the values they attach to the Gin context. A body
  that cannot be read is \<open>None\<close>; a header that is absent is empty.
\<close>

record Ctx =
  cx_method :: string
  cx_path :: string
  cx_authorization :: string
  cx_body :: "string option"
  cx_contentLength :: int
  cx_requestId :: "string option"
  cx_apiKey :: "string option"
  cx_apiKeyName :: "string option"
  cx_rateLimit :: "int option"

record Reply =
  rp_status :: int
  rp_headers :: "(string \<times> string) list"
  rp_body :: string

definition json_reply :: "int \<Rightarrow> (string \<times> json) list \<Rightarrow> Reply" where
  "json_reply status ms = \<lparr>rp_status = status, rp_headers = [], rp_body = encode (JObj ms)\<rparr>"

definition error_reply :: "int \<Rightarrow> string \<Rightarrow> Reply" where
  "error_reply status text = json_reply status [(''error'', JStr text)]"

text \<open>A handler panics where the source does; Gin's recovery then answers with status 500.\<close>

type_synonym 's handler = "Ctx \<Rightarrow> 's \<Rightarrow> Reply go_result \<times> 's"

definition open_path :: "string \<Rightarrow> bool" where
  "open_path path \<longleftrightarrow> path = ''/health'' \<or> path = ''/metrics''"

section \<open>Request ids and logging\<close>

definition RequestIDMiddleware :: "('s \<Rightarrow> string \<times> 's) \<Rightarrow> 's handler \<Rightarrow> 's handler" where
  "RequestIDMiddleware newID handle c s =
     (let (i, s) = newID s in
      case handle (c\<lparr>cx_requestId := Some i\<rparr>) s of
        (Ok r, s) \<Rightarrow> (Ok (r\<lparr>rp_headers := (''X-Request-ID'', i) # rp_headers r\<rparr>), s)
      | (Err e, s) \<Rightarrow> (Err e, s)
      | (Panic, s) \<Rightarrow> (Panic, s))"

record LogEntry =
  lg_warn :: bool
  lg_method :: string
  lg_path :: string
  lg_status :: int
  lg_latency :: duration
  lg_contentLength :: int
  lg_requestId :: "string option"

definition LoggingMiddleware :: "('s \<Rightarrow> instant \<times> 's) \<Rightarrow> (LogEntry \<Rightarrow> 's \<Rightarrow> 's) \<Rightarrow> 's handler \<Rightarrow> 's handler" where
  "LoggingMiddleware clock write handle c s =
     (let (start, s) = clock s in
      case handle c s of
        (Ok r, s) \<Rightarrow>
          let (now, s) = clock s;
              status = rp_status r;
              entry = \<lparr>lg_warn = (status \<ge> 400), lg_method = cx_method c, lg_path = cx_path c, lg_status = status,
                       lg_latency = time_sub now start, lg_contentLength = cx_contentLength c,
                       lg_requestId = cx_requestId c\<rparr>
          in (Ok r, write entry s)
      | (Err e, s) \<Rightarrow> (Err e, s)
      | (Panic, s) \<Rightarrow> (Panic, s))"

section \<open>Authentication\<close>

text \<open>The structure that only reads the model of a body.\<close>

definition dec_model_only :: "string decoder" where
  "dec_model_only = dec_struct (\<lambda>k v m. if field_is ''model'' k then dec_string v m else Some m)"

definition extractModelFromBody :: "Ctx \<Rightarrow> string" where
  "extractModelFromBody c =
     (case cx_body c of None \<Rightarrow> ''''
      | Some body \<Rightarrow> (case decode_with dec_model_only '''' (parse_document body) of
                       Inl _ \<Rightarrow> '''' | Inr m \<Rightarrow> m))"

definition modelAllowed :: "string list \<Rightarrow> Ctx \<Rightarrow> bool" where
  "modelAllowed allowedModels c =
     (if length allowedModels = 1 \<and> hd allowedModels = ''*'' then True
      else let modelName = extractModelFromBody c
           in if modelName = '''' then True else modelName \<in> set allowedModels)"

definition allowed_keys :: "APIKeyConfig list \<Rightarrow> string \<rightharpoonup> APIKeyConfig" where
  "allowed_keys keys = foldl (\<lambda>m k. m(ak_key k \<mapsto> k)) Map.empty keys"

definition AuthMiddleware :: "APIKeyConfig list \<Rightarrow> 's handler \<Rightarrow> 's handler" where
  "AuthMiddleware keys handle c s =
     (if open_path (cx_path c) then handle c s
      else
        let token = trim_prefix (cx_authorization c) ''Bearer '' in
        (case allowed_keys keys token of
           None \<Rightarrow> (Ok (error_reply 401 ''invalid api key''), s)
         | Some cfg \<Rightarrow>
             if token = '''' \<or> token = cx_authorization c then (Ok (error_reply 401 ''invalid api key''), s)
             else
               let c = c\<lparr>cx_apiKey := Some token, cx_apiKeyName := Some (ak_name cfg),
                         cx_rateLimit := Some (ak_rateLimit cfg)\<rparr>
               in if \<not> modelAllowed (ak_allowedModels cfg) c
                  then (Ok (json_reply 403 [(''error'', JStr ''model_not_allowed''),
                          (''message'', JStr ''requested model is not in the allowed models for this API key'')]), s)
                  else handle c s))"

section \<open>Rate limits\<close>

text \<open>
  The Redis commands that the limiter issues on a sorted set: the pipeline that removes the
  members with a score in a range and counts the rest, which may fail; adding a member; and
  setting an expiry. Errors of the last two are ignored.
\<close>

record 's SortedSets =
  zs_trimAndCount :: "string \<Rightarrow> string \<Rightarrow> string \<Rightarrow> 's \<Rightarrow> int option \<times> 's"
  zs_add :: "string \<Rightarrow> int \<Rightarrow> string \<Rightarrow> 's \<Rightarrow> 's"
  zs_expire :: "string \<Rightarrow> duration \<Rightarrow> 's \<Rightarrow> 's"

text \<open>The two halves of the limiter: the decision on the count, and the record of the request.\<close>

definition rl_check :: "'s SortedSets \<Rightarrow> string \<Rightarrow> int \<Rightarrow> int \<Rightarrow> 's \<Rightarrow> bool option \<times> 's" where
  "rl_check client rateKey limit now s =
     (let windowStart = now - 60000 in
      case zs_trimAndCount client rateKey ''0'' (itoa windowStart) s of
        (None, s) \<Rightarrow> (None, s)
      | (Some count, s) \<Rightarrow> (Some (count < limit), s))"

definition rl_record :: "'s SortedSets \<Rightarrow> string \<Rightarrow> int \<Rightarrow> string \<Rightarrow> 's \<Rightarrow> 's" where
  "rl_record client rateKey now member s =
     zs_expire client rateKey (120 * 1000000000) (zs_add client rateKey now member s)"

text \<open>\<open>clock\<close> is the time in milliseconds, \<open>newID\<close> the random member.\<close>

definition RateLimitMiddleware :: "'s SortedSets option \<Rightarrow> ('s \<Rightarrow> int \<times> 's) \<Rightarrow> ('s \<Rightarrow> string \<times> 's) \<Rightarrow>
    's handler \<Rightarrow> 's handler" where
  "RateLimitMiddleware client clock newID handle c s =
     (if open_path (cx_path c) then handle c s
      else case (cx_apiKey c, client) of
        (Some key, Some client) \<Rightarrow>
          (case cx_rateLimit c of
             None \<Rightarrow> handle c s
           | Some limit \<Rightarrow>
               if limit \<le> 0 then handle c s
               else
                 let rateKey = ''ratelimit:'' @ key; (now, s) = clock s in
                 (case rl_check client rateKey limit now s of
                    (None, s) \<Rightarrow> handle c s
                  | (Some admit, s) \<Rightarrow>
                      if \<not> admit
                      then (Ok (json_reply 429 [(''error'', JStr ''rate_limit_exceeded''),
                              (''message'', JStr (''rate limit exceeded: '' @ itoa limit @ '' requests per minute''))]), s)
                      else let (member, s) = newID s in handle c (rl_record client rateKey now member s)))
      | _ \<Rightarrow> handle c s)"

section \<open>Validation\<close>

record chatRequest =
  cq_model :: string
  cq_messages :: nat
  cq_temperature :: "f64 option"
  cq_maxTokens :: "int option"

definition zero_chatRequest :: chatRequest where
  "zero_chatRequest = \<lparr>cq_model = '''', cq_messages = 0, cq_temperature = None, cq_maxTokens = None\<rparr>"

text \<open>
  Of the messages, which are decoded as values of any type, only the number is used; decoding
  fails only on a number that does not fit a double.
\<close>

fun any_ok :: "json \<Rightarrow> bool" where
  "any_ok (JNum lit) = (parse_float lit \<noteq> None)"
| "any_ok (JArr xs) = list_all any_ok xs"
| "any_ok (JObj ms) = list_all (\<lambda>(k, v). any_ok v) ms"
| "any_ok _ = True"

fun dec_any_slice :: "nat decoder" where
  "dec_any_slice JNull n = Some 0"
| "dec_any_slice (JArr vs) n = (if list_all any_ok vs then Some (length vs) else None)"
| "dec_any_slice _ n = None"

definition dec_chatRequest :: "chatRequest decoder" where
  "dec_chatRequest = dec_struct (\<lambda>k v r.
     if field_is ''model'' k then map_option (\<lambda>s. r\<lparr>cq_model := s\<rparr>) (dec_string v (cq_model r))
     else if field_is ''messages'' k then map_option (\<lambda>n. r\<lparr>cq_messages := n\<rparr>) (dec_any_slice v (cq_messages r))
     else if field_is ''temperature'' k then
       map_option (\<lambda>t. r\<lparr>cq_temperature := t\<rparr>) (dec_pointer fzero dec_float v (cq_temperature r))
     else if field_is ''max_tokens'' k then
       map_option (\<lambda>n. r\<lparr>cq_maxTokens := n\<rparr>) (dec_pointer 0 dec_int v (cq_maxTokens r))
     else Some r)"

text \<open>The reply with which a body is rejected, if it is.\<close>

definition validate :: "string list \<Rightarrow> string option \<Rightarrow> Reply option" where
  "validate allowedModels body =
     (case body of
        None \<Rightarrow> Some (error_reply 400 ''failed to read request body'')
      | Some body \<Rightarrow>
          (case decode_with dec_chatRequest zero_chatRequest (parse_document body) of
             Inl _ \<Rightarrow> Some (error_reply 400 ''invalid json'')
           | Inr req \<Rightarrow>
               if cq_model req = '''' then Some (error_reply 400 ''model is required'')
               else if cq_model req \<notin> set allowedModels then Some (error_reply 400 (''unknown model: '' @ cq_model req))
               else if cq_messages req = 0 then Some (error_reply 400 ''messages must not be empty'')
               else if (case cq_temperature req of None \<Rightarrow> False
                        | Some t \<Rightarrow> flt t fzero \<or> flt (f64_of_int 2) t)
               then Some (error_reply 400 ''temperature must be in range [0, 2]'')
               else if (case cq_maxTokens req of None \<Rightarrow> False | Some n \<Rightarrow> n \<le> 0)
               then Some (error_reply 400 ''max_tokens must be a positive integer'')
               else None))"

definition ValidationMiddleware :: "string list \<Rightarrow> 's handler \<Rightarrow> 's handler" where
  "ValidationMiddleware allowedModels handle c s =
     (if \<not> has_prefix (cx_path c) ''/v1/chat/completions'' \<or> cx_method c \<noteq> ''POST'' then handle c s
      else case validate allowedModels (cx_body c) of
             Some r \<Rightarrow> (Ok r, s)
           | None \<Rightarrow> handle c s)"


section \<open>What a validated request is\<close>

text \<open>
  Each middleware decodes the body into a structure of its own, and so does the handler. The
  structures agree on the fields they share.
\<close>

definition agree :: "chatRequest \<Rightarrow> StandardRequest \<Rightarrow> bool" where
  "agree q r \<longleftrightarrow> cq_model q = req_model r \<and> cq_messages q = length (req_messages r) \<and>
     cq_temperature q = req_temperature r \<and> cq_maxTokens q = req_maxTokens r"

lemma dec_elems_length: "dec_elems z dec vs xs = Some ys \<Longrightarrow> length ys = length vs"
  by (induction vs arbitrary: xs ys) (auto split: option.splits)

lemma dec_messages_length:
  assumes "dec_any_slice v n = Some n'" and "dec_slice z dec v xs = Some ys"
  shows "length (case ys of None \<Rightarrow> [] | Some ms \<Rightarrow> ms) = n'"
  using assms dec_elems_length [of z dec]
  by (cases v; cases ys) (auto simp: dec_slice_def split: if_splits option.splits)

lemma dec_members_agree:
  assumes step: "\<And>k v x y x' y'. f k v x = Some x' \<Longrightarrow> g k v y = Some y' \<Longrightarrow> R x y \<Longrightarrow> R x' y'"
  shows "dec_members f ms x = Some x' \<Longrightarrow> dec_members g ms y = Some y' \<Longrightarrow> R x y \<Longrightarrow> R x' y'"
proof (induction ms arbitrary: x y)
  case (Cons m ms)
  obtain k v where m: "m = (k, v)" by fastforce
  show ?case using Cons.prems Cons.IH step unfolding m by (auto split: option.splits)
qed simp

text \<open>A relation that every member keeps holds of two decodings of the same document.\<close>

lemma dec_struct_agree:
  assumes "\<And>k v x y x' y'. f k v x = Some x' \<Longrightarrow> g k v y = Some y' \<Longrightarrow> R x y \<Longrightarrow> R x' y'"
    and "decode_with (dec_struct f) z p = Inr x" and "decode_with (dec_struct g) u p = Inr y" and "R z u"
  shows "R x y"
proof -
  obtain v where p: "p = Inr v" using assms(2) by (cases p) (auto simp: decode_with_def)
  show ?thesis using assms(2-4) dec_members_agree [of f g R, OF assms(1)]
    by (cases v) (auto simp: p decode_with_def dec_struct_def split: option.splits)
qed

lemma chatRequest_agrees:
  assumes "decode_with dec_chatRequest zero_chatRequest p = Inr q"
    and "decode_with dec_StandardRequest zero_request p = Inr r"
  shows "agree q r"
proof (rule dec_struct_agree [where R = agree, OF _ assms [unfolded dec_chatRequest_def dec_StandardRequest_def]])
  show "agree zero_chatRequest zero_request" by (simp add: agree_def zero_chatRequest_def zero_request_def)
qed (auto simp: agree_def field_is_def fold_names request_fold_names dec_messages_length split: if_split_asm)

lemma model_only_agrees:
  assumes "decode_with dec_model_only '''' p = Inr m"
    and "decode_with dec_StandardRequest zero_request p = Inr r"
  shows "m = req_model r"
  by (rule dec_struct_agree [where R = "\<lambda>m r. m = req_model r",
        OF _ assms [unfolded dec_model_only_def dec_StandardRequest_def]])
    (auto simp: zero_request_def field_is_def fold_names request_fold_names split: if_split_asm)

lemma dec_members_total:
  assumes step: "\<And>k v x y y'. g k v y = Some y' \<Longrightarrow> \<exists>x'. f k v x = Some x'"
  shows "dec_members g ms y = Some y' \<Longrightarrow> \<exists>x'. dec_members f ms x = Some x'"
proof (induction ms arbitrary: x y)
  case (Cons m ms)
  obtain k v where m: "m = (k, v)" by fastforce
  obtain y1 where "g k v y = Some y1" "dec_members g ms y1 = Some y'"
    using Cons.prems unfolding m by (auto split: option.splits)
  moreover obtain x1 where "f k v x = Some x1" using step [OF \<open>g k v y = Some y1\<close>] by blast
  ultimately show ?case using Cons.IH unfolding m by simp
qed simp

lemma dec_string_total: "dec_string v x = Some y \<Longrightarrow> \<exists>y'. dec_string v x' = Some y'"
  by (cases v) simp_all

lemma model_only_total:
  assumes "ParseStandardRequest body = Inr r"
  shows "decode_with dec_model_only '''' (parse_document body) = Inr (req_model r)"
proof -
  obtain v where p: "parse_document body = Inr v"
    using assms by (cases "parse_document body") (auto simp: ParseStandardRequest_def decode_with_def)
  have d: "dec_StandardRequest v zero_request = Some r"
    using assms by (auto simp: ParseStandardRequest_def decode_with_def p split: option.splits)
  have "\<exists>m. dec_model_only v '''' = Some m"
  proof (cases v)
    case (JObj ms)
    show ?thesis using d unfolding JObj dec_model_only_def dec_StandardRequest_def dec_struct_def
      by (simp, elim dec_members_total [rotated])
        (auto simp: field_is_def fold_names request_fold_names intro: dec_string_total split: if_split_asm)
  qed (use d in \<open>auto simp: dec_model_only_def dec_StandardRequest_def dec_struct_def\<close>)
  then obtain m where m: "decode_with dec_model_only '''' (parse_document body) = Inr m"
    by (auto simp: p decode_with_def)
  from model_only_agrees [OF m, of r] m assms show ?thesis by (simp add: ParseStandardRequest_def)
qed

lemma validated_fields:
  assumes "validate models (Some body) = None" and "ParseStandardRequest body = Inr req"
  shows "req_model req \<noteq> '''' \<and> req_model req \<in> set models \<and> req_messages req \<noteq> [] \<and>
     (case req_temperature req of None \<Rightarrow> True | Some t \<Rightarrow> \<not> flt t fzero \<and> \<not> flt (f64_of_int 2) t) \<and>
     (case req_maxTokens req of None \<Rightarrow> True | Some n \<Rightarrow> 0 < n)"
proof -
  obtain q where q: "decode_with dec_chatRequest zero_chatRequest (parse_document body) = Inr q"
    using assms(1) by (auto simp: validate_def split: sum.splits)
  have "agree q req" using chatRequest_agrees [OF q] assms(2) by (simp add: ParseStandardRequest_def)
  then show ?thesis using assms(1) q
    by (auto simp: validate_def agree_def split: if_splits option.splits)
qed

text \<open>
  Validation holds for the request that the handler will decode, not just for the fields
  that the middleware looked at: if a body passes and the handler can decode it, then its model
  is one of the configured ones, it has messages, its temperature, if any, lies between 0 and 2,
  and its token limit, if any, is positive.
\<close>

theorem validated_request:
  assumes "validate models (Some body) = None" and "ParseStandardRequest body = Inr req"
  shows "req_model req \<in> set models \<and> req_messages req \<noteq> [] \<and>
     (case req_temperature req of None \<Rightarrow> True | Some t \<Rightarrow> \<not> flt t fzero \<and> \<not> flt (f64_of_int 2) t) \<and>
     (case req_maxTokens req of None \<Rightarrow> True | Some n \<Rightarrow> 0 < n)"
  using validated_fields [OF assms] by blast

definition demo_body :: string where
  "demo_body = encode (JObj [(''model'', JStr ''m''),
     (''messages'', JArr [JObj [(''role'', JStr ''user''), (''content'', JStr ''hi'')]]), (''max_tokens'', JNum (itoa 5))])"

lemma demo_body_parse: "parse_document demo_body = Inr (JObj [(''model'', JStr ''m''),
     (''messages'', JArr [JObj [(''role'', JStr ''user''), (''content'', JStr ''hi'')]]), (''max_tokens'', JNum (itoa 5))])"
proof -
  have "valid_utf8 ''m''" "valid_utf8 ''hi''" "valid_utf8 ''user''" "valid_utf8 ''messages''" "valid_utf8 ''max_tokens''"
    by (simp_all add: valid_utf8_ascii byte_def)
  then show ?thesis unfolding demo_body_def
    using parse_document_encode [of "JObj [(''model'', JStr ''m''),
     (''messages'', JArr [JObj [(''role'', JStr ''user''), (''content'', JStr ''hi'')]]), (''max_tokens'', JNum (itoa 5))]" "[]"]
    by (simp add: number_lit_itoa maxNestingDepth_def)
qed

lemma demo_body_decodes:
  "decode_with dec_chatRequest zero_chatRequest (parse_document demo_body) =
     Inr \<lparr>cq_model = ''m'', cq_messages = 1, cq_temperature = None, cq_maxTokens = Some 5\<rparr>"
  "ParseStandardRequest demo_body = Inr (zero_request\<lparr>req_model := ''m'',
     req_messages := [\<lparr>msg_role = ''user'', msg_content = ''hi''\<rparr>], req_maxTokens := Some 5\<rparr>)"
  "decode_with dec_model_only '''' (parse_document demo_body) = Inr ''m''"
  by (simp_all add: demo_body_parse ParseStandardRequest_def decode_with_def dec_chatRequest_def dec_StandardRequest_def
      dec_model_only_def dec_struct_def field_is_def fold_names request_fold_names dec_slice_def dec_pointer_def atoi_itoa
      in_int64_def min_int64_def max_int64_def zero_chatRequest_def zero_request_def dec_Message_def zero_message_def)

lemma demo_body_valid: "validate [''m'', ''n''] (Some demo_body) = None"
  by (simp add: validate_def demo_body_decodes)

theorem validated_request_witness:
  "\<exists>req. ParseStandardRequest demo_body = Inr req \<and> req_model req \<in> {''m'', ''n''} \<and> req_messages req \<noteq> []"
  using validated_request [OF demo_body_valid demo_body_decodes(2)] demo_body_decodes(2) by auto

section \<open>Who reaches the handler\<close>

lemma allowed_keys_find: "allowed_keys keys t = List.find (\<lambda>k. ak_key k = t) (rev keys)"
  unfolding allowed_keys_def
  by (induction keys rule: rev_induct) auto

lemma authenticated_cases:
  assumes "AuthMiddleware keys handle c s = (r, s')" and "\<not> open_path (cx_path c)"
  shows "(\<exists>rep. r = Ok rep \<and> s' = s \<and> rp_status rep \<in> {401, 403}) \<or>
    (\<exists>cfg \<in> set keys. cx_authorization c = ''Bearer '' @ ak_key cfg \<and> ak_key cfg \<noteq> '''' \<and>
       modelAllowed (ak_allowedModels cfg) c \<and>
       (r, s') = handle (c\<lparr>cx_apiKey := Some (ak_key cfg), cx_apiKeyName := Some (ak_name cfg),
                          cx_rateLimit := Some (ak_rateLimit cfg)\<rparr>) s)"
proof -
  let ?t = "trim_prefix (cx_authorization c) ''Bearer ''"
  show ?thesis
  proof (cases "allowed_keys keys ?t")
    case None
    then show ?thesis using assms by (auto simp: AuthMiddleware_def error_reply_def json_reply_def)
  next
    case (Some cfg)
    then have cfg: "cfg \<in> set keys" "ak_key cfg = ?t"
      unfolding allowed_keys_find find_Some_iff by (metis length_rev nth_mem set_rev, metis)
    have hp: "?t \<noteq> cx_authorization c \<Longrightarrow> cx_authorization c = ''Bearer '' @ ?t"
      by (auto simp: trim_prefix_def has_prefix_iff split: if_splits)
    let ?c = "c\<lparr>cx_apiKey := Some ?t, cx_apiKeyName := Some (ak_name cfg), cx_rateLimit := Some (ak_rateLimit cfg)\<rparr>"
    have ma: "modelAllowed (ak_allowedModels cfg) ?c = modelAllowed (ak_allowedModels cfg) c"
      by (simp add: modelAllowed_def extractModelFromBody_def)
    show ?thesis
    proof (cases "?t = '''' \<or> ?t = cx_authorization c \<or> \<not> modelAllowed (ak_allowedModels cfg) c")
      case True
      then have "\<exists>rep. r = Ok rep \<and> s' = s \<and> rp_status rep \<in> {401, 403}" using assms Some ma
        by (simp add: AuthMiddleware_def error_reply_def json_reply_def Let_def split: if_split_asm)
          (auto simp: error_reply_def json_reply_def)
      then show ?thesis ..
    next
      case False
      then have "(r, s') = handle ?c s" using assms Some ma by (auto simp: AuthMiddleware_def Let_def)
      then show ?thesis using False cfg hp by (intro disjI2 bexI [of _ cfg]) auto
    qed
  qed
qed

text \<open>
  No request gets past authentication without a configured key in a bearer token: to any
  path but the two open ones, it is answered with status 401 or 403, and the handlers behind do
  not run; or the token is the key of a configuration that allows the requested model.
\<close>

theorem authentication_required:
  assumes "AuthMiddleware keys handle c s = (r, s')" and "\<not> open_path (cx_path c)"
  shows "(\<exists>rep. r = Ok rep \<and> s' = s \<and> rp_status rep \<in> {401, 403}) \<or>
    (\<exists>cfg \<in> set keys. cx_authorization c = ''Bearer '' @ ak_key cfg \<and> ak_key cfg \<noteq> '''' \<and>
       modelAllowed (ak_allowedModels cfg) c \<and>
       (r, s') = handle (c\<lparr>cx_apiKey := Some (ak_key cfg), cx_apiKeyName := Some (ak_name cfg),
                          cx_rateLimit := Some (ak_rateLimit cfg)\<rparr>) s)"
  using assms by (rule authenticated_cases)

definition demo_ctx :: Ctx where
  "demo_ctx = \<lparr>cx_method = ''POST'', cx_path = ''/v1/chat/completions'', cx_authorization = ''Bearer k1'',
     cx_body = Some demo_body, cx_contentLength = 9, cx_requestId = None, cx_apiKey = None, cx_apiKeyName = None,
     cx_rateLimit = None\<rparr>"

definition demo_key :: APIKeyConfig where
  "demo_key = \<lparr>ak_key = ''k1'', ak_name = ''team'', ak_rateLimit = 2, ak_allowedModels = [''m'']\<rparr>"

definition ok_handler :: "'s handler" where
  "ok_handler c s = (Ok (error_reply 200 ''''), s)"

theorem authentication_required_witness:
  "\<exists>rep. AuthMiddleware [demo_key] ok_handler (demo_ctx\<lparr>cx_authorization := ''k1''\<rparr>) () = (Ok rep, ()) \<and> rp_status rep \<in> {401, 403}"
proof -
  obtain r where r: "AuthMiddleware [demo_key] ok_handler (demo_ctx\<lparr>cx_authorization := ''k1''\<rparr>) () = (r, ())"
    by (metis old.unit.exhaust prod.collapse)
  have "\<not> open_path (cx_path (demo_ctx\<lparr>cx_authorization := ''k1''\<rparr>))" by (simp add: demo_ctx_def open_path_def)
  from authentication_required [OF r this] r show ?thesis by (auto simp: demo_ctx_def demo_key_def)
qed

lemma validate_status: "validate models body = Some rep \<Longrightarrow> rp_status rep = 400"
  by (auto simp: validate_def error_reply_def json_reply_def split: sum.splits if_splits option.splits)

lemma model_allowed_cases:
  assumes "modelAllowed allowed c" and "cx_body c = Some body" and "ParseStandardRequest body = Inr req"
  shows "allowed = [''*''] \<or> req_model req \<in> set allowed \<or> req_model req = ''''"
  using assms model_only_total [OF assms(3)]
  by (auto simp: modelAllowed_def extractModelFromBody_def length_Suc_conv split: if_splits)

text \<open>
  The models of an API key bind: behind authentication and validation, the request that
  the handler decodes asks for a model that is configured, and that the key allows.
\<close>

theorem key_restricts_models:
  assumes "AuthMiddleware keys (ValidationMiddleware models handle) c s = (r, s')"
    and "cx_path c = ''/v1/chat/completions''" and "cx_method c = ''POST''" and "cx_body c = Some body"
    and "ParseStandardRequest body = Inr req"
  shows "(\<exists>rep. r = Ok rep \<and> s' = s \<and> rp_status rep \<in> {400, 401, 403}) \<or>
    (\<exists>cfg \<in> set keys. \<exists>c'. (r, s') = handle c' s \<and> cx_body c' = Some body \<and> cx_apiKey c' = Some (ak_key cfg) \<and>
       req_model req \<in> set models \<and> (ak_allowedModels cfg = [''*''] \<or> req_model req \<in> set (ak_allowedModels cfg) \<or> req_model req = ''''))"
proof -
  have "\<not> open_path (cx_path c)" using assms(2) by (simp add: open_path_def)
  from authenticated_cases [OF assms(1) this] show ?thesis
  proof (elim disjE exE bexE conjE)
    fix cfg :: APIKeyConfig
    let ?c = "c\<lparr>cx_apiKey := Some (ak_key cfg), cx_apiKeyName := Some (ak_name cfg), cx_rateLimit := Some (ak_rateLimit cfg)\<rparr>"
    assume cfg: "cfg \<in> set keys" and ma: "modelAllowed (ak_allowedModels cfg) c"
      and h: "(r, s') = ValidationMiddleware models handle ?c s"
    show ?thesis
    proof (cases "validate models (Some body)")
      case None
      have "cx_method ?c = ''POST'' \<and> has_prefix (cx_path ?c) ''/v1/chat/completions''"
        using assms(2,3) by (simp add: has_prefix_def)
      then have "(r, s') = handle ?c s" using h assms(4) None by (simp add: ValidationMiddleware_def)
      moreover have "req_model req \<in> set models" using validated_fields [OF None assms(5)] by simp
      moreover have "ak_allowedModels cfg = [''*''] \<or> req_model req \<in> set (ak_allowedModels cfg) \<or> req_model req = ''''"
        by (rule model_allowed_cases [OF ma assms(4,5)])
      ultimately show ?thesis using cfg assms(4) by (intro disjI2 bexI [of _ cfg] exI [of _ ?c]) auto
    next
      case (Some rep)
      then have "r = Ok rep" "s' = s" using h assms(2-4) by (simp_all add: ValidationMiddleware_def has_prefix_def)
      moreover have "rp_status rep = 400" using Some by (rule validate_status)
      ultimately show ?thesis by auto
    qed
  qed auto
qed


theorem key_restricts_models_witness:
  "\<exists>r s'. AuthMiddleware [demo_key] (ValidationMiddleware [''m'', ''n''] ok_handler) demo_ctx () = (r, s') \<and>
     ((\<exists>rep. r = Ok rep \<and> rp_status rep \<in> {400, 401, 403}) \<or>
      (\<exists>cfg \<in> {demo_key}. ''m'' \<in> set (ak_allowedModels cfg) \<and> (\<exists>c'. (r, s') = ok_handler c' ())))"
proof -
  obtain r s' where r: "AuthMiddleware [demo_key] (ValidationMiddleware [''m'', ''n''] ok_handler) demo_ctx () = (r, s')"
    by (metis prod.collapse)
  from key_restricts_models [OF r _ _ _ demo_body_decodes(2)] r show ?thesis
    by (fastforce simp: demo_ctx_def demo_key_def)
qed

section \<open>The window of the rate limiter\<close>

text \<open>
  What the limiter relies on of Redis: a sorted set is a finite map from members to scores;
  trimming removes the scores in a range and the count is that of the rest; adding sets a
  score; giving a set a time to live leaves it as it is for now. When this time is over, 120 seconds
  after the last addition, all scores of the set are out of every window, so that trimming it
  leaves nothing, as if Redis had removed the set already.
\<close>

definition zset_laws :: "'s SortedSets \<Rightarrow> ('s \<Rightarrow> string \<Rightarrow> string \<rightharpoonup> int) \<Rightarrow> bool" where
  "zset_laws ops view \<longleftrightarrow>
     (\<forall>key m s. in_int64 m \<longrightarrow> (let kept = view s key |` {x. \<not> (0 \<le> the (view s key x) \<and> the (view s key x) \<le> m)}
        in \<exists>s'. zs_trimAndCount ops key ''0'' (itoa m) s = (Some (int (card (dom kept))), s') \<and>
                view s' = (view s)(key := kept))) \<and>
     (\<forall>key n x s. view (zs_add ops key n x s) = (view s)(key := (view s key)(x \<mapsto> n))) \<and>
     (\<forall>key d s. 0 < d \<longrightarrow> view (zs_expire ops key d s) = view s)"

text \<open>The scores that a check at time \<open>now\<close> leaves.\<close>

definition kept :: "(string \<rightharpoonup> int) \<Rightarrow> int \<Rightarrow> string \<rightharpoonup> int" where
  "kept v now = v |` {x. \<not> (0 \<le> the (v x) \<and> the (v x) \<le> now - 60000)}"

lemma rl_check_laws:
  assumes "zset_laws ops view" and "in_int64 (now - 60000)"
  obtains s' where "rl_check ops key limit now s = (Some (int (card (dom (kept (view s key) now))) < limit), s')"
    and "view s' = (view s)(key := kept (view s key) now)"
proof -
  have "\<exists>s'. zs_trimAndCount ops key ''0'' (itoa (now - 60000)) s = (Some (int (card (dom (kept (view s key) now)))), s') \<and>
      view s' = (view s)(key := kept (view s key) now)"
    using assms unfolding zset_laws_def Let_def kept_def by simp
  then obtain s' where "zs_trimAndCount ops key ''0'' (itoa (now - 60000)) s = (Some (int (card (dom (kept (view s key) now)))), s')"
    "view s' = (view s)(key := kept (view s key) now)" by blast
  then show ?thesis using that [of s'] by (simp add: rl_check_def)
qed

lemma rl_record_view:
  "zset_laws ops view \<Longrightarrow> view (rl_record ops key now x s) = (view s)(key := (view s key)(x \<mapsto> now))"
  by (simp add: zset_laws_def rl_record_def)

subsection \<open>Requests one after the other\<close>

text \<open>
  A run of the middleware over requests, each with the time at which it arrives and the random
  member that it draws, in front of a handler that notes which requests reach it. The state is
  that of Redis and these notes.
\<close>

type_synonym request = "int \<times> string \<times> Ctx"

definition with_notes :: "'s SortedSets \<Rightarrow> ('s \<times> 'n) SortedSets" where
  "with_notes ops = \<lparr>zs_trimAndCount = (\<lambda>key lo hi (s, n). let (k, s) = zs_trimAndCount ops key lo hi s in (k, (s, n))),
     zs_add = (\<lambda>key score x (s, n). (zs_add ops key score x s, n)),
     zs_expire = (\<lambda>key d (s, n). (zs_expire ops key d s, n))\<rparr>"

definition note_request :: "int \<Rightarrow> string \<Rightarrow> ('s \<times> request list) handler" where
  "note_request now x c sn = (Ok (json_reply 200 []), (fst sn, snd sn @ [(now, x, c)]))"

fun limited_run :: "'s SortedSets \<Rightarrow> request list \<Rightarrow> 's \<times> request list \<Rightarrow> 's \<times> request list" where
  "limited_run ops [] sn = sn"
| "limited_run ops ((now, x, c) # rs) sn =
     limited_run ops rs (snd (RateLimitMiddleware (Some (with_notes ops)) (\<lambda>sn. (now, sn)) (\<lambda>sn. (x, sn)) (note_request now x) c sn))"

text \<open>
  What it should do: a request that is subject to a limit passes if fewer requests of its key
  than the limit have passed in the minute before.
\<close>

definition limit_of :: "Ctx \<Rightarrow> (string \<times> int) option" where
  "limit_of c = (if open_path (cx_path c) then None
     else case (cx_apiKey c, cx_rateLimit c) of
       (Some key, Some limit) \<Rightarrow> if limit \<le> 0 then None else Some (key, limit)
     | _ \<Rightarrow> None)"

definition limited_by :: "string \<Rightarrow> Ctx \<Rightarrow> bool" where
  "limited_by key c \<longleftrightarrow> (case limit_of c of None \<Rightarrow> False | Some (k, _) \<Rightarrow> k = key)"

definition in_window :: "string \<Rightarrow> int \<Rightarrow> request list \<Rightarrow> nat" where
  "in_window key T l = length (filter (\<lambda>(now, x, c). limited_by key c \<and> T - 60000 < now \<and> now \<le> T) l)"

fun sliding_window :: "request list \<Rightarrow> request list \<Rightarrow> request list" where
  "sliding_window [] l = l"
| "sliding_window ((now, x, c) # rs) l =
     sliding_window rs
       (case limit_of c of
          None \<Rightarrow> l @ [(now, x, c)]
        | Some (key, limit) \<Rightarrow> if int (in_window key now l) < limit then l @ [(now, x, c)] else l)"

definition rate_key :: "string \<Rightarrow> string" where
  "rate_key key = ''ratelimit:'' @ key"

lemma rate_key_inj [simp]: "rate_key k = rate_key key \<longleftrightarrow> k = key"
  by (simp add: rate_key_def)

text \<open>
  The set of a key holds exactly the requests of the key that have passed and were within the
  window when it was last trimmed.
\<close>

definition set_since :: "int \<Rightarrow> string \<Rightarrow> request list \<Rightarrow> (string \<rightharpoonup> int) \<Rightarrow> bool" where
  "set_since since key l v \<longleftrightarrow>
     (\<forall>x u. v x = Some u \<longleftrightarrow> (\<exists>c. (u, x, c) \<in> set l \<and> limited_by key c \<and> since - 60000 < u))"

definition rl_inv :: "('s \<Rightarrow> string \<Rightarrow> string \<rightharpoonup> int) \<Rightarrow> int \<Rightarrow> request list \<Rightarrow> 's \<Rightarrow> bool" where
  "rl_inv view t l s \<longleftrightarrow> distinct (map (fst \<circ> snd) l) \<and> (\<forall>r \<in> set l. 0 \<le> fst r \<and> fst r \<le> t) \<and>
     (\<forall>key. \<exists>since \<le> t. set_since since key l (view s (rate_key key)))"

lemma kept_iff: "kept v now x = Some u \<longleftrightarrow> v x = Some u \<and> \<not> (0 \<le> u \<and> u \<le> now - 60000)"
  by (auto simp: kept_def restrict_map_def)

lemma kept_since:
  assumes "rl_inv view t l s" and "t \<le> now"
  shows "set_since now key l (kept (view s (rate_key key)) now)"
  unfolding set_since_def
proof (intro allI)
  fix x u
  obtain since where le: "since \<le> t" and "set_since since key l (view s (rate_key key))"
    using assms(1) unfolding rl_inv_def by blast
  from this(2) have v: "view s (rate_key key) x = Some u \<longleftrightarrow>
      (\<exists>c. (u, x, c) \<in> set l \<and> limited_by key c \<and> since - 60000 < u)" by (simp add: set_since_def)
  have "0 \<le> u" if "(u, x, c) \<in> set l" for c using that assms(1) by (auto simp: rl_inv_def)
  moreover have "now - 60000 < u \<Longrightarrow> since - 60000 < u" using le assms(2) by simp
  ultimately show "kept (view s (rate_key key)) now x = Some u \<longleftrightarrow>
      (\<exists>c. (u, x, c) \<in> set l \<and> limited_by key c \<and> now - 60000 < u)"
    unfolding kept_iff v not_less not_le de_Morgan_conj by (metis linorder_not_le)
qed

lemma card_window:
  assumes "rl_inv view t l s" and "t \<le> now"
  shows "card (dom (kept (view s (rate_key key)) now)) = in_window key now l"
proof -
  let ?K = "kept (view s (rate_key key)) now"
  let ?F = "filter (\<lambda>(u, x, c). limited_by key c \<and> now - 60000 < u \<and> u \<le> now) l"
  have K: "?K x = Some u \<longleftrightarrow> (\<exists>c. (u, x, c) \<in> set l \<and> limited_by key c \<and> now - 60000 < u)" for x u
    using kept_since [OF assms, of key] by (simp add: set_since_def)
  have le: "(u, x, c) \<in> set l \<Longrightarrow> u \<le> now" for u x c using assms by (force simp: rl_inv_def)
  have "dom ?K = (fst \<circ> snd) ` {(u, x, c). (u, x, c) \<in> set l \<and> limited_by key c \<and> now - 60000 < u}"
    by (auto simp: dom_def K image_iff) blast+
  also have "{(u, x, c). (u, x, c) \<in> set l \<and> limited_by key c \<and> now - 60000 < u} = set ?F"
    using le by auto
  finally have "dom ?K = set (map (fst \<circ> snd) ?F)" by simp
  moreover have "distinct (map (fst \<circ> snd) ?F)" using assms(1) distinct_map_filter by (auto simp: rl_inv_def)
  ultimately show ?thesis using distinct_card [of "map (fst \<circ> snd) ?F"] by (simp add: in_window_def)
qed

lemma check_inv:
  assumes "rl_inv view t l s" and "t \<le> now" and "view s' = (view s)(rate_key key := kept (view s (rate_key key)) now)"
  shows "rl_inv view now l s'"
  unfolding rl_inv_def
proof (intro conjI allI)
  show "distinct (map (fst \<circ> snd) l)" "\<forall>r \<in> set l. 0 \<le> fst r \<and> fst r \<le> now"
    using assms(1,2) unfolding rl_inv_def by (simp, fastforce)
  fix k
  obtain since where "since \<le> t" "set_since since k l (view s (rate_key k))" using assms(1) unfolding rl_inv_def by blast
  then show "\<exists>since \<le> now. set_since since k l (view s' (rate_key k))"
    using kept_since [OF assms(1,2), of k] assms(2,3) by (cases "k = key") (auto intro: order_trans)
qed

text \<open>A request that passes without a limit, and one that is recorded.\<close>

lemma note_inv:
  assumes "rl_inv view t l s" and "t \<le> now" and "0 \<le> now" and "x \<notin> set (map (fst \<circ> snd) l)"
    and "limit_of c = None"
  shows "rl_inv view now (l @ [(now, x, c)]) s"
  unfolding rl_inv_def
proof (intro conjI allI)
  show "distinct (map (fst \<circ> snd) (l @ [(now, x, c)]))" "\<forall>r \<in> set (l @ [(now, x, c)]). 0 \<le> fst r \<and> fst r \<le> now"
    using assms(1-4) unfolding rl_inv_def by (simp, fastforce)
  fix k
  obtain since where "since \<le> t" "set_since since k l (view s (rate_key k))" using assms(1) unfolding rl_inv_def by blast
  then show "\<exists>since \<le> now. set_since since k (l @ [(now, x, c)]) (view s (rate_key k))"
    using assms(2,5) by (intro exI [of _ since]) (auto simp: set_since_def limited_by_def)
qed

lemma record_inv:
  assumes "rl_inv view now l s" and "0 \<le> now" and "x \<notin> set (map (fst \<circ> snd) l)"
    and "limit_of c = Some (key, limit)" and "view s' = (view s)(rate_key key := (view s (rate_key key))(x \<mapsto> now))"
  shows "rl_inv view now (l @ [(now, x, c)]) s'"
  unfolding rl_inv_def
proof (intro conjI allI)
  show "distinct (map (fst \<circ> snd) (l @ [(now, x, c)]))" "\<forall>r \<in> set (l @ [(now, x, c)]). 0 \<le> fst r \<and> fst r \<le> now"
    using assms(1-3) unfolding rl_inv_def by (simp, fastforce)
  fix k
  obtain since where since: "since \<le> now" "set_since since k l (view s (rate_key k))" using assms(1) unfolding rl_inv_def by blast
  have fresh: "(u, x, d) \<notin> set l" for u d using assms(3) by force
  have "limited_by k c \<longleftrightarrow> k = key" using assms(4) by (auto simp: limited_by_def)
  with since fresh have "set_since since k (l @ [(now, x, c)]) (view s' (rate_key k))"
    by (auto simp: set_since_def assms(5))
  with since(1) show "\<exists>since \<le> now. set_since since k (l @ [(now, x, c)]) (view s' (rate_key k))" by blast
qed

lemma with_notes_check: "rl_check ops k limit now s = (a, s') \<Longrightarrow> rl_check (with_notes ops) k limit now (s, n) = (a, (s', n))"
  by (auto simp: rl_check_def with_notes_def Let_def split: prod.splits option.splits)

lemma with_notes_record: "rl_record (with_notes ops) k now x (s, n) = (rl_record ops k now x s, n)"
  by (simp add: rl_record_def with_notes_def)

text \<open>One request: it passes as it should, and the sets hold what has passed.\<close>

lemma limited_step:
  assumes laws: "zset_laws ops view" and inv: "rl_inv view t l s"
    and now: "t \<le> now" "0 \<le> now" "in_int64 (now - 60000)" and x: "x \<notin> set (map (fst \<circ> snd) l)"
    and run: "snd (RateLimitMiddleware (Some (with_notes ops)) (\<lambda>sn. (now, sn)) (\<lambda>sn. (x, sn)) (note_request now x) c (s, l)) = (s', l')"
  shows "rl_inv view now l' s' \<and> l' = (case limit_of c of None \<Rightarrow> l @ [(now, x, c)]
    | Some (key, limit) \<Rightarrow> if int (in_window key now l) < limit then l @ [(now, x, c)] else l)"
proof (cases "limit_of c")
  case None
  then have "(s', l') = (s, l @ [(now, x, c)])"
    using run by (auto simp: RateLimitMiddleware_def limit_of_def note_request_def split: option.splits if_splits)
  then show ?thesis using note_inv [OF inv now(1,2) x None] None by simp
next
  case (Some kl)
  then obtain key limit where kl: "kl = (key, limit)" "cx_apiKey c = Some key" "cx_rateLimit c = Some limit" "0 < limit"
    "\<not> open_path (cx_path c)" by (auto simp: limit_of_def split: if_splits option.splits)
  obtain s1 where c: "rl_check ops (rate_key key) limit now s = (Some (int (card (dom (kept (view s (rate_key key)) now))) < limit), s1)"
    and v: "view s1 = (view s)(rate_key key := kept (view s (rate_key key)) now)" by (rule rl_check_laws [OF laws now(3)])
  note c' = with_notes_check [OF c [unfolded card_window [OF inv now(1)]], of l]
  note inv1 = check_inv [OF inv now(1) v]
  have "(s', l') = (if int (in_window key now l) < limit then (rl_record ops (rate_key key) now x s1, l @ [(now, x, c)]) else (s1, l))"
    using run kl unfolding RateLimitMiddleware_def rate_key_def [symmetric]
    by (auto simp: c' note_request_def with_notes_record Let_def split: if_splits)
  then show ?thesis
    using inv1 record_inv [OF inv1 now(2) x Some [unfolded kl(1)] rl_record_view [OF laws]] Some kl(1)
    by (auto split: if_splits)
qed

lemma limited_run_window:
  assumes "zset_laws ops view"
  shows "rl_inv view t l s \<Longrightarrow> sorted (map fst rs) \<Longrightarrow> distinct (map (fst \<circ> snd) (l @ rs)) \<Longrightarrow>
    \<forall>r \<in> set rs. t \<le> fst r \<and> 0 \<le> fst r \<and> in_int64 (fst r - 60000) \<Longrightarrow>
    snd (limited_run ops rs (s, l)) = sliding_window rs l"
proof (induction rs arbitrary: t l s)
  case (Cons r rs)
  obtain now x c where r: "r = (now, x, c)" by (metis prod_cases3)
  obtain s' l' where run: "snd (RateLimitMiddleware (Some (with_notes ops)) (\<lambda>sn. (now, sn)) (\<lambda>sn. (x, sn)) (note_request now x) c (s, l)) = (s', l')"
    by fastforce
  have "t \<le> now" "0 \<le> now" "in_int64 (now - 60000)" "x \<notin> set (map (fst \<circ> snd) l)"
    using Cons.prems(3,4) by (auto simp: r)
  note st = limited_step [OF assms Cons.prems(1) this run, THEN conjunct1] limited_step [OF assms Cons.prems(1) this run, THEN conjunct2]
  have "distinct (map (fst \<circ> snd) (l' @ rs))" using Cons.prems(3) st(2) r by (auto simp: comp_def split: option.splits)
  moreover have "\<forall>r \<in> set rs. now \<le> fst r \<and> 0 \<le> fst r \<and> in_int64 (fst r - 60000)" "sorted (map fst rs)"
    using Cons.prems(2,4) by (simp_all add: r)
  ultimately have "snd (limited_run ops rs (s', l')) = sliding_window rs l'"
    by (intro Cons.IH [OF st(1)])
  then show ?case by (simp only: r limited_run.simps run sliding_window.simps st(2) [symmetric])
qed simp

text \<open>What passes in the specification never exceeds the limit of a window.\<close>

lemma window_snoc: "in_window key T (l @ [(now, x, c)]) =
    in_window key T l + (if limited_by key c \<and> T - 60000 < now \<and> now \<le> T then 1 else 0)"
  by (simp add: in_window_def)

lemma length_filter_imp: "(\<And>x. x \<in> set xs \<Longrightarrow> P x \<Longrightarrow> Q x) \<Longrightarrow> length (filter P xs) \<le> length (filter Q xs)"
  by (induction xs) auto

lemma sliding_window_bound:
  assumes "0 < limit"
  shows "\<forall>T. int (in_window key T l) \<le> limit \<Longrightarrow> \<forall>r \<in> set l. fst r \<le> t \<Longrightarrow> sorted (map fst rs) \<Longrightarrow>
    \<forall>r \<in> set rs. t \<le> fst r \<and> (limited_by key (snd (snd r)) \<longrightarrow> limit_of (snd (snd r)) = Some (key, limit)) \<Longrightarrow>
    int (in_window key T (sliding_window rs l)) \<le> limit"
proof (induction rs arbitrary: l t)
  case (Cons r rs)
  obtain now x c where r: "r = (now, x, c)" by (metis prod_cases3)
  define l' where "l' = (case limit_of c of None \<Rightarrow> l @ [(now, x, c)]
    | Some (key, limit) \<Rightarrow> if int (in_window key now l) < limit then l @ [(now, x, c)] else l)"
  have now: "t \<le> now" using Cons.prems(4) by (simp add: r)
  have "int (in_window key T l') \<le> limit" for T
  proof (cases "limited_by key c \<and> T - 60000 < now \<and> now \<le> T \<and> l' \<noteq> l")
    case True
    then have lim: "limit_of c = Some (key, limit)" using Cons.prems(4) by (auto simp: r)
    then have "int (in_window key now l) < limit" using True by (auto simp: l'_def split: if_splits)
    moreover have "in_window key T l \<le> in_window key now l"
      unfolding in_window_def
    proof (rule length_filter_imp)
      fix q assume "q \<in> set l" and q: "case q of (u, y, d) \<Rightarrow> limited_by key d \<and> T - 60000 < u \<and> u \<le> T"
      then have "fst q \<le> t" using Cons.prems(2) by blast
      then show "case q of (u, y, d) \<Rightarrow> limited_by key d \<and> now - 60000 < u \<and> u \<le> now"
        using True q now by (auto split: prod.splits)
    qed
    ultimately show ?thesis using lim True by (simp add: l'_def window_snoc)
  next
    case False
    then show ?thesis using Cons.prems(1) by (auto simp: l'_def window_snoc split: option.splits)
  qed
  moreover have "\<forall>r \<in> set l'. fst r \<le> now"
    using Cons.prems(2) now by (fastforce simp: l'_def split: option.splits if_splits)
  moreover have "sorted (map fst rs)" and
    "\<forall>r \<in> set rs. now \<le> fst r \<and> (limited_by key (snd (snd r)) \<longrightarrow> limit_of (snd (snd r)) = Some (key, limit))"
    using Cons.prems(3,4) by (simp_all add: r)
  ultimately show ?case using Cons.IH [of l' now] by (simp add: r l'_def)
qed simp

text \<open>
  C31. One after the other, requests are limited exactly, as long as Redis answers: behind the
  middleware arrive just the requests without a limit and those of whose key fewer requests than
  the limit have passed in the minute before; requests of other keys do not matter. So no window
  of 60 seconds contains more requests of a key than its limit, however they are spaced. The sets
  are empty at the start, the clock does not go back, and the members are distinct, as their 64
  random bits make them.
\<close>

theorem rate_limit_holds:
  assumes "zset_laws ops view" and "sorted (map fst rs)" and "distinct (map (fst \<circ> snd) rs)"
    and "\<forall>r \<in> set rs. 0 \<le> fst r \<and> in_int64 (fst r - 60000)" and "\<forall>key. view s (''ratelimit:'' @ key) = Map.empty"
    and "0 < limit" and "\<forall>r \<in> set rs. limited_by key (snd (snd r)) \<longrightarrow> limit_of (snd (snd r)) = Some (key, limit)"
  shows "snd (limited_run ops rs (s, [])) = sliding_window rs [] \<and>
    int (in_window key T (snd (limited_run ops rs (s, [])))) \<le> limit"
proof -
  have "rl_inv view 0 [] s" using assms(5) by (auto simp: rl_inv_def set_since_def rate_key_def)
  moreover have "\<forall>r \<in> set rs. 0 \<le> fst r \<and> 0 \<le> fst r \<and> in_int64 (fst r - 60000)" using assms(4) by simp
  ultimately have w: "snd (limited_run ops rs (s, [])) = sliding_window rs []"
    using limited_run_window [OF assms(1), of 0 "[]" s rs] assms(2,3) by simp
  have "int (in_window key T (sliding_window rs [])) \<le> limit"
    by (rule sliding_window_bound [OF assms(6), where t = 0]) (use assms in \<open>simp_all add: in_window_def\<close>)
  then show ?thesis unfolding w by simp
qed

text \<open>A Redis of sorted sets only, as an instance.\<close>

definition demo_sets :: "(string \<Rightarrow> string \<rightharpoonup> int) SortedSets" where
  "demo_sets = \<lparr>zs_trimAndCount = (\<lambda>key lo hi s.
       let m = the (atoi hi); rest = s key |` {x. \<not> (0 \<le> the (s key x) \<and> the (s key x) \<le> m)}
       in (Some (int (card (dom rest))), s(key := rest))),
     zs_add = (\<lambda>key n x s. s(key := (s key)(x \<mapsto> n))), zs_expire = (\<lambda>key d s. s)\<rparr>"

lemma demo_sets_laws: "zset_laws demo_sets (\<lambda>s. s)"
  by (simp add: zset_laws_def demo_sets_def atoi_itoa Let_def)

text \<open>
  Of two requests of a key with limit 1 within a minute the second is turned away; a request of
  another key passes in between, and one of the first key after the minute.
\<close>

definition limited_ctx :: "string \<Rightarrow> Ctx" where
  "limited_ctx key = demo_ctx\<lparr>cx_apiKey := Some key, cx_rateLimit := Some 1\<rparr>"

lemma limited_ctx_limit: "limit_of (limited_ctx key) = Some (key, 1)"
  by (simp add: limit_of_def limited_ctx_def demo_ctx_def open_path_def)

theorem rate_limit_holds_witness:
  "snd (limited_run demo_sets [(2000, ''a'', limited_ctx ''k''), (3000, ''b'', limited_ctx ''k''), (4000, ''c'', limited_ctx ''j''),
      (62001, ''d'', limited_ctx ''k'')] (\<lambda>_. Map.empty, [])) =
    [(2000, ''a'', limited_ctx ''k''), (4000, ''c'', limited_ctx ''j''), (62001, ''d'', limited_ctx ''k'')]"
  by (subst rate_limit_holds [OF demo_sets_laws, where limit = 1 and key = "''k''", THEN conjunct1])
    (simp_all add: in_int64_def min_int64_def max_int64_def limited_ctx_limit limited_by_def in_window_def)

text \<open>Requests that check one after the other, before any of them is recorded.\<close>

fun checks :: "'s SortedSets \<Rightarrow> string \<Rightarrow> int \<Rightarrow> (int \<times> string) list \<Rightarrow> 's \<Rightarrow> bool option list \<times> 's" where
  "checks ops key limit [] s = ([], s)"
| "checks ops key limit ((now, x) # rs) s =
     (let (b, s) = rl_check ops key limit now s; (bs, s) = checks ops key limit rs s in (b # bs, s))"

lemma kept_empty [simp]: "kept Map.empty now = Map.empty"
  by (simp add: kept_def restrict_map_def fun_eq_iff)

text \<open>
  Requests at the same time are not limited: counting and adding are two commands, so any
  number of requests of a key that all check before one of them is recorded are all admitted,
  whatever the limit.
\<close>

theorem concurrent_requests_exceed_limit:
  assumes "zset_laws ops view" and "0 < limit" and "view s key = Map.empty"
    and "\<forall>(now, x) \<in> set rs. in_int64 (now - 60000)"
  shows "fst (checks ops key limit rs s) = replicate (length rs) (Some True)"
  using assms(3,4)
proof (induction rs arbitrary: s)
  case (Cons r rs)
  obtain now x where r: "r = (now, x)" by fastforce
  then have "in_int64 (now - 60000)" using Cons.prems(2) by auto
  then obtain s' where "rl_check ops key limit now s = (Some (int (card (dom (kept (view s key) now))) < limit), s')"
    and v: "view s' = (view s)(key := kept (view s key) now)" by (rule rl_check_laws [OF assms(1)])
  then have "rl_check ops key limit now s = (Some True, s')" "view s' key = Map.empty"
    using Cons.prems(1) assms(2) by simp_all
  then show ?case using Cons.IH [of s'] Cons.prems(2) r
    by (cases "checks ops key limit rs s'") simp
qed simp

theorem concurrent_requests_exceed_limit_witness:
  "fst (checks demo_sets ''k'' 1 [(2000, ''a''), (2000, ''b''), (2000, ''c'')] (\<lambda>_. Map.empty)) = replicate 3 (Some True)"
  using concurrent_requests_exceed_limit [OF demo_sets_laws, of 1 "\<lambda>_. Map.empty" "''k''" "[(2000, ''a''), (2000, ''b''), (2000, ''c'')]"]
  by (simp add: in_int64_def min_int64_def max_int64_def numeral_3_eq_3)

end
