(* ===== verification/Registry.thy ===== *)
theory Registry
  imports Gateway_Model
begin

text \<open>
  The provider registry of \<^verbatim>\<open>internal/egress/adapter.go\<close>, with a list of providers and an
  index by name and by model. The abstract view is the list alone; the two indexes are shown
  to answer as a search of that list would.
\<close>

record 'w Registry =
  rg_providers :: "'w Provider list"
  rg_byName :: "string \<rightharpoonup> 'w Provider"
  rg_byModel :: "string \<Rightarrow> 'w Provider list"

definition NewRegistry :: "'w Registry" where
  "NewRegistry = \<lparr>rg_providers = [], rg_byName = Map.empty, rg_byModel = (\<lambda>_. [])\<rparr>"

fun add_models :: "'w Provider \<Rightarrow> string list \<Rightarrow> (string \<Rightarrow> 'w Provider list) \<Rightarrow>
    (string \<Rightarrow> 'w Provider list)" where
  "add_models p [] byModel = byModel"
| "add_models p (m # ms) byModel = add_models p ms (byModel(m := byModel m @ [p]))"

definition reg_Register :: "'w Provider \<Rightarrow> 'w Registry \<Rightarrow> 'w Registry" where
  "reg_Register p r =
     r\<lparr>rg_providers := rg_providers r @ [p],
       rg_byName := (rg_byName r)(pv_name p \<mapsto> p),
       rg_byModel := add_models p (pv_models p) (rg_byModel r)\<rparr>"

definition reg_Providers :: "'w Registry \<Rightarrow> 'w Provider list" where
  "reg_Providers r = rg_providers r"

definition ProvidersForModel :: "'w Registry \<Rightarrow> string \<Rightarrow> 'w Provider list" where
  "ProvidersForModel r modelID = rg_byModel r modelID"

text \<open>The nil provider, for a name that is not registered, is \<open>None\<close>.\<close>

definition ProviderByName :: "'w Registry \<Rightarrow> string \<Rightarrow> 'w Provider option" where
  "ProviderByName r name = rg_byName r name"

lemmas registry_defs [service_simps] = NewRegistry_def reg_Register_def reg_Providers_def
  ProvidersForModel_def ProviderByName_def

section \<open>The indexes agree with the list\<close>

definition registered :: "'w Provider list \<Rightarrow> 'w Registry" where
  "registered ps = foldl (\<lambda>r p. reg_Register p r) NewRegistry ps"

lemma registered_snoc: "registered (ps @ [p]) = reg_Register p (registered ps)"
  by (simp add: registered_def)

lemma add_models_at:
  "add_models p ms f m = f m @ replicate (count_list ms m) p"
  by (induction ms arbitrary: f) (auto simp: replicate_append_same)

lemma registered_byModel:
  "rg_byModel (registered ps) m = concat (map (\<lambda>p. replicate (count_list (pv_models p) m) p) ps)"
  by (induction ps rule: rev_induct)
    (simp_all add: registered_def NewRegistry_def reg_Register_def add_models_at)

lemma count_list_distinct: "distinct ms \<Longrightarrow> count_list ms m = (if m \<in> set ms then 1 else 0)"
  by (induction ms) auto

lemma find_snoc: "List.find P (xs @ [x]) = (case List.find P xs of None \<Rightarrow> if P x then Some x else None | Some y \<Rightarrow> Some y)"
  by (induction xs) auto

lemma registered_byName:
  "rg_byName (registered ps) n = List.find (\<lambda>p. pv_name p = n) (rev ps)"
  by (induction ps rule: rev_induct) (auto simp: registered_def NewRegistry_def reg_Register_def)

text \<open>
  After any registrations, the registry answers as a search of the registered providers
  would: the providers of a model are those that list it, in registration order; the provider
  of a name is the one registered under it last; and all of them are listed in order.
  A provider that lists a model more than once is excluded, since it is indexed once per
  mention.
\<close>

theorem registry_answers_by_search:
  assumes "\<forall>p \<in> set ps. distinct (pv_models p)"
  shows "ProvidersForModel (registered ps) m = filter (\<lambda>p. m \<in> set (pv_models p)) ps \<and>
         ProviderByName (registered ps) n = List.find (\<lambda>p. pv_name p = n) (rev ps) \<and>
         reg_Providers (registered ps) = ps"
proof (intro conjI)
  have "concat (map (\<lambda>p. replicate (count_list (pv_models p) m) p) ps) = filter (\<lambda>p. m \<in> set (pv_models p)) ps"
    using assms by (induction ps) (auto simp: count_list_distinct)
  then show "ProvidersForModel (registered ps) m = filter (\<lambda>p. m \<in> set (pv_models p)) ps"
    by (simp add: ProvidersForModel_def registered_byModel)
  show "ProviderByName (registered ps) n = List.find (\<lambda>p. pv_name p = n) (rev ps)"
    by (simp add: ProviderByName_def registered_byName)
  show "reg_Providers (registered ps) = ps"
    by (induction ps rule: rev_induct) (simp_all add: registered_def reg_Providers_def NewRegistry_def reg_Register_def)
qed

text \<open>A provider that refuses every request, for the instances below.\<close>

definition silent_provider :: "string \<Rightarrow> string list \<Rightarrow> 'w Provider" where
  "silent_provider name models = \<lparr>pv_name = name, pv_models = models,
     pv_send = (\<lambda>_ w. (Inl (OtherErr ''refused''), w)),
     pv_stream = (\<lambda>_ w. (Inl (OtherErr ''refused''), w)), pv_health = (\<lambda>w. (None, w))\<rparr>"

theorem registry_answers_by_search_witness:
  "map pv_name (ProvidersForModel (registered [silent_provider ''a'' [''m'', ''n''], silent_provider ''b'' [''n'']]) ''n'') =
     [''a'', ''b'']"
  by (subst registry_answers_by_search [THEN conjunct1]) (simp_all add: silent_provider_def)

lemma ProvidersForModel_serves: "p \<in> set (ProvidersForModel (registered ps) m) \<Longrightarrow> m \<in> set (pv_models p)"
  by (auto simp: ProvidersForModel_def registered_byModel split: if_splits)
    (metis count_notin replicate_0 length_0_conv list.size(3) not_gr_zero)

lemma ProvidersForModel_registered: "p \<in> set (ProvidersForModel (registered ps) m) \<Longrightarrow> p \<in> set ps"
  by (auto simp: ProvidersForModel_def registered_byModel split: if_splits)

end
