(* ===== verification/Health.thy ===== *)
theory Health
  imports Registry Semantic_Cache "HOL-Library.AList" "HOL-Library.List_Lexorder" "HOL-Library.Char_ord"
begin

text \<open>
  The health report of \<^verbatim>\<open>internal/ingress/health.go\<close>: one goroutine for the store and one
  per provider, each of which asks its service and then records the answer under a lock. The
  goroutines are a step relation, since their order is not determined; what the report says is
  shown for every order. A Go map is an association list here, since its JSON text lists it.
\<close>

section \<open>The code\<close>

record CheckItem =
  ci_status :: string
  ci_error :: string

record HealthResult =
  hr_status :: string
  hr_checks :: "(string \<times> CheckItem) list"

text \<open>The store is the interface value of the wiring, so a missing one is really nil.\<close>

record 'w HealthChecker =
  hk_store :: "'w CacheStore option"
  hk_registry :: "'w Registry option"

definition NewHealthChecker :: "'w CacheStore option \<Rightarrow> 'w Registry option \<Rightarrow> 'w HealthChecker" where
  "NewHealthChecker store registry = \<lparr>hk_store = store, hk_registry = registry\<rparr>"

text \<open>What a goroutine records: the item, and whether the check failed.\<close>

fun check_item :: "go_error option \<Rightarrow> CheckItem \<times> bool" where
  "check_item None = (\<lparr>ci_status = ''ok'', ci_error = ''''\<rparr>, False)"
| "check_item (Some err) = (\<lparr>ci_status = ''error'', ci_error = error_string err\<rparr>, True)"

type_synonym 'w probe = "'w \<Rightarrow> (CheckItem \<times> bool) \<times> 'w"

definition redis_probe :: "'w CacheStore option \<Rightarrow> 'w probe" where
  "redis_probe store w =
     (case store of
        None \<Rightarrow> ((\<lparr>ci_status = ''not_configured'', ci_error = ''''\<rparr>, False), w)
      | Some st \<Rightarrow> let (err, w) = st_Ping st w in (check_item err, w))"

definition provider_probe :: "'w Provider \<Rightarrow> 'w probe" where
  "provider_probe p w = (let (err, w) = pv_health p w in (check_item err, w))"

definition health_probes :: "'w HealthChecker \<Rightarrow> (string \<times> 'w probe) list" where
  "health_probes h = (''redis'', redis_probe (hk_store h)) #
     (case hk_registry h of None \<Rightarrow> []
      | Some r \<Rightarrow> map (\<lambda>p. (pv_name p, provider_probe p)) (reg_Providers r))"

text \<open>
  The run: the goroutines that have not asked yet, those that hold an answer and wait for the
  lock, and what the others have recorded.
\<close>

record 'w health_run =
  hx_waiting :: "(string \<times> 'w probe) list"
  hx_answered :: "(string \<times> CheckItem \<times> bool) list"
  hx_checks :: "(string \<times> CheckItem) list"
  hx_anyFailed :: bool
  hx_world :: 'w

definition health_start :: "'w HealthChecker \<Rightarrow> 'w \<Rightarrow> 'w health_run" where
  "health_start h w = \<lparr>hx_waiting = health_probes h, hx_answered = [], hx_checks = [], hx_anyFailed = False,
     hx_world = w\<rparr>"

inductive health_step :: "'w health_run \<Rightarrow> 'w health_run \<Rightarrow> bool" where
  ask: "hx_waiting f = ps @ (n, pr) # qs \<Longrightarrow> pr (hx_world f) = (res, w) \<Longrightarrow>
     health_step f (f\<lparr>hx_waiting := ps @ qs, hx_answered := (n, res) # hx_answered f, hx_world := w\<rparr>)"
| record_answer: "hx_answered f = as @ (n, item, failed) # bs \<Longrightarrow>
     health_step f (f\<lparr>hx_answered := as @ bs, hx_checks := AList.update n item (hx_checks f),
       hx_anyFailed := (if failed then True else hx_anyFailed f)\<rparr>)"

inductive_cases health_stepE: "health_step f f'"

definition health_result :: "'w health_run \<Rightarrow> HealthResult" where
  "health_result f = \<lparr>hr_status = (if hx_anyFailed f then ''degraded'' else ''ok''), hr_checks = hx_checks f\<rparr>"

text \<open>The run in which every goroutine finishes before the next one starts.\<close>

fun run_probes :: "(string \<times> 'w probe) list \<Rightarrow> (string \<times> CheckItem) list \<Rightarrow> bool \<Rightarrow> 'w \<Rightarrow>
    (string \<times> CheckItem) list \<times> bool \<times> 'w" where
  "run_probes [] checks anyFailed w = (checks, anyFailed, w)"
| "run_probes ((n, pr) # ps) checks anyFailed w =
     (let ((item, failed), w) = pr w
      in run_probes ps (AList.update n item checks) (if failed then True else anyFailed) w)"

definition health_Check :: "'w HealthChecker \<Rightarrow> 'w \<Rightarrow> HealthResult \<times> 'w" where
  "health_Check h w =
     (let (checks, anyFailed, w) = run_probes (health_probes h) [] False w
      in (\<lparr>hr_status = (if anyFailed then ''degraded'' else ''ok''), hr_checks = checks\<rparr>, w))"

text \<open>The JSON text of a report; \<^verbatim>\<open>encoding/json\<close> sorts the keys of a map.\<close>

definition enc_CheckItem :: "CheckItem \<Rightarrow> json" where
  "enc_CheckItem it = JObj ((''status'', JStr (ci_status it)) # omit_empty ''error'' (ci_error it))"

definition enc_HealthResult :: "HealthResult \<Rightarrow> (string \<times> json) list" where
  "enc_HealthResult r = [(''status'', JStr (hr_status r)),
     (''checks'', JObj (map (\<lambda>(n, it). (n, enc_CheckItem it)) (sort_key fst (hr_checks r))))]"

section \<open>What a report says\<close>

text \<open>
  The invariant: some list of answers has been recorded; together with the answers that wait
  for the lock and the goroutines that have not asked, they are those of all goroutines.
\<close>

definition answer_of :: "(string \<times> 'w probe) list \<Rightarrow> string \<times> CheckItem \<times> bool \<Rightarrow> bool" where
  "answer_of ps a \<longleftrightarrow> (\<exists>pr w. (fst a, pr) \<in> set ps \<and> fst (pr w) = snd a)"

definition recorded :: "(string \<times> CheckItem \<times> bool) list \<Rightarrow> (string \<times> CheckItem) list" where
  "recorded as = foldl (\<lambda>m (n, item, failed). AList.update n item m) [] as"

definition health_inv :: "(string \<times> 'w probe) list \<Rightarrow> (string \<times> CheckItem \<times> bool) list \<Rightarrow> 'w health_run \<Rightarrow> bool" where
  "health_inv ps as f \<longleftrightarrow>
     mset (map fst as) + mset (map fst (hx_answered f)) + mset (map fst (hx_waiting f)) = mset (map fst ps) \<and>
     set (hx_waiting f) \<subseteq> set ps \<and>
     list_all (answer_of ps) (as @ hx_answered f) \<and>
     hx_checks f = recorded as \<and> hx_anyFailed f = list_ex (snd \<circ> snd) as"

lemma recorded_snoc [simp]: "recorded (as @ [(n, item, failed)]) = AList.update n item (recorded as)"
  by (simp add: recorded_def)

lemma health_inv_start: "health_inv (health_probes h) [] (health_start h w)"
  by (simp add: health_inv_def health_start_def recorded_def)

lemma health_inv_step:
  assumes "health_step f f'" and "health_inv ps as f"
  shows "\<exists>as'. health_inv ps as' f'"
  using assms
proof (induction rule: health_step.induct)
  case (ask f qs n pr rs res w)
  then have "answer_of ps (n, res)"
    unfolding answer_of_def health_inv_def
    by (intro exI [of _ pr] exI [of _ "hx_world f"]) auto
  then show ?case using ask by (intro exI [of _ as]) (auto simp: health_inv_def)
next
  case (record_answer f bs n item failed cs)
  then show ?case by (intro exI [of _ "as @ [(n, item, failed)]"]) (auto simp: health_inv_def)
qed

lemma health_inv_reachable:
  assumes "health_step\<^sup>*\<^sup>* (health_start h w) f"
  shows "\<exists>as. health_inv (health_probes h) as f"
  using assms by (induction rule: rtranclp_induct) (auto intro: health_inv_start dest: health_inv_step)

lemma health_stuck: "(\<nexists>f'. health_step f f') \<longleftrightarrow> hx_waiting f = [] \<and> hx_answered f = []"
proof
  assume no: "\<nexists>f'. health_step f f'"
  show "hx_waiting f = [] \<and> hx_answered f = []"
  proof (intro conjI)
    show "hx_waiting f = []"
    proof (cases "hx_waiting f")
      case (Cons p ps)
      obtain n pr where p: "p = (n, pr)" by fastforce
      obtain res w where "pr (hx_world f) = (res, w)" by fastforce
      from ask [of f "[]" n pr ps, OF _ this] Cons p no show ?thesis by auto
    qed
    show "hx_answered f = []"
    proof (cases "hx_answered f")
      case (Cons a as)
      obtain n item failed where "a = (n, item, failed)" by (cases a)
      with record_answer [of f "[]" n item failed as] Cons no show ?thesis by auto
    qed
  qed
qed (auto elim: health_stepE)

lemma recorded_map: "distinct (map fst as) \<Longrightarrow> map_of (recorded as) = map_of (map (\<lambda>(n, item, failed). (n, item)) as)"
proof (induction as rule: rev_induct)
  case (snoc a as)
  obtain n item failed where a: "a = (n, item, failed)" by (cases a)
  have "map_of (map (\<lambda>(n, item, failed). (n, item)) as) n = None"
    using snoc.prems a by (force simp: map_of_eq_None_iff)
  then show ?case using snoc a by (auto simp: update_conv' map_add_def fun_eq_iff split: option.split)
qed (simp add: recorded_def)

text \<open>Only a failed check is reported as an error.\<close>

lemma probe_status: "(n, pr) \<in> set (health_probes h) \<Longrightarrow> snd (fst (pr w)) \<longleftrightarrow> ci_status (fst (fst (pr w))) = ''error''"
proof -
  have c: "snd (check_item e) \<longleftrightarrow> ci_status (fst (check_item e)) = ''error''" for e by (cases e) simp_all
  assume "(n, pr) \<in> set (health_probes h)"
  then show ?thesis
    by (auto simp: health_probes_def redis_probe_def provider_probe_def c split: option.splits prod.split)
qed

text \<open>
  C38. The report does not depend on the order of the goroutines: when all of them are done,
  and the providers have distinct names other than that of the store, it has exactly one entry for
  each of them, which is what that service answered, and it is degraded if and only if one of
  the entries is an error.
\<close>

theorem health_report_complete:
  assumes "health_step\<^sup>*\<^sup>* (health_start h w) f" and "\<nexists>f'. health_step f f'"
    and "distinct (map fst (health_probes h))"
  shows "set (map fst (hr_checks (health_result f))) = set (map fst (health_probes h)) \<and>
    (\<forall>(n, pr) \<in> set (health_probes h). \<exists>w. map_of (hr_checks (health_result f)) n = Some (fst (fst (pr w)))) \<and>
    (hr_status (health_result f) = ''degraded'' \<longleftrightarrow>
       (\<exists>n item. map_of (hr_checks (health_result f)) n = Some item \<and> ci_status item = ''error''))"
proof -
  let ?ps = "health_probes h"
  obtain as where "health_inv ?ps as f" using health_inv_reachable [OF assms(1)] by blast
  then have m: "mset (map fst as) = mset (map fst ?ps)" and ans: "list_all (answer_of ?ps) as"
    and rec: "hx_checks f = recorded as" and fld: "hx_anyFailed f = list_ex (snd \<circ> snd) as"
    using assms(2) unfolding health_stuck by (auto simp: health_inv_def)
  have d: "distinct (map fst as)" using m assms(3) by (metis mset_eq_imp_distinct_iff)
  have names: "fst ` set as = fst ` set ?ps" using m by (metis list.set_map mset_eq_setD)
  note mo = recorded_map [OF d]
  have entry: "map_of (recorded as) n = Some item \<longleftrightarrow> (\<exists>failed. (n, item, failed) \<in> set as)" for n item
  proof -
    have "distinct (map fst (map (\<lambda>(n, item, failed). (n, item)) as))"
      using d by (simp add: comp_def case_prod_beta)
    then show ?thesis unfolding mo by (force simp: map_of_eq_Some_iff image_iff)
  qed
  have "fst ` set (recorded as) = fst ` set as"
  proof -
    have "n \<in> fst ` set (recorded as) \<longleftrightarrow> n \<in> fst ` set as" for n
      using entry [of n] by (metis fst_conv image_iff map_of_SomeD option.exhaust prod.collapse map_of_eq_None_iff)
    then show ?thesis by blast
  qed
  then have 1: "set (map fst (hx_checks f)) = set (map fst ?ps)" using names rec by simp
  have 2: "\<exists>w. map_of (hx_checks f) n = Some (fst (fst (pr w)))" if "(n, pr) \<in> set ?ps" for n pr
  proof -
    have "n \<in> fst ` set as" using names that by force
    then obtain item failed where a: "(n, item, failed) \<in> set as" by auto
    then obtain pr' w where "(n, pr') \<in> set ?ps" "fst (pr' w) = (item, failed)"
      using ans by (auto simp: list_all_iff answer_of_def)
    moreover then have "pr' = pr" using that assms(3) eq_key_imp_eq_value by metis
    ultimately show ?thesis using a entry rec by (intro exI [of _ w]) auto
  qed
  have 3: "failed \<longleftrightarrow> ci_status item = ''error''" if "(n, item, failed) \<in> set as" for n item failed
    using that ans probe_status [of n _ h] by (auto simp: list_all_iff answer_of_def) (metis fst_conv snd_conv)+
  then have "hx_anyFailed f \<longleftrightarrow> (\<exists>n item. map_of (hx_checks f) n = Some item \<and> ci_status item = ''error'')"
    unfolding fld rec entry by (force simp: list_ex_iff)
  then show ?thesis using 1 2 by (auto simp: health_result_def)
qed

section \<open>The schedule that the handler runs\<close>

lemma run_probes_steps:
  assumes "run_probes ps checks b w = (checks', b', w')"
  shows "health_step\<^sup>*\<^sup>* \<lparr>hx_waiting = ps, hx_answered = [], hx_checks = checks, hx_anyFailed = b, hx_world = w\<rparr>
    \<lparr>hx_waiting = [], hx_answered = [], hx_checks = checks', hx_anyFailed = b', hx_world = w'\<rparr>"
  using assms
proof (induction ps checks b w rule: run_probes.induct)
  case (2 n pr ps checks b w)
  obtain item failed w1 where r: "pr w = ((item, failed), w1)" by (metis prod.collapse)
  let ?f = "\<lparr>hx_waiting = (n, pr) # ps, hx_answered = [], hx_checks = checks, hx_anyFailed = b, hx_world = w\<rparr>"
  let ?g = "\<lparr>hx_waiting = ps, hx_answered = [(n, item, failed)], hx_checks = checks, hx_anyFailed = b, hx_world = w1\<rparr>"
  have "health_step ?f ?g" using ask [of ?f "[]" n pr ps "(item, failed)" w1] r by simp
  moreover have "health_step ?g \<lparr>hx_waiting = ps, hx_answered = [], hx_checks = AList.update n item checks,
      hx_anyFailed = (if failed then True else b), hx_world = w1\<rparr>"
    using record_answer [of ?g "[]" n item failed "[]"] by (cases failed) simp_all
  moreover have "health_step\<^sup>*\<^sup>* \<lparr>hx_waiting = ps, hx_answered = [], hx_checks = AList.update n item checks,
      hx_anyFailed = (if failed then True else b), hx_world = w1\<rparr>
    \<lparr>hx_waiting = [], hx_answered = [], hx_checks = checks', hx_anyFailed = b', hx_world = w'\<rparr>"
    using 2 r by simp
  ultimately show ?case by (meson converse_rtranclp_into_rtranclp)
qed simp

lemma health_Check_run:
  assumes "health_Check h w = (r, w')"
  shows "\<exists>f. health_step\<^sup>*\<^sup>* (health_start h w) f \<and> (\<nexists>f'. health_step f f') \<and> health_result f = r \<and> hx_world f = w'"
proof -
  obtain checks b v where r: "run_probes (health_probes h) [] False w = (checks, b, v)" by (metis prod.collapse)
  let ?f = "\<lparr>hx_waiting = [], hx_answered = [], hx_checks = checks, hx_anyFailed = b, hx_world = v\<rparr>"
  have "health_step\<^sup>*\<^sup>* (health_start h w) ?f" using run_probes_steps [OF r] by (simp add: health_start_def)
  moreover have "\<nexists>f'. health_step ?f f'" unfolding health_stuck by simp
  moreover have "health_result ?f = r \<and> hx_world ?f = w'" using assms r by (auto simp: health_Check_def health_result_def)
  ultimately show ?thesis by blast
qed

text \<open>A checker without a store, over one provider that answers and one that does not.\<close>

definition demo_down :: "unit Provider" where
  "demo_down = (silent_provider ''b'' [])\<lparr>pv_health := (\<lambda>w. (Some (OtherErr ''refused''), w))\<rparr>"

definition demo_checker :: "unit HealthChecker" where
  "demo_checker = NewHealthChecker None (Some (registered [silent_provider ''a'' [], demo_down]))"

lemma demo_probes: "health_probes demo_checker =
    [(''redis'', redis_probe None), (''a'', provider_probe (silent_provider ''a'' [])), (''b'', provider_probe demo_down)]"
  by (simp add: demo_checker_def NewHealthChecker_def health_probes_def registered_def registry_defs silent_provider_def
      demo_down_def)

theorem health_report_complete_witness:
  "\<exists>f. health_step\<^sup>*\<^sup>* (health_start demo_checker ()) f \<and> set (map fst (hr_checks (health_result f))) = {''redis'', ''a'', ''b''} \<and>
     hr_status (health_result f) = ''degraded''"
proof -
  obtain r w' where c: "health_Check demo_checker () = (r, w')" by (metis prod.collapse)
  obtain f where f: "health_step\<^sup>*\<^sup>* (health_start demo_checker ()) f" "\<nexists>f'. health_step f f'" "health_result f = r"
    using health_Check_run [OF c] by blast
  have "hr_status r = ''degraded''"
    using c by (auto simp: health_Check_def demo_probes redis_probe_def provider_probe_def demo_down_def
        silent_provider_def)
  with health_report_complete [OF f(1,2)] f show ?thesis by (auto simp: demo_probes)
qed

text \<open>
  A provider that is named \<^verbatim>\<open>redis\<close> shares its entry with the store: here a report is
  degraded, and yet shows no failed check, when the provider fails first.
\<close>

definition demo_clash :: "unit HealthChecker" where
  "demo_clash = NewHealthChecker None (Some (registered [demo_down\<lparr>pv_name := ''redis''\<rparr>]))"

theorem redis_name_hides_failure:
  "\<exists>f. health_step\<^sup>*\<^sup>* (health_start demo_clash ()) f \<and> (\<nexists>f'. health_step f f') \<and>
     hr_status (health_result f) = ''degraded'' \<and>
     hr_checks (health_result f) = [(''redis'', \<lparr>ci_status = ''not_configured'', ci_error = ''''\<rparr>)]"
proof -
  let ?p = "provider_probe (demo_down\<lparr>pv_name := ''redis''\<rparr>)"
  have ps: "health_probes demo_clash = [(''redis'', redis_probe None), (''redis'', ?p)]"
    by (simp add: demo_clash_def NewHealthChecker_def health_probes_def registered_def registry_defs)
  let ?a = "(''redis'', \<lparr>ci_status = ''not_configured'', ci_error = ''''\<rparr>, False)"
  let ?b = "(''redis'', \<lparr>ci_status = ''error'', ci_error = ''refused''\<rparr>, True)"
  let ?f0 = "health_start demo_clash ()"
  let ?f1 = "?f0\<lparr>hx_waiting := [(''redis'', ?p)], hx_answered := [?a]\<rparr>"
  let ?f2 = "?f0\<lparr>hx_waiting := [], hx_answered := [?b, ?a]\<rparr>"
  let ?f3 = "?f0\<lparr>hx_waiting := [], hx_answered := [?a], hx_checks := [(''redis'', fst (snd ?b))], hx_anyFailed := True\<rparr>"
  let ?f4 = "?f0\<lparr>hx_waiting := [], hx_answered := [], hx_checks := [(''redis'', fst (snd ?a))], hx_anyFailed := True\<rparr>"
  have "health_step ?f0 ?f1"
    using ask [of ?f0 "[]" "''redis''" "redis_probe None" "[(''redis'', ?p)]" "snd ?a" "()"]
    by (simp add: health_start_def ps redis_probe_def)
  moreover have "health_step ?f1 ?f2"
    using ask [of ?f1 "[]" "''redis''" ?p "[]" "snd ?b" "()"]
    by (simp add: health_start_def provider_probe_def demo_down_def)
  moreover have "health_step ?f2 ?f3"
    using record_answer [of ?f2 "[]" "''redis''" "fst (snd ?b)" True "[?a]"] by (simp add: health_start_def)
  moreover have "health_step ?f3 ?f4"
    using record_answer [of ?f3 "[]" "''redis''" "fst (snd ?a)" False "[]"] by (simp add: health_start_def)
  ultimately have "health_step\<^sup>*\<^sup>* ?f0 ?f4" by (meson converse_rtranclp_into_rtranclp rtranclp.rtrancl_refl)
  moreover have "\<nexists>f'. health_step ?f4 f'" unfolding health_stuck by simp
  ultimately show ?thesis by (intro exI [of _ ?f4]) (simp add: health_result_def)
qed

end
