(* ===== verification/Http_Client.thy ===== *)
theory Http_Client
  imports Json_Codec
begin

text \<open>
  What the provider adapters use of \<^verbatim>\<open>net/http\<close> and \<^verbatim>\<open>bufio\<close>: a client that
  answers requests over the network, the decoder on a response body, and the line scanner with
  its limit.
\<close>

section \<open>Requests and answers\<close>

text \<open>The deadline is the one that the adapter adds to the context of the request.\<close>

record HttpRequest =
  hq_method :: string
  hq_url :: string
  hq_headers :: "(string \<times> string) list"
  hq_body :: string
  hq_deadline :: "duration option"

text \<open>The bytes of a body that could be read, and the error that reading ended with, if not the end.\<close>

record HttpAnswer =
  ha_code :: int
  ha_status :: string
  ha_body :: string
  ha_bodyErr :: "string option"

text \<open>
  A client, over the state of the world; errors are their texts. It also stands for two
  library functions whose texts are left open: the error of building a request for a URL, and
  the wording of the JSON errors for an input.
\<close>

record 'w HttpClient =
  hc_urlErr :: "string \<Rightarrow> string option"
  hc_do :: "HttpRequest \<Rightarrow> 'w \<Rightarrow> (string + HttpAnswer) \<times> 'w"
  hc_jsonText :: "string \<Rightarrow> json_error \<Rightarrow> string"

text \<open>\<^verbatim>\<open>http.NewRequestWithContext\<close> followed by \<^verbatim>\<open>client.Do\<close>.\<close>

definition http_send :: "'w HttpClient \<Rightarrow> HttpRequest \<Rightarrow> 'w \<Rightarrow> (go_error + HttpAnswer) \<times> 'w" where
  "http_send cl req w =
     (case hc_urlErr cl (hq_url req) of
        Some e \<Rightarrow> (Inl (OtherErr e), w)
      | None \<Rightarrow> (case hc_do cl req w of
                  (Inl e, w) \<Rightarrow> (Inl (OtherErr e), w)
                | (Inr a, w) \<Rightarrow> (Inr a, w)))"

text \<open>
  \<^verbatim>\<open>json.NewDecoder(resp.Body).Decode\<close>: the first value of the body. Where reading fails,
  an object or array that is complete before is still a value.
\<close>

definition decode_body :: "'w HttpClient \<Rightarrow> 'a decoder \<Rightarrow> 'a \<Rightarrow> HttpAnswer \<Rightarrow> go_error + 'a" where
  "decode_body cl dec z a =
     (let value = (case parse_value maxNestingDepth (ha_body a) of
              Eof \<Rightarrow> (case ha_bodyErr a of Some e \<Rightarrow> Inl e
                     | None \<Rightarrow> Inl (if skip_ws (ha_body a) = [] then ''EOF'' else ''unexpected EOF''))
            | Bad \<Rightarrow> Inl (hc_jsonText cl (ha_body a) ErrSyntax)
            | Got v r \<Rightarrow>
                (if (case v of JObj _ \<Rightarrow> True | JArr _ \<Rightarrow> True | _ \<Rightarrow> r \<noteq> [] \<and> is_ws (hd r)) then Inr v
                 else if r = [] then (case ha_bodyErr a of Some e \<Rightarrow> Inl e | None \<Rightarrow> Inr v)
                 else Inl (hc_jsonText cl (ha_body a) ErrSyntax)))
      in case value of
           Inl e \<Rightarrow> Inl (OtherErr e)
         | Inr v \<Rightarrow> (case dec v z of None \<Rightarrow> Inl (OtherErr (hc_jsonText cl (ha_body a) ErrType)) | Some x \<Rightarrow> Inr x))"

section \<open>The line scanner\<close>

definition lf :: char where "lf = CHR 0x0A"
definition cr :: char where "cr = CHR 0x0D"

definition MaxScanTokenSize :: nat where "MaxScanTokenSize = 65536"

definition drop_cr :: "string \<Rightarrow> string" where
  "drop_cr s = (if s \<noteq> [] \<and> last s = cr then butlast s else s)"

text \<open>
  \<^verbatim>\<open>bufio.Scanner\<close> with its default split function and buffer: the lines it yields, and
  whether it stops at one that does not fit its buffer. The first argument is the limit.
\<close>

function scan_lines :: "nat \<Rightarrow> string \<Rightarrow> string list \<times> bool" where
  "scan_lines limit s =
     (if s = [] then ([], False)
      else let line = takeWhile (\<lambda>c. c \<noteq> lf) s; rest = dropWhile (\<lambda>c. c \<noteq> lf) s
      in if limit \<le> length line then ([], True)
         else let (ls, long) = scan_lines limit (tl rest) in (drop_cr line # ls, long))"
  by pat_completeness auto
termination
proof (relation "measure (length \<circ> snd)", goal_cases)
  case (2 limit s line rest)
  have "length (dropWhile (\<lambda>c. c \<noteq> lf) s) \<le> length s" by (rule length_dropWhile_le)
  then show ?case using 2 by (cases "dropWhile (\<lambda>c. c \<noteq> lf) s") auto
qed simp

declare scan_lines.simps [simp del]

text \<open>\<^verbatim>\<open>scanner.Scan\<close> to the end, and \<^verbatim>\<open>scanner.Err\<close>.\<close>

definition scan_body :: "HttpAnswer \<Rightarrow> string list \<times> string option" where
  "scan_body a =
     (let (ls, long) = scan_lines MaxScanTokenSize (ha_body a)
      in (ls, if long then Some ''bufio.Scanner: token too long'' else ha_bodyErr a))"

lemma scan_lines_Nil [simp]: "scan_lines limit [] = ([], False)"
  by (simp add: scan_lines.simps)

lemma scan_lines_step:
  "lf \<notin> set l \<Longrightarrow> length l < limit \<Longrightarrow>
    scan_lines limit (l @ lf # s) = (drop_cr l # fst (scan_lines limit s), snd (scan_lines limit s))"
  by (subst scan_lines.simps) (simp add: takeWhile_append dropWhile_append split: prod.split)

end
