(* ===== verification/Event_Stream.thy ===== *)
theory Event_Stream
  imports Http_Client
begin

text \<open>
  Facts about server-sent events that the adapters and the handler share: trimming a line leaves
  its text alone, an encoded JSON value never contains a line break, and a body made of such
  lines is scanned back into them.
\<close>

section \<open>Trimming\<close>

lemma decode_rune_before_ascii:
  assumes "byte c < 128"
  shows "decode_rune (d # s @ c # t) = decode_rune (d # s)"
proof -
  have nc: "\<not> cont lo hi c" if "128 \<le> lo" for lo hi using assms that by (simp add: cont_def)
  have sr: "128 \<le> fst (second_range b)" for b by (simp add: second_range_def)
  show ?thesis
  proof (cases s)
    case Nil
    then show ?thesis using nc sr [of "byte d"]
      by (auto simp: decode_rune.simps(2) Let_def split: prod.splits list.splits)
  next
    case s: (Cons s1 s')
    show ?thesis
    proof (cases s')
      case Nil
      then show ?thesis using s nc
        by (auto simp: decode_rune.simps(2) Let_def split: prod.splits list.splits)
    next
      case (Cons s2 s'')
      then show ?thesis using s nc
        by (cases s'') (auto simp: decode_rune.simps(2) Let_def split: prod.splits)
    qed
  qed
qed

lemma runes_before_ascii:
  assumes "byte c < 128"
  shows "runes (s @ c # t) = runes s @ runes (c # t)"
proof (induction s rule: runes.induct)
  case 1
  then show ?case by simp
next
  case (2 d s)
  obtain r w where rw: "decode_rune (d # s) = (r, w)" by fastforce
  then obtain v where w: "w = Suc v" "v \<le> length s" using decode_rune_width [of "d # s"] by (cases w) auto
  have "decode_rune (d # s @ c # t) = (r, w)" using decode_rune_before_ascii [OF assms] rw by simp
  then show ?case using "2.IH" [OF rw [symmetric] refl] w rw
    by (simp add: runes.simps(2) [of d s] runes.simps(2) [of d "s @ c # t"])
qed

lemma runes_ascii_Cons: "byte c < 128 \<Longrightarrow> runes (c # s) = (byte c, [c]) # runes s"
  by (simp add: runes.simps(2) decode_rune.simps(2) Let_def split: prod.split)

text \<open>A visible character: one byte, and not white space.\<close>

definition visible :: "char \<Rightarrow> bool" where
  "visible c \<longleftrightarrow> byte c < 128 \<and> \<not> is_space (byte c)"

lemma trim_space_visible:
  assumes "visible a" and "visible b"
  shows "trim_space (a # s @ [b]) = a # s @ [b]"
proof -
  have r: "runes (a # s @ [b]) = (byte a, [a]) # runes s @ [(byte b, [b])]"
    using assms runes_before_ascii [of b s "[]"]
    by (simp add: runes_ascii_Cons visible_def)
  show ?thesis using assms by (simp add: trim_space_def r visible_def concat_runes)
qed

lemma trim_space_leading: "trim_space (CHR '' '' # s) = trim_space s"
  by (simp add: trim_space_def runes_ascii_Cons byte_def is_space_def Let_def)

lemma trim_space_Nil [simp]: "trim_space [] = []"
  by (simp add: trim_space_def)

section \<open>Encodings stay on one line\<close>

text \<open>A character that is not a control character.\<close>

definition printable :: "char \<Rightarrow> bool" where
  "printable c \<longleftrightarrow> 32 \<le> byte c"

lemma byte_char_of_small: "n < 256 \<Longrightarrow> byte (char_of n) = n"
  by (simp add: byte_def)

lemma printable_simps [simp]: "printable bslash" "printable quote" "printable CHR ''{''" "printable CHR ''}''"
  "printable CHR ''[''" "printable CHR '']''" "printable CHR '':''" "printable CHR '',''"
  by (simp_all add: printable_def byte_def)

lemma hex_digit_printable: "n < 16 \<Longrightarrow> printable (hex_digit n)"
  by (simp add: hex_digit_def printable_def byte_char_of_small)

lemma rune_ok_bytes:
  assumes "rune_ok (r, bs)" and "128 \<le> r" and "c \<in> set bs"
  shows "128 \<le> byte c"
proof -
  obtain d ds where bs: "bs = d # ds" by (rule rune_ok_multi [OF assms(1,2)])
  have "decode_rune (d # ds) = (r, Suc (length ds))" and "\<not> (r = 65533 \<and> length bs = 1)"
    using assms(1) bs by (auto simp: rune_ok_def valid_rune_def dest: spec [of _ "[]"])
  then show ?thesis using assms(2,3) bs
    by (auto simp: decode_rune.simps(2) Let_def cont_def second_range_def split: prod.splits if_splits list.splits)
qed

lemma esc_rune_printable:
  assumes "rune_ok (r, bs)" and "c \<in> set (esc_rune (r, bs))"
  shows "printable c"
proof (cases "r < 128")
  case True
  then have "c \<in> set (esc_byte r)" using assms(2) by (simp add: esc_rune_def)
  then show ?thesis using True hex_digit_printable [of "r div 16"] hex_digit_printable [of "r mod 16"]
    by (auto simp: esc_byte_def printable_def byte_def split: if_splits)
next
  case False
  then show ?thesis using assms(2) rune_ok_bytes [OF assms(1)]
    by (force simp: esc_rune_def printable_def byte_def split: if_splits)
qed

lemma encode_string_printable: "valid_utf8 s \<Longrightarrow> c \<in> set (encode_string s) \<Longrightarrow> printable c"
  using runes_rune_ok esc_rune_printable by (fastforce simp: encode_string_def)

lemma set_join: "set (join sep xs) \<subseteq> set sep \<union> (\<Union>x \<in> set xs. set x)"
  by (induction sep xs rule: join.induct) auto

lemma digit_printable: "is_digit c \<Longrightarrow> printable c"
  by (simp add: is_digit_def printable_def)

lemma lex_digits_printable: "lex_digits s = Got x r \<Longrightarrow> c \<in> set x \<Longrightarrow> printable c"
  by (auto simp: lex_digits_def Let_def digit_printable dest: set_takeWhileD split: if_splits)

lemma number_lit_printable:
  assumes "number_lit lit" and "c \<in> set lit"
  shows "printable c"
proof -
  obtain sign s where s: "(case lit of c # t \<Rightarrow> if c = CHR ''-'' then ([c], t) else ([], lit) | [] \<Rightarrow> ([], lit)) = (sign, s)"
    by fastforce
  obtain i f x r1 r2 where l: "lex_int s = Got i r1" "lex_frac r1 = Got f r2" "lex_exp r2 = Got x []"
      "sign @ i @ f @ x = lit"
    using assms(1) s by (auto simp: number_lit_def lex_number_def pbind_Got)
  have "c \<in> set sign \<Longrightarrow> printable c"
    using s by (auto simp: printable_def byte_def split: list.splits if_splits)
  moreover have "c \<in> set i \<Longrightarrow> printable c"
    using l(1) lex_digits_printable by (auto simp: lex_int_def printable_def byte_def split: list.splits if_splits)
  moreover have "c \<in> set f \<Longrightarrow> printable c"
    using l(2) lex_digits_printable
    by (auto simp: lex_frac_def pmap_Got split: list.splits if_splits) (auto simp: printable_def byte_def)
  moreover have "c \<in> set x \<Longrightarrow> printable c"
    using l(3) lex_digits_printable
    by (auto simp: lex_exp_def pmap_Got split: list.splits if_splits) (auto simp: printable_def byte_def)
  ultimately show ?thesis using assms(2) l(4) by auto
qed

lemma encode_printable: "json_ok j \<Longrightarrow> c \<in> set (encode j) \<Longrightarrow> printable c"
proof (induction j arbitrary: c)
  case JNull
  then show ?case by (auto simp: printable_def byte_def)
next
  case (JBool b)
  then show ?case by (auto simp: printable_def byte_def split: if_splits)
next
  case (JNum lit)
  then show ?case by (auto intro: number_lit_printable)
next
  case (JStr s)
  then show ?case by (auto intro: encode_string_printable)
next
  case (JArr xs)
  have "c \<in> {CHR ''['', CHR '']'', CHR '',''} \<or> (\<exists>x \<in> set xs. c \<in> set (encode x))"
    using JArr.prems(2) set_join [of "'',''" "map encode xs"] by auto
  then show ?case using JArr by (auto simp: list_all_iff)
next
  case (JObj ms)
  have "c \<in> {CHR ''{'', CHR ''}'', CHR '','', CHR '':''} \<or>
      (\<exists>(k, v) \<in> set ms. c \<in> set (encode_string k) \<or> c \<in> set (encode v))"
    using JObj.prems(2) set_join [of "'',''" "map (\<lambda>(k, v). encode_string k @ '':'' @ encode v) ms"] by fastforce
  then show ?case using JObj encode_string_printable by (fastforce simp: list_all_iff)
qed

lemma encode_no_lf: "json_ok j \<Longrightarrow> lf \<notin> set (encode j)"
  using encode_printable [of j lf] by (auto simp: printable_def lf_def byte_def)

lemma encode_JObj_form: "\<exists>s. encode (JObj ms) = CHR ''{'' # s @ [CHR ''}'']"
  by simp

section \<open>Events\<close>

text \<open>The text of an event whose data is a JSON object, and how it is scanned and trimmed.\<close>

definition data_line :: "json \<Rightarrow> string" where
  "data_line j = ''data: '' @ encode j"

lemma visible_simps [simp]: "visible CHR ''d''" "visible CHR ''}''" "visible CHR ''{''" "visible CHR '']''" "visible CHR ''[''"
  by (simp_all add: visible_def is_space_def byte_def)

lemma trim_encode_obj: "trim_space (encode (JObj ms)) = encode (JObj ms)"
  using trim_space_visible [of "CHR ''{''" "CHR ''}''"] by simp

lemma trim_data_line: "trim_space (data_line (JObj ms)) = data_line (JObj ms)"
  using trim_space_visible [of "CHR ''d''" "CHR ''}''" "''ata: '' @ butlast (encode (JObj ms))"]
  by (simp add: data_line_def butlast_append)

lemma drop_cr_Nil [simp]: "drop_cr [] = []"
  by (simp add: drop_cr_def)

lemma drop_cr_data_line: "drop_cr (data_line (JObj ms)) = data_line (JObj ms)"
  by (simp add: drop_cr_def data_line_def cr_def)

lemma data_line_no_lf: "json_ok j \<Longrightarrow> lf \<notin> set (data_line j)"
  using encode_no_lf by (auto simp: data_line_def lf_def)

lemma scan_event:
  assumes "json_ok (JObj ms)" and "length (data_line (JObj ms)) < limit"
  shows "scan_lines limit (data_line (JObj ms) @ lf # lf # s) =
    (data_line (JObj ms) # [] # fst (scan_lines limit s), snd (scan_lines limit s))"
  using scan_lines_step [OF data_line_no_lf [OF assms(1)] assms(2), of "lf # s"] assms(2)
    scan_lines_step [of "[]" limit s] by (simp add: drop_cr_data_line)

end
