(* ===== verification/Handler.thy ===== *)
theory Handler
  imports Chat_Service Middleware Health Event_Stream
begin

text \<open>
  The HTTP handlers of \<^verbatim>\<open>internal/ingress/handler.go\<close>: the status of an error, the reply to
  a completion, the event stream, and the routes. The state of a handler is the chat service,
  with the outside world in it. Gin writes the headers of a JSON reply itself; they are left
  out, as in the middleware.
\<close>

section \<open>Replies\<close>

fun errorToHTTPStatus :: "go_error \<Rightarrow> int" where
  "errorToHTTPStatus (ModelErr me) =
     (if er_code me = ErrCodeInvalidRequest \<or> er_code me = ErrCodeModelNotFound then 400
      else if er_code me = ErrCodeAuthentication then 401
      else if er_code me = ErrCodeRateLimit then 429
      else if er_code me = ErrCodeCircuitOpen then 503
      else if er_code me = ErrCodeProviderError \<or> er_code me = ErrCodeTimeout then 502
      else if er_code me = ErrCodeFallbackExhausted then 503
      else 500)"
| "errorToHTTPStatus (OtherErr _) = 500"

text \<open>The error replies of both handlers; the type assertion on the error panics.\<close>

definition error_answer :: "go_error \<Rightarrow> Reply go_result" where
  "error_answer err =
     (let statusCode = errorToHTTPStatus err
      in case err of ModelErr me \<Rightarrow> Ok (json_reply statusCode [(''error'', enc_Error me)])
                   | OtherErr _ \<Rightarrow> Panic)"

definition handleNonStreaming :: "'w service_env \<Rightarrow> StandardRequest \<Rightarrow> 'w Service \<Rightarrow> Reply go_result \<times> 'w Service" where
  "handleNonStreaming svc req s =
     (case HandleChatCompletion svc req s of
        (Panic, s) \<Rightarrow> (Panic, s)
      | (Err err, s) \<Rightarrow> (error_answer err, s)
      | (Ok resp, s) \<Rightarrow>
          (Ok \<lparr>rp_status = 200, rp_headers = (if rs_cacheHit resp then [(''X-Cache'', ''HIT'')] else []),
               rp_body = marshal_response resp\<rparr>, s))"

section \<open>Event streams\<close>

definition writeSSEEvent :: "StreamChunk \<Rightarrow> string" where
  "writeSSEEvent chunk = ''data: '' @ chunk_ToJSON chunk @ [lf, lf]"

definition writeSSEDone :: string where
  "writeSSEDone = ''data: [DONE]'' @ [lf, lf]"

text \<open>What the loop over the channel writes for the chunks that it receives.\<close>

fun stream_events :: "StreamChunk list \<Rightarrow> string" where
  "stream_events [] = writeSSEDone"
| "stream_events (chunk # ch) =
     (if is_error chunk then writeSSEEvent chunk else writeSSEEvent chunk @ stream_events ch)"

text \<open>
  The forwarding goroutine as a function: given whether the handler reads, whether there was an
  error, and the chunks of the provider, the chunks that are handed over and the service after
  the calls to the breaker. Where nobody reads, the goroutine blocks after the first chunk.
\<close>

fun forward :: "'w service_env \<Rightarrow> string \<Rightarrow> string \<Rightarrow> bool \<Rightarrow> bool \<Rightarrow> StreamChunk list \<Rightarrow> 'w Service \<Rightarrow>
    StreamChunk list \<times> 'w Service" where
  "forward svc p m reading gotError [] s = ([], if \<not> gotError then svc_RecordSuccess p m s else s)"
| "forward svc p m reading gotError (c # cs) s =
     (let s = (if is_error c then svc_RecordFailure svc p m s else s);
          gotError = (if is_error c then True else gotError)
      in if reading then let (out, s) = forward svc p m (\<not> is_error c) gotError cs s in (c # out, s)
         else ([], s))"

definition sse_headers :: "(string \<times> string) list" where
  "sse_headers = [(''Content-Type'', ''text/event-stream''), (''Cache-Control'', ''no-cache''), (''Connection'', ''keep-alive'')]"

text \<open>\<open>flusher\<close> tells whether the writer of the response can flush.\<close>

definition handleStream :: "'w service_env \<Rightarrow> bool \<Rightarrow> StandardRequest \<Rightarrow> 'w Service \<Rightarrow> Reply go_result \<times> 'w Service" where
  "handleStream svc flusher req s =
     (case HandleChatCompletionStream svc req s of
        (Panic, s) \<Rightarrow> (Panic, s)
      | (Err err, s) \<Rightarrow> (error_answer err, s)
      | (Ok (dec, ch), s) \<Rightarrow>
          let (out, s) = forward svc (rd_provider dec) (rd_model dec) flusher False ch s
          in if \<not> flusher
             then (Ok ((json_reply 500 [(''error'', enc_Error (NewError ErrCodeInternal ''streaming not supported''))])
                      \<lparr>rp_headers := sse_headers\<rparr>), s)
             else (Ok \<lparr>rp_status = 200, rp_headers = sse_headers, rp_body = stream_events out\<rparr>, s))"

section \<open>Routes\<close>

text \<open>A chat service that is nil is \<open>None\<close>.\<close>

definition chatCompletionHandler :: "'w service_env option \<Rightarrow> bool \<Rightarrow> 'w Service handler" where
  "chatCompletionHandler svc flusher c s =
     (case cx_body c of
        None \<Rightarrow> (Ok (json_reply 400 [(''error'', enc_Error (NewError ErrCodeInvalidRequest ''failed to read body''))]), s)
      | Some body \<Rightarrow>
          (case ParseStandardRequest body of
             Inl _ \<Rightarrow> (Ok (json_reply 400 [(''error'', enc_Error (NewError ErrCodeInvalidRequest ''invalid request body''))]), s)
           | Inr req \<Rightarrow>
               let req = (case cx_requestId c of None \<Rightarrow> req | Some rid \<Rightarrow> req\<lparr>req_id := rid\<rparr>)
               in case svc of
                    None \<Rightarrow> (Ok (error_reply 501 ''chat service not wired''), s)
                  | Some svc \<Rightarrow>
                      if req_stream req then handleStream svc flusher req s
                      else handleNonStreaming svc req s))"

text \<open>
  The registered routes; \<open>metrics\<close> is the handler of the Prometheus library, and \<open>unmatched\<close>
  what Gin does with every other request.
\<close>

definition RegisterRoutes :: "'w service_env option \<Rightarrow> bool \<Rightarrow> 'w HealthChecker option \<Rightarrow> 'w Service handler \<Rightarrow>
    'w Service handler \<Rightarrow> 'w Service handler" where
  "RegisterRoutes svc flusher checker metrics unmatched c s =
     (if cx_method c = ''GET'' \<and> cx_path c = ''/health'' then
        (case checker of
           None \<Rightarrow> (Ok (json_reply 200 [(''status'', JStr ''ok'')]), s)
         | Some checker \<Rightarrow>
             let (result, w) = health_Check checker (sv_world s)
             in (Ok (json_reply 200 (enc_HealthResult result)), s\<lparr>sv_world := w\<rparr>))
      else if cx_method c = ''GET'' \<and> cx_path c = ''/metrics'' then metrics c s
      else if cx_method c = ''POST'' \<and> cx_path c = ''/v1/chat/completions'' then chatCompletionHandler svc flusher c s
      else unmatched c s)"


section \<open>The goroutine runs as the function says\<close>

lemma forward_run:
  "\<exists>f evs. fwd_step\<^sup>*\<^sup>* \<lparr>fw_phase = Receiving, fw_ch = cs, fw_gotError = g, fw_calls = calls, fw_out = out, fw_reading = r\<rparr> f \<and>
     (\<nexists>f'. fwd_step f f') \<and> fw_out f = out @ fst (forward svc p m r g cs s) \<and> fw_calls f = calls @ evs \<and>
     cbm_view (sv_cbManager (snd (forward svc p m r g cs s))) =
       (cbm_view (sv_cbManager s))(cbm_key p m := cb_run evs (cbm_view (sv_cbManager s) (cbm_key p m)))"
proof (induction cs arbitrary: g calls out r s)
  case Nil
  let ?f = "\<lparr>fw_phase = Receiving, fw_ch = [], fw_gotError = g, fw_calls = calls, fw_out = out, fw_reading = r\<rparr>"
  let ?g = "?f\<lparr>fw_phase := Finished, fw_calls := (if \<not> g then calls @ [EvSuccess] else calls)\<rparr>"
  have "fwd_step ?f ?g" using finish [of ?f] by (cases g) simp_all
  moreover have "\<nexists>f'. fwd_step ?g f'" unfolding fwd_stuck_iff by simp
  ultimately show ?case
    by (intro exI [of _ ?g] exI [of _ "if \<not> g then [EvSuccess] else []"] conjI r_into_rtranclp)
      (auto simp: cbm_views fun_eq_iff)
next
  case (Cons c cs)
  let ?f = "\<lparr>fw_phase = Receiving, fw_ch = c # cs, fw_gotError = g, fw_calls = calls, fw_out = out, fw_reading = r\<rparr>"
  let ?t = "fst (sx_clock svc (sv_world s))"
  let ?evs = "if is_error c then [EvFailure ?t] else []"
  let ?g = "is_error c \<or> g"
  let ?s = "if is_error c then svc_RecordFailure svc p m s else s"
  let ?h = "\<lparr>fw_phase = Sending c, fw_ch = cs, fw_gotError = ?g, fw_calls = calls @ ?evs, fw_out = out, fw_reading = r\<rparr>"
  have fh: "fwd_step ?f ?h" using receive [of ?f c cs ?t] by (cases "is_error c") simp_all
  have v: "cbm_view (sv_cbManager ?s) = (cbm_view (sv_cbManager s))
      (cbm_key p m := cb_run ?evs (cbm_view (sv_cbManager s) (cbm_key p m)))" by (simp add: cbm_views)
  show ?case
  proof (cases r)
    case False
    have "\<nexists>f'. fwd_step ?h f'" unfolding fwd_stuck_iff using False by simp
    then show ?thesis using fh v False by (intro exI [of _ ?h] exI [of _ ?evs] conjI r_into_rtranclp) (simp_all add: Let_def)
  next
    case True
    let ?k = "\<lparr>fw_phase = Receiving, fw_ch = cs, fw_gotError = ?g, fw_calls = calls @ ?evs, fw_out = out @ [c],
      fw_reading = \<not> is_error c\<rparr>"
    have hk: "fwd_step ?h ?k" using deliver [of ?h c] True by simp
    have fe: "forward svc p m r g (c # cs) s = (c # fst (forward svc p m (\<not> is_error c) ?g cs ?s), snd (forward svc p m (\<not> is_error c) ?g cs ?s))"
      using True by (simp add: Let_def split: prod.split)
    obtain f evs where f: "fwd_step\<^sup>*\<^sup>* ?k f" "\<nexists>f'. fwd_step f f'"
      "fw_out f = (out @ [c]) @ fst (forward svc p m (\<not> is_error c) ?g cs ?s)" "fw_calls f = (calls @ ?evs) @ evs"
      "cbm_view (sv_cbManager (snd (forward svc p m (\<not> is_error c) ?g cs ?s))) =
       (cbm_view (sv_cbManager ?s))(cbm_key p m := cb_run evs (cbm_view (sv_cbManager ?s) (cbm_key p m)))"
      using Cons.IH [of ?g "calls @ ?evs" "out @ [c]" "\<not> is_error c" ?s] by blast
    have "fwd_step\<^sup>*\<^sup>* ?f f" using fh hk f(1) by (meson converse_rtranclp_into_rtranclp)
    then show ?thesis using f(2-5) v unfolding fe
      by (intro exI [of _ f] exI [of _ "?evs @ evs"]) (simp del: fwd_step_simp)
  qed
qed

text \<open>The chunks that a handler gets: all up to the first error.\<close>

fun delivered :: "StreamChunk list \<Rightarrow> StreamChunk list" where
  "delivered [] = []"
| "delivered (c # cs) = (if is_error c then [c] else c # delivered cs)"

lemma forward_delivered: "fst (forward svc p m True g cs s) = delivered cs"
proof (induction cs arbitrary: g s)
  case (Cons c cs)
  have "fst (forward svc p m False g' cs s') = []" for g' s' by (cases cs) (simp_all add: Let_def)
  then show ?case using Cons by (simp add: Let_def split: prod.split) (metis fst_conv)
qed simp

lemma delivered_all: "\<forall>c \<in> set (butlast cs). \<not> is_error c \<Longrightarrow> delivered cs = cs"
  by (induction cs) (auto split: if_splits)

text \<open>
  C14. What the handlers assume of the forwarding goroutine is one of its runs, to its end:
  while the handler reads until the first error, the chunks handed over are those that the
  function yields, and the calls of the run, applied to the breaker of the provider and model,
  give exactly the breakers that the function leaves.
\<close>

theorem forward_is_a_run:
  "\<exists>f. fwd_step\<^sup>*\<^sup>* (fwd_start chunks) f \<and> (\<nexists>f'. fwd_step f f') \<and>
     fw_out f = fst (forward svc p m True False chunks s) \<and>
     cbm_view (sv_cbManager (snd (forward svc p m True False chunks s))) = (cbm_view (sv_cbManager s))
       (cbm_key p m := cb_run (fw_calls f) (cbm_view (sv_cbManager s) (cbm_key p m)))"
  using forward_run [of chunks False "[]" "[]" True svc p m s] by (auto simp: fwd_start_def)

section \<open>What a client reads\<close>

definition chunk_valid :: "StreamChunk \<Rightarrow> bool" where
  "chunk_valid c \<longleftrightarrow> valid_utf8 (sc_id c) \<and> valid_utf8 (sc_model c) \<and> valid_utf8 (dl_role (sc_delta c)) \<and>
     valid_utf8 (dl_content (sc_delta c)) \<and>
     (case sc_error c of None \<Rightarrow> True | Some e \<Rightarrow> valid_utf8 (er_code e) \<and> valid_utf8 (er_message e) \<and> valid_utf8 (er_type e))"

lemma chunk_keys [simp]: "valid_utf8 ''delta''" "valid_utf8 ''done''" "valid_utf8 ''error''" "valid_utf8 ''code''"
    "valid_utf8 ''message''" "valid_utf8 ''type''"
  by (simp_all add: valid_utf8_ascii byte_def)

lemma json_ok_chunk: "chunk_valid c \<Longrightarrow> json_ok (enc_StreamChunk c)"
  by (auto simp: chunk_valid_def enc_StreamChunk_def enc_Error_def omit_empty_def split: option.splits)

lemma depth_chunk: "depth (enc_StreamChunk c) \<le> maxNestingDepth"
  by (auto simp: enc_StreamChunk_def enc_Error_def omit_empty_def maxNestingDepth_def split: option.splits)

lemma event_line: "writeSSEEvent c = data_line (enc_StreamChunk c) @ [lf, lf]"
  by (simp add: writeSSEEvent_def data_line_def chunk_ToJSON_def)

lemma scan_chunk_event:
  assumes "chunk_valid c" and "length (data_line (enc_StreamChunk c)) < limit"
  shows "scan_lines limit (writeSSEEvent c @ s) =
    (data_line (enc_StreamChunk c) # [] # fst (scan_lines limit s), snd (scan_lines limit s))"
proof -
  obtain ms where ms: "enc_StreamChunk c = JObj ms" by (simp add: enc_StreamChunk_def)
  then show ?thesis using scan_event [of ms limit s] json_ok_chunk [OF assms(1)] assms(2)
    by (simp add: event_line)
qed

definition done_text :: string where "done_text = ''data: [DONE]''"

lemma scan_stream_events:
  assumes "list_all chunk_valid cs" and "\<forall>c \<in> set cs. length (data_line (enc_StreamChunk c)) < limit" and "12 < limit"
    and "\<forall>c \<in> set (butlast cs). \<not> is_error c"
  shows "scan_lines limit (stream_events cs) =
    (concat (map (\<lambda>c. [data_line (enc_StreamChunk c), []]) cs) @ (if list_ex is_error cs then [] else [done_text, []]), False)"
  using assms
proof (induction cs)
  case Nil
  have "lf \<notin> set done_text" by (simp add: done_text_def lf_def)
  moreover have "drop_cr done_text = done_text" by (simp add: drop_cr_def done_text_def cr_def)
  ultimately show ?case
    using scan_lines_step [of done_text limit "[lf]"] scan_lines_step [of "[]" limit "[]"] Nil
    by (simp add: writeSSEDone_def done_text_def)
next
  case (Cons c cs)
  show ?case
  proof (cases "is_error c")
    case True
    then have "cs = []" using Cons.prems(4) by (auto split: if_splits)
    then show ?thesis using True Cons.prems scan_chunk_event [of c limit "[]"] by simp
  next
    case False
    then show ?thesis using Cons scan_chunk_event [of c limit "stream_events cs"] by (auto split: if_splits)
  qed
qed

text \<open>
  C15. A client reads the stream back as it was sent: the reply is an event stream in which
  each chunk of the provider is one event, in order, whose data is a single line that parses to
  exactly the JSON of that chunk; no text of a chunk can break an event. The stream ends with
  the done marker, unless its last chunk is an error.
\<close>

theorem stream_reply_reads_back:
  assumes "HandleChatCompletionStream svc req s = (Ok (dec, ch), s1)"
    and "\<forall>c \<in> set (butlast ch). \<not> is_error c" and "list_all chunk_valid ch"
    and "\<forall>c \<in> set ch. length (data_line (enc_StreamChunk c)) < limit" and "12 < limit"
  shows "\<exists>rep s'. handleStream svc True req s = (Ok rep, s') \<and> rp_status rep = 200 \<and>
    scan_lines limit (rp_body rep) = (concat (map (\<lambda>c. [''data: '' @ encode (enc_StreamChunk c), []]) ch) @
      (if list_ex is_error ch then [] else [''data: [DONE]'', []]), False) \<and>
    list_all (\<lambda>c. parse_document (encode (enc_StreamChunk c)) = Inr (enc_StreamChunk c)) ch"
proof -
  let ?f = "forward svc (rd_provider dec) (rd_model dec) True False ch s1"
  have out: "fst ?f = ch" using forward_delivered delivered_all [OF assms(2)] by metis
  have "handleStream svc True req s =
      (Ok \<lparr>rp_status = 200, rp_headers = sse_headers, rp_body = stream_events ch\<rparr>, snd ?f)"
    using assms(1) out by (simp add: handleStream_def case_prod_beta)
  moreover have "parse_document (encode (enc_StreamChunk c)) = Inr (enc_StreamChunk c)" if "chunk_valid c" for c
    using parse_document_encode [OF json_ok_chunk [OF that] depth_chunk, of "[]"] by simp
  then have "list_all (\<lambda>c. parse_document (encode (enc_StreamChunk c)) = Inr (enc_StreamChunk c)) ch"
    using assms(3) by (simp add: list_all_iff)
  ultimately show ?thesis using scan_stream_events [OF assms(3,4,5,2)]
    by (auto simp: data_line_def done_text_def)
qed


theorem stream_reply_reads_back_witness:
  "\<exists>rep s'. handleStream demo_senv True (demo_chat ''p/m'') demo_service = (Ok rep, s') \<and> rp_status rep = 200 \<and>
     (\<exists>limit line. scan_lines limit (rp_body rep) = ([line, [], ''data: [DONE]'', []], False))"
proof -
  let ?c = "zero_chunk\<lparr>sc_id := ''p/m''\<rparr>"
  have r: "router_Route ((demo_chat ''p/m'')\<lparr>req_stream := True\<rparr>) r =
      (Ok \<lparr>rd_provider = ''p'', rd_model = ''m'', rd_strategy = ''explicit''\<rparr>, r)" for r :: "unit Router"
    using explicit_route [of "''p''" "(demo_chat ''p/m'')\<lparr>req_stream := True\<rparr>" "''m''" r] by simp
  obtain s' where s': "HandleChatCompletionStream demo_senv (demo_chat ''p/m'') demo_service =
      (Ok (\<lparr>rd_provider = ''p'', rd_model = ''m'', rd_strategy = ''explicit''\<rparr>, [?c]), s')"
    by (simp add: HandleChatCompletionStream_def r svc_defs demo_service_def NewChatService_def demo_senv_def
        demo_upstream_def Let_def)
  have v: "list_all chunk_valid [?c]"
    by (simp add: chunk_valid_def zero_chunk_def zero_delta_def valid_utf8_ascii byte_def)
  have e: "\<not> is_error ?c" by (simp add: is_error_def zero_chunk_def)
  show ?thesis
    using stream_reply_reads_back [OF s' _ v, of "Suc (12 + length (data_line (enc_StreamChunk ?c)))"] e by fastforce
qed

section \<open>Errors that the handlers do not expect\<close>

lemma engine_cancelled_panics:
  assumes "\<not> req_stream req" and "sv_cache s = None" and "router_Route req (sv_router s) = (Ok dec, r)"
    and "svc_Allow svc (rd_provider dec) (rd_model dec) (s\<lparr>sv_router := r\<rparr>) = (True, s1)"
    and "sx_ctxErr svc (sv_world s1) = Some (OtherErr text)"
  shows "handleNonStreaming svc req s = (Panic, s1)"
proof -
  have "fe_Execute (sv_fallbackEng s1) (service_fe_env svc) p m (Some (buildSendFn svc req)) s1 = (Err (OtherErr text), s1)" for p m
    using assms(5) by (simp add: fe_Execute_def fe_Attempts_def)
  then show ?thesis using assms(1-4)
    by (simp add: handleNonStreaming_def HandleChatCompletion_def service_lookup_def dispatch_def error_answer_def)
qed

lemma cancelled_panics: "fst (handleNonStreaming demo_cancelled (demo_chat ''p/m'') demo_service) = Panic"
  using demo_cancelled_completion
  by (cases "HandleChatCompletion demo_cancelled (demo_chat ''p/m'') demo_service") (simp add: handleNonStreaming_def error_answer_def)

text \<open>
  A client that goes away makes the handler panic: the fallback engine returns the error of
  the request context, which is not an error of the gateway's own type, and the assertion on it
  fails. Here the context is cancelled when the engine starts.
\<close>

theorem cancelled_request_panics:
  assumes "\<not> req_stream req" and "sv_cache s = None" and "router_Route req (sv_router s) = (Ok dec, r)"
    and "svc_Allow svc (rd_provider dec) (rd_model dec) (s\<lparr>sv_router := r\<rparr>) = (True, s1)"
    and "sx_ctxErr svc (sv_world s1) = Some (OtherErr text)"
  shows "handleNonStreaming svc req s = (Panic, s1)"
  using assms by (rule engine_cancelled_panics)

theorem cancelled_request_panics_witness:
  "fst (handleNonStreaming demo_cancelled (demo_chat ''p/m'') demo_service) = Panic"
proof -
  obtain s1 where s1: "svc_Allow demo_cancelled ''p'' ''m'' (demo_service\<lparr>sv_router := sv_router demo_service\<rparr>) = (True, s1)"
    by (simp add: svc_Allow_def demo_service_def NewChatService_def demo_cancelled_def demo_senv_def)
  show ?thesis
    using cancelled_request_panics [of "demo_chat ''p/m''" demo_service "\<lparr>rd_provider = ''p'', rd_model = ''m'', rd_strategy = ''explicit''\<rparr>"
        "sv_router demo_service" demo_cancelled s1 "''context canceled''"] s1
    by (simp add: demo_Route_at demo_cancelled_def) (simp add: demo_service_def NewChatService_def)
qed

text \<open>
  That is the only way: where the service itself does not panic and the context of the
  request reports no error of another type, the handler of completions replies.
\<close>

theorem completion_reply_or_cancelled:
  assumes "handleNonStreaming svc req s = (Panic, s')"
  shows "fst (HandleChatCompletion svc req s) = Panic \<or>
    (\<exists>text w. sx_ctxErr svc w = Some (OtherErr text)) \<or> (\<exists>text d w. fst (sx_wait svc d w) = Some (OtherErr text))"
proof -
  obtain r s1 where r: "HandleChatCompletion svc req s = (r, s1)" by fastforce
  show ?thesis
  proof (cases r)
    case (Err err)
    then obtain e where "err = OtherErr e"
      using assms r by (cases err) (auto simp: handleNonStreaming_def error_answer_def)
    then show ?thesis using completion_error_cases [of svc req s err s1] r Err by auto
  qed (use assms r in \<open>auto simp: handleNonStreaming_def\<close>)
qed

theorem completion_reply_or_cancelled_witness:
  "fst (HandleChatCompletion demo_cancelled (demo_chat ''p/m'') demo_service) \<noteq> Panic \<and>
     (\<exists>text w. sx_ctxErr demo_cancelled w = Some (OtherErr text))"
proof -
  obtain s' where "handleNonStreaming demo_cancelled (demo_chat ''p/m'') demo_service = (Panic, s')"
    using cancelled_panics by (metis prod.collapse)
  from completion_reply_or_cancelled [OF this] show ?thesis
    using demo_cancelled_completion by (auto simp: demo_cancelled_def demo_senv_def)
qed

end
