(* ===== verification/Float_Text.thy ===== *)
theory Float_Text
  imports Json_Codec
begin

text \<open>
  The text that \<^verbatim>\<open>encoding/json\<close> gives a floating-point number, and that it is read back
  as the same number.
\<close>

section \<open>Numbers in a body\<close>

text \<open>
  The text that \<^verbatim>\<open>encoding/json\<close> gives a double: the fewest significant digits that read
  back as it, and of those the closest; in exponent form below \<open>1e-6\<close> and from \<open>1e21\<close> on. The
  value is the fraction \<open>p / q\<close>; a candidate is a number of digits and a power of ten.
\<close>

definition near_decimal :: "bool \<Rightarrow> f64 \<Rightarrow> nat \<Rightarrow> nat \<Rightarrow> int \<Rightarrow> nat option" where
  "near_decimal s x p q k =
     (let (p', q') = (if 0 \<le> k then (p, q * 10 ^ nat k) else (p * 10 ^ nat (- k), q));
          lo = p' div q'; hi = lo + 1;
          good = (\<lambda>n. scale_ten s n k = x);
          lo_closer = 2 * (p' mod q') \<le> q'
      in if good lo \<and> (lo_closer \<or> \<not> good hi) then Some lo
         else if good hi then Some hi else None)"

text \<open>
  From the coarsest power of ten down; the digits are those of the first candidate found. The
  fuel is the number of powers tried; \<open>json_float_total\<close> in \<^theory_text>\<open>Float_Digits\<close> shows that it
  is enough, since 17 significant digits determine a double.
\<close>

fun shortest :: "nat \<Rightarrow> bool \<Rightarrow> f64 \<Rightarrow> nat \<Rightarrow> nat \<Rightarrow> int \<Rightarrow> (nat \<times> int) option" where
  "shortest 0 s x p q k = None"
| "shortest (Suc fuel) s x p q k =
     (case near_decimal s x p q k of
        Some n \<Rightarrow> if n = 0 then shortest fuel s x p q (k - 1) else Some (n, k)
      | None \<Rightarrow> shortest fuel s x p q (k - 1))"

text \<open>The digits of \<open>n * 10 ^ k\<close> in plain and in exponent form.\<close>

definition plain_form :: "nat \<Rightarrow> int \<Rightarrow> string" where
  "plain_form n k =
     (let ds = nat_digits n [] in
      if 0 \<le> k then ds @ replicate (nat k) CHR ''0''
      else let j = nat (- k) in
        if j < length ds then take (length ds - j) ds @ ''.'' @ drop (length ds - j) ds
        else ''0.'' @ replicate (j - length ds) CHR ''0'' @ ds)"

definition exponent_form :: "nat \<Rightarrow> int \<Rightarrow> string" where
  "exponent_form n k =
     (let ds = nat_digits n []; e = k + int (length ds) - 1
      in hd ds # (if tl ds = [] then [] else CHR ''.'' # tl ds) @ ''e'' @
         (if e < 0 then ''-'' else ''+'') @ nat_digits (nat \<bar>e\<bar>) [])"

text \<open>The power of ten just above the fraction.\<close>

definition ten_above :: "nat \<Rightarrow> nat \<Rightarrow> int" where
  "ten_above p q = (if q \<le> p then int (length (nat_digits (p div q) []))
     else 1 - int (length (nat_digits ((q - 1) div p) [])))"

fun fabs :: "f64 \<Rightarrow> f64" where
  "fabs NaN = NaN"
| "fabs (Inf s) = Inf False"
| "fabs (Fin s m e) = Fin False m e"

definition json_float :: "f64 \<Rightarrow> string option" where
  "json_float x =
     (case x of
        Fin s m e \<Rightarrow>
          let sign = (if s then ''-'' else []) in
          if m = 0 then Some (sign @ ''0'')
          else
            let (p, q) = (if 0 \<le> e then (m * 2 ^ nat e, 1) else (m, 2 ^ nat (- e)));
                y = fabs x;
                form = (if flt y (scale_ten False 1 (- 6)) \<or> fle (scale_ten False 1 21) y
                        then exponent_form else plain_form)
            in map_option (\<lambda>(n, k). sign @ form n k) (shortest 20 s x p q (ten_above p q))
      | _ \<Rightarrow> None)"

section \<open>The text is read back\<close>

lemma near_decimal_good: "near_decimal s x p q k = Some n \<Longrightarrow> scale_ten s n k = x"
  by (auto simp: near_decimal_def Let_def split: prod.splits if_splits)

lemma shortest_good: "shortest fuel s x p q k = Some (n, k') \<Longrightarrow> scale_ten s n k' = x \<and> 0 < n"
  by (induction fuel s x p q k rule: shortest.induct)
    (auto dest: near_decimal_good split: option.splits if_splits)

lemma digits_value_zeros: "digits_value (replicate j CHR ''0'' @ ds) acc = digits_value ds (10 ^ j * acc)"
  by (induction j arbitrary: acc) (simp_all add: digit_def byte_def algebra_simps)

lemma digits_value_trailing:
  "digits_value (ds @ replicate j CHR ''0'') acc = map_option (\<lambda>n. n * 10 ^ j) (digits_value ds acc)"
proof (induction ds arbitrary: acc)
  case Nil
  have "digits_value (replicate j CHR ''0'') acc = Some (10 ^ j * acc)"
    using digits_value_zeros [of j "[]" acc] by simp
  then show ?case by (simp add: mult.commute)
next
  case (Cons d ds)
  then show ?case by (simp split: option.split)
qed

lemma nd_value [simp]: "digits_value (nat_digits n []) 0 = Some n"
  by (rule digits_value_nat_digits)

lemma nd_take [simp]: "takeWhile is_digit (nat_digits n []) = nat_digits n []" "dropWhile is_digit (nat_digits n []) = []"
  using nat_digits_digits [of n]
  by (simp_all add: takeWhile_eq_all_conv [THEN iffD2] dropWhile_eq_Nil_conv [THEN iffD2])

lemma is_digit_simps [simp]: "is_digit CHR ''0''" "\<not> is_digit CHR ''.''" "\<not> is_digit CHR ''e''" "\<not> is_digit CHR ''-''"
  "\<not> is_digit CHR ''+''"
  by (simp_all add: is_digit_def byte_def)

text \<open>A literal in parts: the digits before the point, after it, and the exponent.\<close>

definition exp_text :: "int option \<Rightarrow> string" where
  "exp_text x = (case x of None \<Rightarrow> [] | Some e \<Rightarrow> ''e'' @ (if e < 0 then ''-'' else ''+'') @ nat_digits (nat \<bar>e\<bar>) [])"

definition lit_parts :: "string \<Rightarrow> string \<Rightarrow> int option \<Rightarrow> string" where
  "lit_parts ip fp x = ip @ (if fp = [] then [] else CHR ''.'' # fp) @ exp_text x"

definition parts_ok :: "string \<Rightarrow> string \<Rightarrow> bool" where
  "parts_ok ip fp \<longleftrightarrow> ip \<noteq> [] \<and> (\<forall>c \<in> set ip. is_digit c) \<and> (\<forall>c \<in> set fp. is_digit c) \<and> (hd ip = CHR ''0'' \<longrightarrow> tl ip = [])"

lemma parts_split:
  assumes "parts_ok ip fp"
  shows "takeWhile is_digit (lit_parts ip fp x) = ip"
    "dropWhile is_digit (lit_parts ip fp x) = (if fp = [] then [] else CHR ''.'' # fp) @ exp_text x"
    "takeWhile is_digit (fp @ exp_text x) = fp" "dropWhile is_digit (fp @ exp_text x) = exp_text x"
  using assms
  by (auto simp: lit_parts_def exp_text_def parts_ok_def takeWhile_append dropWhile_append split: option.split)

lemma exponent_of_text: "exponent_of (exp_text x) = (case x of None \<Rightarrow> 0 | Some e \<Rightarrow> e)"
  by (simp add: exponent_of_def exp_text_def split: option.split)

lemma parse_float_parts:
  assumes "parts_ok ip fp" and "digits_value (ip @ fp) 0 = Some n"
    and "scale_ten s n ((case x of None \<Rightarrow> 0 | Some e \<Rightarrow> e) - int (length fp)) = v" and "is_fin v"
  shows "parse_float ((if s then ''-'' else []) @ lit_parts ip fp x) = Some v"
proof -
  obtain c cs where ip: "ip = c # cs" "is_digit c" using assms(1) by (cases ip) (auto simp: parts_ok_def)
  then have c: "c \<noteq> CHR ''-''" by (auto simp: is_digit_def byte_def)
  have sign: "(case (if s then ''-'' else []) @ lit_parts ip fp x of c # t \<Rightarrow> if c = CHR ''-'' then (True, t)
      else (False, (if s then ''-'' else []) @ lit_parts ip fp x) | [] \<Rightarrow> (False, (if s then ''-'' else []) @ lit_parts ip fp x)) =
      (s, lit_parts ip fp x)"
    using ip c by (simp add: lit_parts_def)
  have tail: "(case (if fp = [] then [] else CHR ''.'' # fp) @ exp_text x of c # t \<Rightarrow>
        if c = CHR ''.'' then (takeWhile is_digit t, dropWhile is_digit t) else ([], (if fp = [] then [] else CHR ''.'' # fp) @ exp_text x)
      | [] \<Rightarrow> ([], (if fp = [] then [] else CHR ''.'' # fp) @ exp_text x)) = (fp, exp_text x)"
    using parts_split(3,4) [OF assms(1), of x] by (cases x) (auto simp: exp_text_def)
  show ?thesis
    using assms(2-4) by (simp only: parse_float_def sign prod.case Let_def parts_split(1,2) [OF assms(1)] tail exponent_of_text) simp
qed

lemma lex_parts:
  assumes "parts_ok ip fp"
  shows "number_lit ((if s then ''-'' else []) @ lit_parts ip fp x)"
proof -
  let ?ft = "(if fp = [] then [] else CHR ''.'' # fp)"
  obtain c cs where ip: "ip = c # cs" "is_digit c" using assms(1) by (cases ip) (auto simp: parts_ok_def)
  then have c: "c \<noteq> CHR ''-''" by (auto simp: is_digit_def byte_def)
  have i: "lex_int (lit_parts ip fp x) = Got ip (?ft @ exp_text x)"
  proof (cases "c = CHR ''0''")
    case True
    then show ?thesis using assms ip by (auto simp: lex_int_def lit_parts_def exp_text_def parts_ok_def)
  next
    case False
    then show ?thesis using parts_split(1,2) [OF assms, of x] ip
      by (simp add: lex_int_def lit_parts_def exp_text_def lex_digits_def)
  qed
  have f: "lex_frac (?ft @ exp_text x) = Got ?ft (exp_text x)"
  proof (cases "fp = []")
    case True
    then show ?thesis by (cases x) (auto simp: lex_frac_def exp_text_def)
  next
    case False
    then have "lex_digits (fp @ exp_text x) = Got fp (exp_text x)"
      by (simp only: lex_digits_def Let_def parts_split(3,4) [OF assms]) simp
    then show ?thesis using False by (simp add: lex_frac_def)
  qed
  have x: "lex_exp (exp_text x) = Got (exp_text x) []"
    by (cases x) (simp_all add: lex_exp_def lex_digits_def exp_text_def)
  show ?thesis using i f x ip c by (auto simp: number_lit_def lex_number_def lit_parts_def)
qed


text \<open>The digits of a positive number do not start with a zero.\<close>

lemma nat_digits_head_nonzero: "0 < n \<Longrightarrow> hd (nat_digits n []) \<noteq> CHR ''0''"
proof
  assume n: "0 < n" and "hd (nat_digits n []) = CHR ''0''"
  then have "nat_digits n [] = ''0''" by (intro nat_digits_head)
  then have "digits_value ''0'' 0 = Some n" using nd_value [of n] by simp
  then show False using n by (simp add: digit_def byte_def)
qed

text \<open>A text has the parts of a literal that reads as the decimal \<open>n * 10 ^ k\<close>.\<close>

definition reads_as :: "string \<Rightarrow> bool \<Rightarrow> nat \<Rightarrow> int \<Rightarrow> bool" where
  "reads_as form s n k \<longleftrightarrow> (\<exists>ip fp x m. form = lit_parts ip fp x \<and> parts_ok ip fp \<and> digits_value (ip @ fp) 0 = Some m \<and>
     scale_ten s m ((case x of None \<Rightarrow> 0 | Some e \<Rightarrow> e) - int (length fp)) = scale_ten s n k)"

lemma reads_asI:
  assumes "form = lit_parts ip fp x" and "parts_ok ip fp" and "digits_value (ip @ fp) 0 = Some m"
    and "scale_ten s m ((case x of None \<Rightarrow> 0 | Some e \<Rightarrow> e) - int (length fp)) = scale_ten s n k"
  shows "reads_as form s n k"
  using assms unfolding reads_as_def by blast

lemma plain_form_parts:
  assumes "0 < n"
  shows "reads_as (plain_form n k) s n k"
proof -
  let ?ds = "nat_digits n []"
  have dig: "\<forall>c \<in> set ?ds. is_digit c" by (rule nat_digits_digits)
  have ne: "?ds \<noteq> []" and hd: "hd ?ds \<noteq> CHR ''0''" using nat_digits_head_nonzero [OF assms] by simp_all
  consider (int) "0 \<le> k" | (mid) "k < 0" "nat (- k) < length ?ds" | (small) "k < 0" "length ?ds \<le> nat (- k)"
    by linarith
  then show ?thesis
  proof cases
    case int
    show ?thesis
      by (rule reads_asI [of _ "?ds @ replicate (nat k) CHR ''0''" "[]" None "n * 10 ^ nat k"])
        (use int dig ne hd in \<open>auto simp: plain_form_def lit_parts_def exp_text_def parts_ok_def hd_append
            digits_value_trailing scale_ten_def\<close>)
  next
    case mid
    let ?j = "length ?ds - nat (- k)"
    have "take ?j ?ds \<noteq> []" "drop ?j ?ds \<noteq> []" using mid by auto
    moreover have "hd (take ?j ?ds) = hd ?ds" using mid by (simp add: hd_take)
    moreover have "length (drop ?j ?ds) = nat (- k)" using mid by simp
    ultimately show ?thesis
      by (intro reads_asI [of _ "take ?j ?ds" "drop ?j ?ds" None n])
        (use mid dig hd in \<open>auto simp: plain_form_def lit_parts_def exp_text_def parts_ok_def Let_def
            dest: in_set_takeD in_set_dropD simp del: length_drop\<close>)
  next
    case small
    let ?z = "replicate (nat (- k) - length ?ds) CHR ''0''"
    have "digits_value (CHR ''0'' # ?z @ ?ds) 0 = Some n"
      using digits_value_zeros [of "Suc (nat (- k) - length ?ds)" ?ds 0] by simp
    moreover have "length (?z @ ?ds) = nat (- k)" using small by simp
    ultimately show ?thesis
      by (intro reads_asI [of _ "''0''" "?z @ ?ds" None n])
        (use small dig ne in \<open>auto simp: plain_form_def lit_parts_def exp_text_def parts_ok_def Let_def
            simp del: length_append length_replicate\<close>)
  qed
qed

lemma exponent_form_parts:
  assumes "0 < n"
  shows "reads_as (exponent_form n k) s n k"
proof -
  let ?ds = "nat_digits n []"
  have dig: "\<forall>c \<in> set ?ds. is_digit c" by (rule nat_digits_digits)
  have ne: "?ds \<noteq> []" and hd: "hd ?ds \<noteq> CHR ''0''" using nat_digits_head_nonzero [OF assms] by simp_all
  obtain d ds where ds: "?ds = d # ds" using ne by (cases ?ds) auto
  let ?e = "k + int (length ?ds) - 1"
  have "digits_value ([d] @ ds) 0 = Some n" using nd_value [of n] unfolding ds by simp
  then show ?thesis
    by (intro reads_asI [of _ "[d]" ds "Some ?e" n])
      (use dig in \<open>auto simp: exponent_form_def lit_parts_def exp_text_def parts_ok_def Let_def ds\<close>)
qed

lemma float_text_roundtrip_bits:
  assumes "json_float x = Some lit" and "f64_ok x"
  shows "number_lit lit \<and> parse_float lit = Some x"
proof -
  obtain s m e where x: "x = Fin s m e" using assms(1) by (cases x) (auto simp: json_float_def)
  show ?thesis
  proof (cases "m = 0")
    case True
    then have lit: "lit = (if s then ''-'' else []) @ lit_parts ''0'' [] None" and "e = - 1074"
      using assms x by (auto simp: json_float_def lit_parts_def exp_text_def)
    moreover have "parts_ok ''0'' []" by (simp add: parts_ok_def)
    ultimately show ?thesis
      using lex_parts [of "''0''" "[]" s None] parse_float_parts [of "''0''" "[]" 0 s None x] x True
      by (simp add: digit_def byte_def scale_ten_def f64_round_def)
  next
    case False
    then obtain n k p q j form where sh: "shortest 20 s x p q j = Some (n, k)"
      and lit: "lit = (if s then ''-'' else []) @ form n k" and "form = plain_form \<or> form = exponent_form"
      using assms(1) by (auto simp: json_float_def x Let_def split: prod.splits if_splits)
    from shortest_good [OF sh] have n: "scale_ten s n k = x" "0 < n" by simp_all
    obtain ip fp y m' where f: "form n k = lit_parts ip fp y" "parts_ok ip fp" "digits_value (ip @ fp) 0 = Some m'"
        "scale_ten s m' ((case y of None \<Rightarrow> 0 | Some e \<Rightarrow> e) - int (length fp)) = x"
      using plain_form_parts [OF n(2), of k s, unfolded reads_as_def] exponent_form_parts [OF n(2), of k s, unfolded reads_as_def] n(1) \<open>form = plain_form \<or> form = exponent_form\<close> by metis
    show ?thesis
      using lex_parts [OF f(2), of s y] parse_float_parts [OF f(2,3,4)] x by (simp add: lit f(1))
  qed
qed

text \<open>
  The text of a number is a JSON number, and reading it gives the number back, bit for bit.
\<close>

theorem float_text_roundtrip:
  assumes "json_float x = Some lit" and "f64_ok x"
  shows "number_lit lit \<and> parse_float lit = Some x"
  using assms by (rule float_text_roundtrip_bits)

lemma demo_scales:
  "scale_ten False 1 1 = Fin False 5629499534213120 (- 49)" "scale_ten False 0 1 = fzero"
  "scale_ten False 2 0 = Fin False 4503599627370496 (- 51)"
  "scale_ten False 1 (- 6) = Fin False 4722366482869645 (- 72)" "scale_ten False 1 21 = Fin False 7629394531250000 17"
  by (simp_all add: scale_ten_def f64_eval)

theorem float_text_roundtrip_witness:
  "json_float (Fin False 4503599627370496 (- 51)) = Some ''2'' \<and> parse_float ''2'' = Some (Fin False 4503599627370496 (- 51))"
proof -
  let ?x = "Fin False 4503599627370496 (- 51)"
  have d: "nat_digits 2 [] = ''2''" by code_simp
  have t: "ten_above 4503599627370496 2251799813685248 = 1" by (simp add: ten_above_def d)
  note s = demo_scales demo_scales [unfolded One_nat_def]
  have n: "near_decimal False ?x 4503599627370496 2251799813685248 1 = None"
    "near_decimal False ?x 4503599627370496 2251799813685248 0 = Some 2"
    by (simp_all add: near_decimal_def s)
  have "shortest 20 False ?x 4503599627370496 2251799813685248 1 = Some (2, 0)"
    using shortest.simps(2) [of 19 False ?x 4503599627370496 2251799813685248 1]
      shortest.simps(2) [of 18 False ?x 4503599627370496 2251799813685248 0] n by simp
  moreover have "\<not> flt ?x (scale_ten False 1 (- 6))" "\<not> fle (scale_ten False 1 21) ?x"
    by (simp_all add: s fle_def mant_at_def sgn_nat_def)
  ultimately have "json_float ?x = Some ''2''"
    using t by (simp add: json_float_def plain_form_def d Let_def)
  from this float_text_roundtrip [OF this] show ?thesis by simp
qed

end
