(* ===== verification/Float_Digits.thy ===== *)
theory Float_Digits
  imports Float_Text Go_Float_Facts
begin

text \<open>
  The search for the text of a number always succeeds: 17 significant digits determine a double,
  so the fuel of \<open>shortest\<close> is never used up, and every finite number has a JSON text.
\<close>

section \<open>Numbers that round to a given double\<close>

lemma rne_real_near: "\<bar>x - of_int k\<bar> < 1 / 2 \<Longrightarrow> rne_real x = k"
  using rne_real_dist [of x] by linarith

lemma abs_scaled: "0 \<le> a \<Longrightarrow> a \<le> 1 / 2 \<Longrightarrow> 0 < t \<Longrightarrow> \<bar>a * t\<bar> \<le> t / (2 :: real)"
  using mult_right_mono [of a "1 / 2" t] by simp

lemma round_exp_at:
  fixes y :: real
  assumes "2 powr (of_int e + 52) \<le> y" and "y < 2 powr (of_int e + 53)" and "- 1074 \<le> e"
  shows "round_exp y = e"
proof -
  have "0 < y" using assms(1) by (smt (verit) powr_gt_zero)
  then have "\<lfloor>log 2 y\<rfloor> = e + 52" using assms(1,2) by (subst floor_log_eq_powr_iff) (simp_all add: add.commute)
  then show ?thesis using assms(3) by (simp add: round_exp_def)
qed

lemma round_exp_small:
  fixes y :: real
  assumes "0 < y" and "y < 2 powr (- 1021)" shows "round_exp y = - 1074"
proof -
  have "log 2 y < - 1021" using assms by (subst log_less_iff) simp_all
  then have "\<lfloor>log 2 y\<rfloor> < - 1021" by linarith
  then show ?thesis unfolding round_exp_def by linarith
qed

lemma round_real_at:
  assumes "round_exp y = e" and "0 < y" and "\<bar>y - real m * 2 powr of_int e\<bar> < 2 powr of_int e / 2"
  shows "round_real s y = f64_make s m e"
proof -
  let ?u = "2 powr of_int e :: real"
  have u: "0 < ?u" by simp
  then have "y * 2 powr - of_int e - real m = (y - real m * ?u) / ?u"
    by (simp add: powr_minus field_simps)
  then have "\<bar>y * 2 powr - of_int e - of_int (int m)\<bar> < 1 / 2"
    using assms(3) u by (simp add: abs_divide divide_less_eq)
  then have "rne_real (y * 2 powr - of_int e) = int m" by (rule rne_real_near)
  then show ?thesis using assms(1,2) by (simp add: round_real_def)
qed

text \<open>Just below a power of two the spacing is halved.\<close>

lemma round_real_below_power:
  assumes "f64_ok (Fin s (2 ^ 52) e)" and "0 < y" and "e \<noteq> - 1074" and below: "y < 2 powr (of_int e + 52)"
    and quarter: "\<bar>y - 2 ^ 52 * 2 powr of_int e\<bar> < 2 powr of_int e / 4"
  shows "round_real s y = Fin s (2 ^ 52) e"
proof -
  have ok: "- 1074 \<le> e" "e \<le> 971" using assms(1) by auto
  define v :: real where "v = 2 powr of_int (e - 1)"
  have v: "0 < v" and two: "2 powr of_int e = 2 * v" by (simp_all add: v_def powr_diff)
  have near: "\<bar>y - real (2 ^ 53) * v\<bar> < v / 2" using quarter unfolding two by simp
  have "2 powr (of_int (e - 1) + 53) = 2 powr (of_int e + 52 :: real)" by (simp add: add.commute)
  then have hi: "y < 2 powr (of_int (e - 1) + 53)" using below by simp
  have "2 ^ 53 * v - y < v / 2" using near abs_ge_minus_self [of "y - 2 ^ 53 * v"] by simp
  moreover have "2 ^ 52 * v \<le> 2 ^ 53 * v - v / 2" using v by simp
  ultimately have "2 ^ 52 * v \<le> y" by linarith
  then have "2 powr (of_int (e - 1) + 52) \<le> y" by (simp only: powr_add v_def) simp
  then have "round_exp y = e - 1" using assms(3) ok(1) by (intro round_exp_at hi) linarith+
  from round_real_at [OF this assms(2) near [unfolded v_def]] show ?thesis
    using ok by (simp add: f64_make_def)
qed

lemma round_real_near:
  assumes "f64_ok (Fin s m e)" and "0 < m" and "0 < y"
    and half: "\<bar>y - real m * 2 powr of_int e\<bar> < 2 powr of_int e / 2"
    and quarter: "m = 2 ^ 52 \<Longrightarrow> \<bar>y - real m * 2 powr of_int e\<bar> < 2 powr of_int e / 4"
  shows "round_real s y = Fin s m e"
proof -
  let ?u = "2 powr of_int e :: real"
  have u: "0 < ?u" by simp
  have ok: "m < 2 ^ 53" "- 1074 \<le> e" "e \<le> 971" "m < 2 ^ 52 \<Longrightarrow> e = - 1074" using assms(1) by auto
  have p53: "2 powr (of_int e + 53) = 2 ^ 53 * ?u" and p52: "2 powr (of_int e + 52) = 2 ^ 52 * ?u"
    by (simp_all add: powr_add)
  have "real m + 1 \<le> 2 ^ 53" using ok(1) by (simp flip: of_nat_Suc)
  then have "(real m + 1) * ?u \<le> 2 ^ 53 * ?u" using u by (intro mult_right_mono) simp_all
  then have "real m * ?u + ?u \<le> 2 ^ 53 * ?u" by (simp add: algebra_simps)
  then have up: "y < 2 powr (of_int e + 53)" using half u unfolding p53 abs_less_iff by linarith
  have same: "round_real s y = Fin s m e" if "round_exp y = e"
    using round_real_at [OF that assms(3) half] ok by (simp add: f64_make_def)
  consider "2 powr (of_int e + 52) \<le> y" | "e = - 1074" | "y < 2 powr (of_int e + 52)" "e \<noteq> - 1074" by linarith
  then show ?thesis
  proof cases
    case 1
    then show ?thesis using same round_exp_at [OF _ up ok(2)] by blast
  next
    case 2
    then show ?thesis using same round_exp_small [OF assms(3)] up by simp
  next
    case 3
    then have "2 ^ 52 \<le> m" using ok(4) by linarith
    moreover have "\<not> 2 ^ 52 + 1 \<le> m"
    proof
      assume "2 ^ 52 + 1 \<le> m"
      then have "(2 ^ 52 + 1) * ?u \<le> real m * ?u" using u by (intro mult_right_mono) (simp_all flip: of_nat_le_iff)
      then have "2 ^ 52 * ?u + ?u \<le> real m * ?u" by (simp add: algebra_simps)
      then show False using 3 half u unfolding p52 abs_less_iff by linarith
    qed
    ultimately have m: "m = 2 ^ 52" by linarith
    from quarter [OF m] have "\<bar>y - 2 ^ 52 * ?u\<bar> < ?u / 4" unfolding m by simp
    then show ?thesis using round_real_below_power [of s e y] assms(1,3) 3 m by simp
  qed
qed


section \<open>Seventeen digits are enough\<close>

lemma scale_ten_real: "scale_ten s n k = round_real s (real n * 10 powr of_int k)"
proof (cases "0 \<le> k")
  case True
  then show ?thesis by (simp add: scale_ten_def f64_round_eq powr_real_of_int)
next
  case False
  then show ?thesis by (simp add: scale_ten_def f64_round_eq powr_real_of_int divide_inverse)
qed

text \<open>A decimal of seventeen digits within half of its last place of a float rounds to that float.\<close>

lemma scale_ten_near:
  assumes "f64_ok (Fin s m e)" and "0 < m" and "0 < n"
    and big: "10 ^ 16 * 10 powr of_int k \<le> real m * 2 powr of_int e"
    and near: "\<bar>real n * 10 powr of_int k - real m * 2 powr of_int e\<bar> \<le> 10 powr of_int k / 2"
  shows "scale_ten s n k = Fin s m e"
proof -
  let ?t = "10 powr of_int k :: real"
  have m: "real m < 2 ^ 53" using assms(1) by (simp flip: of_nat_less_iff)
  have t: "0 < ?t" and u: "0 < (2 powr of_int e :: real)" by simp_all
  have half: "?t / 2 < 2 powr of_int e / 2"
  proof -
    have "10 ^ 16 * ?t < 2 ^ 53 * 2 powr of_int e" using big mult_strict_right_mono [OF m u] by linarith
    also have "\<dots> < 10 ^ 16 * 2 powr of_int e" using u by simp
    finally show ?thesis by simp
  qed
  have quarter: "?t / 2 < 2 powr of_int e / 4" if "m = 2 ^ 52"
  proof -
    have "10 ^ 16 * ?t \<le> 2 ^ 52 * 2 powr of_int e" using big that by simp
    also have "\<dots> < 10 ^ 16 * 2 powr of_int e / 2" using u by simp
    finally show ?thesis by simp
  qed
  show ?thesis unfolding scale_ten_real
    using assms(3) near half quarter t by (intro round_real_near [OF assms(1,2)]) (auto intro: le_less_trans)
qed

text \<open>The value whose text is sought, and the decimal on either side of it.\<close>

lemma near_decimal_found:
  assumes "f64_ok (Fin s m e)" and "0 < m" and "0 < q" and v: "real p / real q = real m * 2 powr of_int e"
    and k: "10 powr of_int (k + 16) \<le> real p / real q"
  shows "\<exists>n > 0. near_decimal s (Fin s m e) p q k = Some n"
proof -
  let ?v = "real m * 2 powr of_int e" and ?t = "10 powr of_int k :: real" and ?x = "Fin s m e"
  obtain p' q' where pq: "(if 0 \<le> k then (p, q * 10 ^ nat k) else (p * 10 ^ nat (- k), q)) = (p', q')" by fastforce
  have t: "0 < ?t" and q': "0 < q'" using assms(3) pq by (auto split: if_splits)
  have "real p' / real q' = real p / real q / ?t"
    using pq by (auto simp: powr_real_of_int divide_inverse split: if_splits)
  then have frac: "real p' / real q' = ?v / ?t" by (simp only: v)
  define lo where "lo = p' div q'"
  define r where "r = real (p' mod q') / real q'"
  have "real p' = real lo * real q' + real (p' mod q')" unfolding lo_def by (metis div_mult_mod_eq of_nat_add of_nat_mult)
  then have "?v / ?t = real lo + r" using q' unfolding r_def frac [symmetric] by (simp add: field_simps)
  then have vt: "?v = (real lo + r) * ?t" using t by (simp add: field_simps)
  have r: "0 \<le> r" "r < 1" using q' by (simp_all add: r_def)
  have big: "10 ^ 16 * ?t \<le> ?v" using k unfolding v by (simp add: powr_add mult.commute)
  then have "10 ^ 16 \<le> real lo + r" using t unfolding vt by simp
  then have lo0: "0 < lo" using r(2) by (cases lo) simp_all
  have good: "scale_ten s n k = ?x" if "\<bar>real n * ?t - ?v\<bar> \<le> ?t / 2" "0 < n" for n
    using that by (intro scale_ten_near assms(1,2) big)
  have nd: "near_decimal s ?x p q k =
      (if scale_ten s lo k = ?x \<and> (2 * (p' mod q') \<le> q' \<or> \<not> scale_ten s (lo + 1) k = ?x) then Some lo
       else if scale_ten s (lo + 1) k = ?x then Some (lo + 1) else None)"
    by (simp only: near_decimal_def Let_def pq prod.case lo_def)
  have dlo: "real lo * ?t - ?v = - (r * ?t)" and dhi: "real (lo + 1) * ?t - ?v = (1 - r) * ?t"
    unfolding vt by (simp_all add: algebra_simps)
  show ?thesis
  proof (cases "2 * (p' mod q') \<le> q'")
    case True
    then have "r \<le> 1 / 2" using q' unfolding r_def by (simp add: divide_le_eq)
    then have "\<bar>real lo * ?t - ?v\<bar> \<le> ?t / 2" unfolding dlo abs_minus_cancel using r t by (intro abs_scaled) simp_all
    then have "scale_ten s lo k = ?x" using good lo0 by blast
    then have "near_decimal s ?x p q k = Some lo" unfolding nd using True by (simp only: if_True simp_thms)
    then show ?thesis using lo0 by blast
  next
    case False
    then have "1 / 2 \<le> r" using q' unfolding r_def by (simp add: le_divide_eq)
    then have "\<bar>real (lo + 1) * ?t - ?v\<bar> \<le> ?t / 2" unfolding dhi using r t by (intro abs_scaled) simp_all
    then have hi: "scale_ten s (lo + 1) k = ?x" by (rule good) simp
    then have "near_decimal s ?x p q k = Some (lo + 1)" unfolding nd using False by (simp only: if_True if_False simp_thms)
    then show ?thesis by (intro exI [of _ "lo + 1"]) simp
  qed
qed

lemma shortest_found:
  assumes "\<exists>n > 0. near_decimal s x p q (k - int j) = Some n" and "j < fuel"
  shows "shortest fuel s x p q k \<noteq> None"
  using assms
proof (induction fuel arbitrary: k j)
  case (Suc fuel)
  show ?case
  proof (cases j)
    case 0
    then show ?thesis using Suc.prems by auto
  next
    case (Suc i)
    then have "shortest fuel s x p q (k - 1) \<noteq> None"
      using Suc.IH [of "k - 1" i] Suc.prems by (simp add: algebra_simps)
    then show ?thesis by (auto split: option.split)
  qed
qed simp

section \<open>Where the search starts\<close>

lemma nat_digits_length:
  assumes "0 < n" shows "10 ^ (length (nat_digits n []) - 1) \<le> n \<and> n < 10 ^ length (nat_digits n [])"
  using assms
proof (induction n rule: less_induct)
  case (less n)
  show ?case
  proof (cases "n < 10")
    case True
    then show ?thesis using less.prems by (simp add: nat_digits.simps [of n])
  next
    case False
    let ?d = "length (nat_digits (n div 10) [])"
    have "nat_digits n [] = nat_digits (n div 10) [] @ [char_of (48 + n mod 10)]"
      using False by (simp add: nat_digits.simps [of n] nat_digits_append [of "n div 10" "[_]"])
    then have l: "length (nat_digits n []) = Suc ?d" by simp
    have d: "10 ^ (?d - 1) \<le> n div 10" "n div 10 < 10 ^ ?d" using less.IH [of "n div 10"] False by simp_all
    have "0 < ?d" by simp
    then have "10 ^ ?d = 10 * 10 ^ (?d - 1)" by (simp flip: power_Suc)
    also have "\<dots> \<le> 10 * (n div 10)" using d(1) by simp
    also have "\<dots> \<le> n" by simp
    finally have "10 ^ ?d \<le> n" .
    moreover have "n < 10 * 10 ^ ?d" using d(2) by linarith
    ultimately show ?thesis by (simp add: l)
  qed
qed

lemma ten_above_le:
  assumes "0 < p" and "0 < q" shows "10 powr of_int (ten_above p q - 1) \<le> real p / real q"
proof (cases "q \<le> p")
  case True
  let ?d = "p div q"
  have "0 < ?d" using assms True by (simp add: div_greater_zero_iff)
  let ?l = "length (nat_digits ?d [])"
  have "0 < ?l" by simp
  then have "real_of_int (ten_above p q - 1) = real (?l - 1)" using True \<open>0 < ?l\<close> by (simp add: ten_above_def of_nat_diff Suc_le_eq)
  then have "10 powr of_int (ten_above p q - 1) = (10::real) ^ (?l - 1)" by (simp only: powr_realpow)
  also have "\<dots> \<le> real ?d" using nat_digits_length [OF \<open>0 < ?d\<close>] by (simp flip: of_nat_power of_nat_le_iff)
  also have "\<dots> \<le> real p / real q" by (rule of_nat_div_le_of_nat)
  finally show ?thesis .
next
  case False
  let ?d = "(q - 1) div p"
  have "0 < ?d" using assms False by (simp add: div_greater_zero_iff)
  let ?l = "length (nat_digits ?d [])"
  have "?d < 10 ^ ?l" using nat_digits_length [OF \<open>0 < ?d\<close>] by simp
  then have "q - 1 < 10 ^ ?l * p" using assms(1) by (simp add: div_less_iff_less_mult)
  then have "q \<le> 10 ^ ?l * p" by linarith
  then have "real q \<le> real (10 ^ ?l * p)" by (rule of_nat_mono)
  then have "real q \<le> 10 ^ ?l * real p" by simp
  then have "1 / 10 ^ ?l \<le> real p / real q" using assms by (simp add: field_simps)
  moreover have "10 powr of_int (ten_above p q - 1) = (1::real) / 10 ^ ?l"
    using False by (simp add: ten_above_def powr_minus powr_realpow divide_inverse)
  ultimately show ?thesis by simp
qed

text \<open>
  Every finite number has a JSON text: the search for its digits finds them before its fuel is
  used up.
\<close>

theorem json_float_total:
  assumes "f64_ok x" and "is_fin x"
  shows "json_float x \<noteq> None"
proof -
  obtain s m e where x: "x = Fin s m e" using assms(2) by (cases x) auto
  show ?thesis
  proof (cases "m = 0")
    case False
    obtain p q :: nat where pq: "(if 0 \<le> e then (m * 2 ^ nat e, 1) else (m, 2 ^ nat (- e))) = (p, q)" by fastforce
    have pos: "0 < p" "0 < q" and v: "real p / real q = real m * 2 powr of_int e"
      using False pq by (auto simp: powr_real_of_int divide_inverse split: if_splits)
    have "10 powr of_int (ten_above p q - int 17 + 16) \<le> real p / real q"
      using ten_above_le [OF pos] by simp
    from near_decimal_found [OF _ _ pos(2) v this, of s] assms(1) x False
    have "\<exists>n > 0. near_decimal s x p q (ten_above p q - int 17) = Some n" by simp
    from shortest_found [OF this, of 20] show ?thesis
      using False pq x by (auto simp: json_float_def Let_def)
  qed (simp add: json_float_def x)
qed

theorem json_float_total_witness: "json_float (Fin True 4503599627370497 971) \<noteq> None"
  by (rule json_float_total) simp_all

end
