(* ===== verification/OpenAI.thy ===== *)
theory OpenAI
  imports Event_Stream Float_Digits
begin

text \<open>
  The adapter for OpenAI-compatible providers, \<^verbatim>\<open>internal/egress/openai.go\<close>: the request
  body, the answer, and the stream of server-sent events with its line scanner. The HTTP client
  is a parameter; the goroutine that fills the channel is the list of the chunks it sends.
\<close>

section \<open>The code\<close>

record 'w OpenAICompatible =
  oa_name :: string
  oa_baseURL :: string
  oa_apiKey :: string
  oa_models :: "string list"
  oa_client :: "'w HttpClient"

text \<open>\<open>mk\<close> makes the client with a timeout.\<close>

definition NewOpenAICompatible :: "(duration \<Rightarrow> 'w HttpClient) \<Rightarrow> string \<Rightarrow> string \<Rightarrow> string \<Rightarrow> string list \<Rightarrow>
    duration \<Rightarrow> 'w OpenAICompatible" where
  "NewOpenAICompatible mk name baseURL apiKey models timeout =
     \<lparr>oa_name = name, oa_baseURL = baseURL, oa_apiKey = apiKey, oa_models = models, oa_client = mk timeout\<rparr>"

text \<open>Both kinds of provider check their health in the same way.\<close>

definition get_base :: "'w HttpClient \<Rightarrow> string \<Rightarrow> 'w \<Rightarrow> go_error option \<times> 'w" where
  "get_base cl url w =
     (case http_send cl \<lparr>hq_method = ''GET'', hq_url = url, hq_headers = [], hq_body = [],
                        hq_deadline = Some (2 * 1000000000)\<rparr> w of
        (Inl e, w) \<Rightarrow> (Some e, w)
      | (Inr a, w) \<Rightarrow> (None, w))"

definition oa_HealthCheck :: "'w OpenAICompatible \<Rightarrow> 'w \<Rightarrow> go_error option \<times> 'w" where
  "oa_HealthCheck p w = get_base (oa_client p) (oa_baseURL p) w"

text \<open>
  The body is a map, whose members are written in the order of their names. A message list
  that is empty is written as an empty array. Only a temperature that is not a number, which no
  request read from JSON has, could make this fail.
\<close>

definition oa_buildRequestBody :: "StandardRequest \<Rightarrow> go_error + string" where
  "oa_buildRequestBody req =
     (let temperature = (case req_temperature req of None \<Rightarrow> Some []
            | Some t \<Rightarrow> map_option (\<lambda>lit. [(''temperature'', JNum lit)]) (json_float t))
      in case temperature of
           None \<Rightarrow> Inl (OtherErr ''json: unsupported value: NaN'')
         | Some temperature \<Rightarrow>
             Inr (encode (JObj (
               (case req_maxTokens req of None \<Rightarrow> [] | Some n \<Rightarrow> [(''max_tokens'', JNum (itoa n))]) @
               [(''messages'', JArr (map enc_Message (req_messages req))),
                (''model'', JStr (req_model req)), (''stream'', JBool (req_stream req))] @ temperature))))"

definition oa_request :: "'w OpenAICompatible \<Rightarrow> string \<Rightarrow> HttpRequest" where
  "oa_request p body =
     \<lparr>hq_method = ''POST'', hq_url = oa_baseURL p @ ''/chat/completions'',
      hq_headers = [(''Authorization'', ''Bearer '' @ oa_apiKey p), (''Content-Type'', ''application/json'')],
      hq_body = body, hq_deadline = None\<rparr>"

definition oa_Send :: "'w OpenAICompatible \<Rightarrow> StandardRequest \<Rightarrow> 'w \<Rightarrow> (go_error + StandardResponse) \<times> 'w" where
  "oa_Send p req w =
     (case oa_buildRequestBody req of
        Inl e \<Rightarrow> (Inl e, w)
      | Inr body \<Rightarrow>
          (case http_send (oa_client p) (oa_request p body) w of
             (Inl e, w) \<Rightarrow> (Inl e, w)
           | (Inr resp, w) \<Rightarrow>
               if ha_code resp \<ge> 400
               then (Inl (new_error ErrCodeProviderError (ha_status resp @ '': '' @ ha_body resp)), w)
               else (case decode_body (oa_client p) dec_StandardResponse zero_response resp of
                       Inl e \<Rightarrow> (Inl e, w)
                     | Inr out \<Rightarrow> (Inr (out\<lparr>rs_provider := oa_name p\<rparr>), w))))"

subsection \<open>Streams\<close>

text \<open>What is read of an event: the first choice's delta.\<close>

record SSEChunk =
  se_id :: string
  se_model :: string
  se_choices :: "Delta list option"

definition zero_sse :: SSEChunk where
  "zero_sse = \<lparr>se_id = '''', se_model = '''', se_choices = None\<rparr>"

definition dec_Delta :: "Delta decoder" where
  "dec_Delta = dec_struct (\<lambda>k v d.
     if field_is ''role'' k then map_option (\<lambda>s. d\<lparr>dl_role := s\<rparr>) (dec_string v (dl_role d))
     else if field_is ''content'' k then map_option (\<lambda>s. d\<lparr>dl_content := s\<rparr>) (dec_string v (dl_content d))
     else Some d)"

definition dec_sse_choice :: "Delta decoder" where
  "dec_sse_choice = dec_struct (\<lambda>k v d. if field_is ''delta'' k then dec_Delta v d else Some d)"

definition dec_SSEChunk :: "SSEChunk decoder" where
  "dec_SSEChunk = dec_struct (\<lambda>k v r.
     if field_is ''id'' k then map_option (\<lambda>s. r\<lparr>se_id := s\<rparr>) (dec_string v (se_id r))
     else if field_is ''model'' k then map_option (\<lambda>s. r\<lparr>se_model := s\<rparr>) (dec_string v (se_model r))
     else if field_is ''choices'' k then
       map_option (\<lambda>cs. r\<lparr>se_choices := cs\<rparr>) (dec_slice zero_delta dec_sse_choice v (se_choices r))
     else Some r)"

text \<open>The chunk, whether the stream is done, or the JSON error of the payload.\<close>

definition parseSSELine :: "string \<Rightarrow> (string \<times> json_error) + (StreamChunk \<times> bool)" where
  "parseSSELine line =
     (let line = trim_space line in
      if line = [] \<or> \<not> has_prefix line ''data:'' then Inr (zero_chunk, False)
      else
        let payload = trim_space (trim_prefix line ''data:'') in
        if payload = ''[DONE]'' then Inr (zero_chunk\<lparr>sc_done := True\<rparr>, True)
        else case decode_with dec_SSEChunk zero_sse (parse_document payload) of
               Inl e \<Rightarrow> Inl (payload, e)
             | Inr raw \<Rightarrow>
                 let chunk = zero_chunk\<lparr>sc_id := se_id raw, sc_model := se_model raw\<rparr>;
                     chunk = (case se_choices raw of
                                Some (d # _) \<Rightarrow> chunk\<lparr>sc_delta := d\<rparr>
                              | _ \<Rightarrow> chunk)
                 in Inr (chunk, False))"

definition error_chunk :: "string \<Rightarrow> StreamChunk" where
  "error_chunk text = zero_chunk\<lparr>sc_error := Some (NewError ErrCodeProviderError text)\<rparr>"

text \<open>The goroutine: what it sends for the scanned lines, and the scanner's error at the end.\<close>

fun oa_chunks :: "(string \<Rightarrow> json_error \<Rightarrow> string) \<Rightarrow> string list \<Rightarrow> string option \<Rightarrow> StreamChunk list" where
  "oa_chunks text [] scanErr = (case scanErr of None \<Rightarrow> [] | Some e \<Rightarrow> [error_chunk e])"
| "oa_chunks text (line # ls) scanErr =
     (case parseSSELine line of
        Inl (payload, e) \<Rightarrow> [error_chunk (text payload e)]
      | Inr (chunk, done) \<Rightarrow>
          if done then [chunk]
          else if sc_id chunk \<noteq> '''' \<or> dl_content (sc_delta chunk) \<noteq> '''' then chunk # oa_chunks text ls scanErr
          else oa_chunks text ls scanErr)"

definition oa_stream_request :: "string \<Rightarrow> string \<Rightarrow> string \<Rightarrow> HttpRequest" where
  "oa_stream_request url apiKey body =
     \<lparr>hq_method = ''POST'', hq_url = url,
      hq_headers = [(''Authorization'', ''Bearer '' @ apiKey), (''Content-Type'', ''application/json''),
                    (''Accept'', ''text/event-stream'')],
      hq_body = body, hq_deadline = None\<rparr>"

definition streamOpenAI :: "'w HttpClient \<Rightarrow> string \<Rightarrow> string \<Rightarrow> string \<Rightarrow> 'w \<Rightarrow> (go_error + StreamChunk list) \<times> 'w" where
  "streamOpenAI cl url apiKey body w =
     (case http_send cl (oa_stream_request url apiKey body) w of
        (Inl e, w) \<Rightarrow> (Inl e, w)
      | (Inr resp, w) \<Rightarrow>
          if ha_code resp \<ge> 400
          then (Inl (new_error ErrCodeProviderError (ha_status resp @ '': '' @ ha_body resp)), w)
          else let (ls, scanErr) = scan_body resp in (Inr (oa_chunks (hc_jsonText cl) ls scanErr), w))"

definition oa_SendStream :: "'w OpenAICompatible \<Rightarrow> StandardRequest \<Rightarrow> 'w \<Rightarrow> (go_error + StreamChunk list) \<times> 'w" where
  "oa_SendStream p req w =
     (let req = req\<lparr>req_stream := True\<rparr> in
      case oa_buildRequestBody req of
        Inl e \<Rightarrow> (Inl e, w)
      | Inr body \<Rightarrow> streamOpenAI (oa_client p) (oa_baseURL p @ ''/chat/completions'') (oa_apiKey p) body w)"

text \<open>The adapter as a provider.\<close>

definition openai_provider :: "'w OpenAICompatible \<Rightarrow> 'w Provider" where
  "openai_provider p = \<lparr>pv_name = oa_name p, pv_models = oa_models p, pv_send = oa_Send p,
     pv_stream = oa_SendStream p, pv_health = oa_HealthCheck p\<rparr>"


section \<open>What the upstream is asked\<close>

lemma more_fold_names:
  "fold_name ''delta'' = [68, 69, 76, 84, 65]"
  "fold_name ''object'' = [79, 66, 74, 69, 67, 84]"
  by (simp_all add: fold_name_ascii byte_def)

lemma more_valid_keys [simp]:
  "valid_utf8 ''messages''" "valid_utf8 ''stream''" "valid_utf8 ''temperature''" "valid_utf8 ''max_tokens''"
  "valid_utf8 ''delta''" "valid_utf8 ''object''" "valid_utf8 ''chat.completion.chunk''"
  by (rule valid_utf8_ascii, simp add: byte_def)+

definition request_ok :: "StandardRequest \<Rightarrow> bool" where
  "request_ok req \<longleftrightarrow> valid_utf8 (req_model req) \<and> list_all message_ok (req_messages req) \<and>
     (case req_temperature req of None \<Rightarrow> True | Some t \<Rightarrow> f64_ok t) \<and>
     (case req_maxTokens req of None \<Rightarrow> True | Some n \<Rightarrow> in_int64 n)"

text \<open>The part of a request that is sent to the provider.\<close>

definition upstream_part :: "StandardRequest \<Rightarrow> StandardRequest" where
  "upstream_part req = zero_request\<lparr>req_model := req_model req, req_messages := req_messages req,
     req_stream := req_stream req, req_temperature := req_temperature req, req_maxTokens := req_maxTokens req\<rparr>"

lemma enc_Message_ok: "message_ok m \<Longrightarrow> json_ok (enc_Message m)" "depth (enc_Message m) = 1"
  by (simp_all add: enc_Message_def message_ok_def)

lemma depth_messages: "foldr max (map depth (map enc_Message ms)) 0 \<le> 1"
  by (induction ms) (simp_all add: enc_Message_ok)

lemma dec_messages: "dec_elems zero_message dec_Message (map enc_Message ms) xs = Some ms"
  by (induction ms arbitrary: xs) (simp_all add: dec_Message_enc)

lemma upstream_body_reads:
  assumes "oa_buildRequestBody req = Inr body" and "request_ok req"
  shows "ParseStandardRequest body = Inr (upstream_part req)"
proof -
  obtain ts where ts: "body = encode (JObj (
       (case req_maxTokens req of None \<Rightarrow> [] | Some n \<Rightarrow> [(''max_tokens'', JNum (itoa n))]) @
       [(''messages'', JArr (map enc_Message (req_messages req))),
        (''model'', JStr (req_model req)), (''stream'', JBool (req_stream req))] @ ts))"
    and tj: "case req_temperature req of None \<Rightarrow> ts = [] | Some t \<Rightarrow>
       \<exists>lit. ts = [(''temperature'', JNum lit)] \<and> number_lit lit \<and> parse_float lit = Some t"
    using assms float_text_roundtrip_bits
    by (auto simp: oa_buildRequestBody_def request_ok_def split: option.splits)
  let ?j = "JObj ((case req_maxTokens req of None \<Rightarrow> [] | Some n \<Rightarrow> [(''max_tokens'', JNum (itoa n))]) @
       [(''messages'', JArr (map enc_Message (req_messages req))),
        (''model'', JStr (req_model req)), (''stream'', JBool (req_stream req))] @ ts)"
  have ok: "json_ok ?j"
    using assms(2) tj by (auto simp: request_ok_def enc_Message_ok number_lit_itoa list_all_iff split: option.splits)
  have "depth ?j \<le> 3"
    using tj depth_messages [of "req_messages req"] by (auto split: option.splits)
  then have "depth ?j \<le> maxNestingDepth" by (simp add: maxNestingDepth_def)
  then have "parse_document body = Inr ?j" using parse_document_encode [OF ok, of "[]"] ts by simp
  moreover have "dec_StandardRequest ?j zero_request = Some (upstream_part req)"
    using assms(2) tj
    by (auto simp: dec_StandardRequest_def dec_struct_def field_is_def fold_names request_fold_names more_fold_names dec_slice_def
        dec_messages dec_pointer_def atoi_itoa request_ok_def upstream_part_def zero_request_def split: option.splits)
  ultimately show ?thesis by (simp add: ParseStandardRequest_def decode_with_def)
qed

lemma upstream_body_exists:
  assumes "case req_temperature req of None \<Rightarrow> True | Some t \<Rightarrow> is_fin t" and "request_ok req"
  shows "\<exists>body. oa_buildRequestBody req = Inr body"
  using assms json_float_total
  by (auto simp: oa_buildRequestBody_def request_ok_def Let_def split: option.splits)

text \<open>
  C32. The provider is asked what the client asked: a body is always built, unless the temperature
  is not a number, and read as a request it has the model, the messages in their order, the
  stream flag, the temperature (bit for bit) and the token limit of the request, and nothing
  else.
\<close>

theorem upstream_body_roundtrip:
  assumes "request_ok req" and "case req_temperature req of None \<Rightarrow> True | Some t \<Rightarrow> is_fin t"
  shows "\<exists>body. oa_buildRequestBody req = Inr body \<and> ParseStandardRequest body = Inr (upstream_part req)"
  using upstream_body_exists [OF assms(2,1)] upstream_body_reads assms(1) by blast

definition demo_upstream_request :: StandardRequest where
  "demo_upstream_request = zero_request\<lparr>req_id := ''r'', req_model := ''m'',
     req_messages := [\<lparr>msg_role = ''user'', msg_content = ''hi''\<rparr>], req_maxTokens := Some 9\<rparr>"

theorem upstream_body_roundtrip_witness:
  "\<exists>body. oa_buildRequestBody demo_upstream_request = Inr body \<and>
     ParseStandardRequest body = Inr (demo_upstream_request\<lparr>req_id := ''''\<rparr>)"
proof -
  have "valid_utf8 ''m''" "valid_utf8 ''user''" "valid_utf8 ''hi''" by (simp_all add: valid_utf8_ascii byte_def)
  then have "request_ok demo_upstream_request"
    by (simp add: request_ok_def demo_upstream_request_def zero_request_def message_ok_def in_int64_def
        min_int64_def max_int64_def)
  moreover have "case req_temperature demo_upstream_request of None \<Rightarrow> True | Some t \<Rightarrow> is_fin t"
    by (simp add: demo_upstream_request_def zero_request_def)
  ultimately have "\<exists>body. oa_buildRequestBody demo_upstream_request = Inr body \<and>
      ParseStandardRequest body = Inr (upstream_part demo_upstream_request)"
    by (rule upstream_body_roundtrip)
  then show ?thesis by (simp add: upstream_part_def demo_upstream_request_def zero_request_def)
qed

section \<open>Answers\<close>

lemma decode_body_object:
  assumes "json_ok (JObj ms)" and "depth (JObj ms) \<le> maxNestingDepth" and "ha_body a = encode (JObj ms) @ t"
    and "\<forall>c \<in> set t. is_ws c" and "dec (JObj ms) z = Some x"
  shows "decode_body cl dec z a = Inr x"
proof -
  have "number_stop t" using assms(4) by (cases t) simp_all
  then have "parse_value maxNestingDepth (ha_body a) = Got (JObj ms) t"
    using parse_value_encode [OF assms(1,2)] assms(3) by (simp add: parses_def)
  then show ?thesis using assms(5) by (simp add: decode_body_def)
qed

text \<open>
  A response is passed on as the upstream wrote it: when the provider answers with the JSON
  of a response, the adapter returns that response, with only the provider's name changed to
  its own; an HTTP status of 400 or more becomes a provider error with the status and the body.
\<close>

theorem openai_answer:
  assumes "oa_buildRequestBody req = Inr body"
    and "http_send (oa_client p) (oa_request p body) w = (Inr a, w')"
    and "ha_code a < 400 \<Longrightarrow> response_ok r \<and> ha_body a = marshal_response r"
  shows "oa_Send p req w = (if ha_code a < 400 then Inr (r\<lparr>rs_provider := oa_name p\<rparr>)
      else Inl (new_error ErrCodeProviderError (ha_status a @ '': '' @ ha_body a)), w')"
proof (cases "ha_code a < 400")
  case True
  from assms(3) [OF this] have r: "response_ok r" "ha_body a = marshal_response r" by simp_all
  obtain ms where ms: "enc_StandardResponse r = JObj ms" by (simp add: enc_StandardResponse_def)
  have d: "depth (JObj ms) \<le> maxNestingDepth"
    using depth_response [of r] ms by (simp add: maxNestingDepth_def)
  have dec: "dec_StandardResponse (JObj ms) zero_response = Some r"
    using dec_response_enc [OF r(1)] ms by simp
  have "decode_body (oa_client p) dec_StandardResponse zero_response a = Inr r"
    by (rule decode_body_object [OF _ d, of a "[]"])
      (use json_ok_response [OF r(1)] r(2) ms dec in \<open>simp_all add: marshal_response_def\<close>)
  then show ?thesis using assms(1,2) True by (simp add: oa_Send_def)
next
  case False
  then show ?thesis using assms(1,2) by (simp add: oa_Send_def)
qed

definition demo_http :: "int \<Rightarrow> string \<Rightarrow> unit HttpClient" where
  "demo_http code body = \<lparr>hc_urlErr = (\<lambda>_. None),
     hc_do = (\<lambda>r w. (Inr \<lparr>ha_code = code, ha_status = ''200 OK'', ha_body = body, ha_bodyErr = None\<rparr>, w)),
     hc_jsonText = (\<lambda>_ _. ''json'')\<rparr>"

definition demo_answer :: StandardResponse where
  "demo_answer = zero_response\<lparr>rs_id := ''x'', rs_choices := Some []\<rparr>"

lemma demo_answer_ok: "response_ok demo_answer"
proof -
  have "valid_utf8 ''x''" "valid_utf8 ''''" by (simp_all add: valid_utf8_ascii byte_def)
  then show ?thesis by (simp add: response_ok_def demo_answer_def zero_response_def zero_usage_def in_int64_def
      min_int64_def max_int64_def)
qed

theorem openai_answer_witness:
  "fst (oa_Send (NewOpenAICompatible (\<lambda>_. demo_http 200 (marshal_response demo_answer)) ''p'' ''http://h'' ''k'' [''m''] 0)
     demo_upstream_request ()) = Inr (demo_answer\<lparr>rs_provider := ''p''\<rparr>)"
proof -
  let ?p = "NewOpenAICompatible (\<lambda>_. demo_http 200 (marshal_response demo_answer)) ''p'' ''http://h'' ''k'' [''m''] 0"
  let ?a = "\<lparr>ha_code = 200, ha_status = ''200 OK'', ha_body = marshal_response demo_answer, ha_bodyErr = None\<rparr>"
  obtain body where b: "oa_buildRequestBody demo_upstream_request = Inr body"
    by (simp add: oa_buildRequestBody_def demo_upstream_request_def zero_request_def)
  have "http_send (oa_client ?p) (oa_request ?p body) () = (Inr ?a, ())"
    by (simp add: NewOpenAICompatible_def demo_http_def http_send_def)
  from openai_answer [OF b this, of demo_answer] demo_answer_ok show ?thesis
    by (simp add: NewOpenAICompatible_def)
qed

section \<open>Streams\<close>

lemma parseSSELine_no_error: "parseSSELine line = Inr (c, done) \<Longrightarrow> \<not> is_error c"
  by (auto simp: parseSSELine_def is_error_def zero_chunk_def Let_def split: if_splits sum.splits option.splits list.splits)

lemma oa_chunks_errors_last: "\<forall>c \<in> set (butlast (oa_chunks text ls e)). \<not> is_error c"
proof (induction ls)
  case Nil
  then show ?case by (simp split: option.split)
next
  case (Cons line ls)
  then show ?case
    using parseSSELine_no_error [of line] by (auto split: sum.split prod.split)
qed

lemma openai_stream_errors_last:
  assumes "oa_SendStream p req w = (Inr chunks, w')"
  shows "\<forall>c \<in> set (butlast chunks). \<not> is_error c"
  using assms oa_chunks_errors_last
  by (auto simp: oa_SendStream_def streamOpenAI_def Let_def split: sum.splits prod.splits if_splits)

interpretation openai: chat_provider "openai_provider p" for p :: "'w OpenAICompatible"
proof
  show "rs_provider resp = pv_name (openai_provider p)" if "pv_send (openai_provider p) req w = (Inr resp, w')" for req w resp w'
    using that by (auto simp: openai_provider_def oa_Send_def split: sum.splits prod.splits if_splits)
  show "\<forall>c \<in> set (butlast chunks). \<not> is_error c" if "pv_stream (openai_provider p) req w = (Inr chunks, w')" for req w chunks w'
    using openai_stream_errors_last that by (simp add: openai_provider_def)
qed

text \<open>The events of an OpenAI-compatible upstream, for chunks without an error.\<close>

definition openai_event :: "StreamChunk \<Rightarrow> (string \<times> json) list" where
  "openai_event c = [(''id'', JStr (sc_id c)), (''object'', JStr ''chat.completion.chunk''), (''model'', JStr (sc_model c)),
     (''choices'', JArr [JObj [(''index'', JNum ''0''),
        (''delta'', JObj (omit_empty ''role'' (dl_role (sc_delta c)) @ omit_empty ''content'' (dl_content (sc_delta c)))),
        (''finish_reason'', JNull)]])]"

definition done_line :: string where "done_line = ''data: [DONE]''"

definition openai_body :: "StreamChunk list \<Rightarrow> string" where
  "openai_body cs = concat (map (\<lambda>c. data_line (JObj (openai_event c)) @ [lf, lf]) cs) @ done_line @ [lf, lf]"

definition chunk_fits :: "StreamChunk \<Rightarrow> bool" where
  "chunk_fits c \<longleftrightarrow> valid_utf8 (sc_id c) \<and> valid_utf8 (sc_model c) \<and> valid_utf8 (dl_role (sc_delta c)) \<and>
     valid_utf8 (dl_content (sc_delta c)) \<and> length (data_line (JObj (openai_event c))) < MaxScanTokenSize \<and>
     (sc_id c \<noteq> '''' \<or> dl_content (sc_delta c) \<noteq> '''') \<and> \<not> sc_done c \<and> sc_error c = None"

lemma openai_event_ok: "chunk_fits c \<Longrightarrow> json_ok (JObj (openai_event c))"
proof -
  have "number_lit ''0''" by (simp add: number_lit_def lex_number_def lex_int_def lex_frac_def lex_exp_def)
  then show "chunk_fits c \<Longrightarrow> json_ok (JObj (openai_event c))"
    by (simp add: chunk_fits_def openai_event_def omit_empty_def)
qed

lemma parse_done_line: "parseSSELine done_line = Inr (zero_chunk\<lparr>sc_done := True\<rparr>, True)"
proof -
  have "trim_space done_line = done_line"
    using trim_space_visible [of "CHR ''d''" "CHR '']''" "''ata: [DONE''"] by (simp add: done_line_def)
  moreover have "trim_space ''[DONE]'' = ''[DONE]''"
    using trim_space_visible [of "CHR ''[''" "CHR '']''" "''DONE''"] by simp
  ultimately show ?thesis
    by (simp add: parseSSELine_def done_line_def has_prefix_def trim_prefix_def trim_space_leading)
qed

lemma parse_empty_line: "parseSSELine [] = Inr (zero_chunk, False)"
  by (simp add: parseSSELine_def)

lemma parse_event_line:
  assumes "chunk_fits c"
  shows "parseSSELine (data_line (JObj (openai_event c))) = Inr (c, False)"
proof -
  let ?j = "JObj (openai_event c)"
  have "depth ?j \<le> maxNestingDepth" by (simp add: openai_event_def omit_empty_def maxNestingDepth_def)
  then have p: "parse_document (encode ?j) = Inr ?j"
    using parse_document_encode [OF openai_event_ok [OF assms], of "[]"] by simp
  have "dec_SSEChunk ?j zero_sse = Some \<lparr>se_id = sc_id c, se_model = sc_model c, se_choices = Some [sc_delta c]\<rparr>"
    by (cases "sc_delta c") (auto simp: dec_SSEChunk_def openai_event_def dec_struct_def field_is_def fold_names request_fold_names more_fold_names zero_sse_def
        dec_slice_def dec_sse_choice_def dec_Delta_def omit_empty_def zero_delta_def)
  then have d: "decode_with dec_SSEChunk zero_sse (parse_document (encode ?j)) =
      Inr \<lparr>se_id = sc_id c, se_model = sc_model c, se_choices = Some [sc_delta c]\<rparr>"
    by (simp add: decode_with_def p del: encode.simps)
  have pay: "trim_space (trim_prefix (data_line ?j) ''data:'') = encode ?j"
    using trim_encode_obj [of "openai_event c"]
    by (simp add: data_line_def trim_prefix_def has_prefix_def trim_space_leading del: encode.simps)
  have "has_prefix (data_line ?j) ''data:''" "data_line ?j \<noteq> []" by (simp_all add: data_line_def has_prefix_def)
  moreover have "encode ?j \<noteq> ''[DONE]''" by simp
  moreover have "zero_chunk\<lparr>sc_id := sc_id c, sc_model := sc_model c, sc_delta := sc_delta c\<rparr> = c"
    using assms by (cases c) (simp add: zero_chunk_def chunk_fits_def)
  ultimately show ?thesis using d pay
    by (simp add: parseSSELine_def trim_data_line Let_def del: encode.simps)
qed

lemma scan_openai_body:
  assumes "\<forall>c \<in> set cs. chunk_fits c"
  shows "scan_lines MaxScanTokenSize (openai_body cs) =
    (concat (map (\<lambda>c. [data_line (JObj (openai_event c)), []]) cs) @ [done_line, []], False)"
  using assms
proof (induction cs)
  case Nil
  have "lf \<notin> set done_line" "length done_line < MaxScanTokenSize" "drop_cr done_line = done_line"
    by (simp_all add: done_line_def lf_def MaxScanTokenSize_def drop_cr_def cr_def)
  then show ?case
    using scan_lines_step [of done_line MaxScanTokenSize "[lf]"] scan_lines_step [of "[]" MaxScanTokenSize "[]"]
    by (simp add: openai_body_def MaxScanTokenSize_def)
next
  case (Cons c cs)
  have "scan_lines MaxScanTokenSize (data_line (JObj (openai_event c)) @ lf # lf # openai_body cs) =
    (data_line (JObj (openai_event c)) # [] # fst (scan_lines MaxScanTokenSize (openai_body cs)),
     snd (scan_lines MaxScanTokenSize (openai_body cs)))"
    by (rule scan_event) (use Cons.prems openai_event_ok in \<open>auto simp: chunk_fits_def\<close>)
  then show ?case using Cons by (simp add: openai_body_def)
qed

text \<open>
  C33. The stream of a provider is decoded exactly: for a body of server-sent events that
  carry chunks, each on a line shorter than the scanner's buffer, the adapter delivers exactly
  these chunks, in order, followed by the chunk that says that the stream is done. A chunk has an
  id, a model, a role and a content; the reason to finish is not among what the adapter reads.
\<close>

theorem openai_stream_decodes:
  assumes "http_send cl (oa_stream_request url key body) w = (Inr a, w')" and "ha_code a < 400"
    and "ha_body a = openai_body cs" and "\<forall>c \<in> set cs. chunk_fits c"
  shows "streamOpenAI cl url key body w = (Inr (cs @ [zero_chunk\<lparr>sc_done := True\<rparr>]), w')"
proof -
  have "oa_chunks tx (concat (map (\<lambda>c. [data_line (JObj (openai_event c)), []]) cs) @ [done_line, []]) e =
      cs @ [zero_chunk\<lparr>sc_done := True\<rparr>]" for tx e
    using assms(4)
  proof (induction cs)
    case Nil
    then show ?case by (simp add: parse_done_line)
  next
    case (Cons c cs)
    then show ?case
      by (simp add: parse_event_line parse_empty_line) (auto simp: chunk_fits_def zero_chunk_def zero_delta_def)
  qed
  then show ?thesis using assms(1-3) scan_openai_body [OF assms(4)]
    by (simp add: streamOpenAI_def scan_body_def)
qed

definition demo_stream_chunk :: StreamChunk where
  "demo_stream_chunk = zero_chunk\<lparr>sc_id := ''c1'', sc_delta := \<lparr>dl_role = '''', dl_content = ''hi''\<rparr>\<rparr>"

theorem openai_stream_decodes_witness:
  "streamOpenAI (demo_http 200 (openai_body [demo_stream_chunk])) ''u'' ''k'' ''b'' () =
     (Inr [demo_stream_chunk, zero_chunk\<lparr>sc_done := True\<rparr>], ())"
proof -
  have u: "valid_utf8 ''c1''" "valid_utf8 ''hi''" "valid_utf8 ''''" by (simp_all add: valid_utf8_ascii byte_def)
  have "length (data_line (JObj (openai_event demo_stream_chunk))) < MaxScanTokenSize"
    by (simp add: data_line_def openai_event_def demo_stream_chunk_def zero_chunk_def zero_delta_def omit_empty_def
        encode_string_def runes_ascii byte_def esc_rune_def esc_byte_def MaxScanTokenSize_def)
  then have "chunk_fits demo_stream_chunk"
    using u by (simp add: chunk_fits_def demo_stream_chunk_def zero_chunk_def)
  then show ?thesis
    using openai_stream_decodes [of "demo_http 200 (openai_body [demo_stream_chunk])" "''u''" "''k''" "''b''" "()" _ "()"
        "[demo_stream_chunk]"] by (simp add: demo_http_def http_send_def)
qed

end
