(* ===== verification/Anthropic.thy ===== *)
theory Anthropic
  imports OpenAI
begin

text \<open>
  The adapter for Anthropic, \<^verbatim>\<open>internal/egress/anthropic.go\<close>: the separate system
  prompt, the answer in the provider's own format, and the stream of named events.
\<close>

section \<open>The code\<close>

record 'w Anthropic =
  an_name :: string
  an_baseURL :: string
  an_apiKey :: string
  an_models :: "string list"
  an_client :: "'w HttpClient"

definition NewAnthropic :: "(duration \<Rightarrow> 'w HttpClient) \<Rightarrow> string \<Rightarrow> string \<Rightarrow> string \<Rightarrow> string list \<Rightarrow>
    duration \<Rightarrow> 'w Anthropic" where
  "NewAnthropic mk name baseURL apiKey models timeout =
     \<lparr>an_name = name, an_baseURL = baseURL, an_apiKey = apiKey, an_models = models, an_client = mk timeout\<rparr>"

definition an_HealthCheck :: "'w Anthropic \<Rightarrow> 'w \<Rightarrow> go_error option \<times> 'w" where
  "an_HealthCheck p w = get_base (an_client p) (an_baseURL p) w"

text \<open>The loop that takes the system prompt out of the messages.\<close>

fun split_system :: "Message list \<Rightarrow> string \<Rightarrow> Message list \<Rightarrow> string \<times> Message list" where
  "split_system [] sys messages = (sys, messages)"
| "split_system (m # ms) sys messages =
     (if msg_role m = ''system'' then split_system ms (msg_content m) messages
      else split_system ms sys (messages @ [m]))"

text \<open>The members of the body, in the order of their names; a nil token limit is null.\<close>

definition an_members :: "StandardRequest \<Rightarrow> bool \<Rightarrow> (string \<times> json) list" where
  "an_members req streaming =
     (let (sys, messages) = split_system (req_messages req) '''' []
      in [(''max_tokens'', case req_maxTokens req of None \<Rightarrow> JNull | Some n \<Rightarrow> JNum (itoa n)),
          (''messages'', JArr (map enc_Message messages)), (''model'', JStr (req_model req))] @
         (if streaming then [(''stream'', JBool True)] else []) @ [(''system'', JStr sys)])"

definition an_buildRequestBody :: "StandardRequest \<Rightarrow> string" where
  "an_buildRequestBody req = encode (JObj (an_members req False))"

definition an_request :: "string \<Rightarrow> string \<Rightarrow> string \<Rightarrow> (string \<times> string) list \<Rightarrow> HttpRequest" where
  "an_request url apiKey body accept =
     \<lparr>hq_method = ''POST'', hq_url = url,
      hq_headers = [(''x-api-key'', apiKey), (''anthropic-version'', ''2023-06-01''),
                    (''Content-Type'', ''application/json'')] @ accept,
      hq_body = body, hq_deadline = None\<rparr>"

text \<open>What is read of an answer: the texts of its content blocks and the usage.\<close>

record AnthropicAnswer =
  aa_id :: string
  aa_model :: string
  aa_content :: "string list option"
  aa_input :: int
  aa_output :: int

definition zero_anthropic :: AnthropicAnswer where
  "zero_anthropic = \<lparr>aa_id = '''', aa_model = '''', aa_content = None, aa_input = 0, aa_output = 0\<rparr>"

definition dec_content :: "string decoder" where
  "dec_content = dec_struct (\<lambda>k v s. if field_is ''text'' k then dec_string v s else Some s)"

definition dec_an_usage :: "(int \<times> int) decoder" where
  "dec_an_usage = dec_struct (\<lambda>k v (i, out).
     if field_is ''input_tokens'' k then map_option (\<lambda>n. (n, out)) (dec_int v i)
     else if field_is ''output_tokens'' k then map_option (\<lambda>n. (i, n)) (dec_int v out)
     else Some (i, out))"

definition dec_AnthropicAnswer :: "AnthropicAnswer decoder" where
  "dec_AnthropicAnswer = dec_struct (\<lambda>k v r.
     if field_is ''id'' k then map_option (\<lambda>s. r\<lparr>aa_id := s\<rparr>) (dec_string v (aa_id r))
     else if field_is ''model'' k then map_option (\<lambda>s. r\<lparr>aa_model := s\<rparr>) (dec_string v (aa_model r))
     else if field_is ''content'' k then
       map_option (\<lambda>cs. r\<lparr>aa_content := cs\<rparr>) (dec_slice '''' dec_content v (aa_content r))
     else if field_is ''usage'' k then
       map_option (\<lambda>(i, out). r\<lparr>aa_input := i, aa_output := out\<rparr>) (dec_an_usage v (aa_input r, aa_output r))
     else Some r)"

text \<open>A Go \<^verbatim>\<open>int\<close> sum, which wraps around at 64 bits.\<close>

definition add_int64 :: "int \<Rightarrow> int \<Rightarrow> int" where
  "add_int64 a b = (a + b + 2 ^ 63) mod 2 ^ 64 - 2 ^ 63"

definition an_response :: "string \<Rightarrow> AnthropicAnswer \<Rightarrow> StandardResponse" where
  "an_response name raw = zero_response\<lparr>rs_id := aa_id raw, rs_model := aa_model raw, rs_provider := name,
     rs_usage := \<lparr>us_prompt = aa_input raw, us_completion = aa_output raw,
                  us_total = add_int64 (aa_input raw) (aa_output raw)\<rparr>,
     rs_choices := (case aa_content raw of
        Some (text # _) \<Rightarrow> Some [\<lparr>ch_index = 0, ch_message = \<lparr>msg_role = ''assistant'', msg_content = text\<rparr>,
                                  ch_finish = ''stop''\<rparr>]
      | _ \<Rightarrow> None)\<rparr>"

definition an_Send :: "'w Anthropic \<Rightarrow> StandardRequest \<Rightarrow> 'w \<Rightarrow> (go_error + StandardResponse) \<times> 'w" where
  "an_Send p req w =
     (let body = an_buildRequestBody req in
      case http_send (an_client p) (an_request (an_baseURL p @ ''/v1/messages'') (an_apiKey p) body []) w of
        (Inl e, w) \<Rightarrow> (Inl e, w)
      | (Inr resp, w) \<Rightarrow>
          if ha_code resp \<ge> 400 then (Inl (new_error ErrCodeProviderError (ha_status resp)), w)
          else (case decode_body (an_client p) dec_AnthropicAnswer zero_anthropic resp of
                  Inl e \<Rightarrow> (Inl e, w)
                | Inr raw \<Rightarrow> (Inr (an_response (an_name p) raw), w)))"

subsection \<open>Streams\<close>

record AnthropicEvent =
  ae_type :: string
  ae_msgId :: string
  ae_msgRole :: string
  ae_msgModel :: string
  ae_deltaType :: string
  ae_deltaText :: string
  ae_stopReason :: string
  ae_index :: int

definition zero_event :: AnthropicEvent where
  "zero_event = \<lparr>ae_type = '''', ae_msgId = '''', ae_msgRole = '''', ae_msgModel = '''', ae_deltaType = '''',
     ae_deltaText = '''', ae_stopReason = '''', ae_index = 0\<rparr>"

definition dec_event_message :: "AnthropicEvent decoder" where
  "dec_event_message = dec_struct (\<lambda>k v r.
     if field_is ''id'' k then map_option (\<lambda>s. r\<lparr>ae_msgId := s\<rparr>) (dec_string v (ae_msgId r))
     else if field_is ''role'' k then map_option (\<lambda>s. r\<lparr>ae_msgRole := s\<rparr>) (dec_string v (ae_msgRole r))
     else if field_is ''model'' k then map_option (\<lambda>s. r\<lparr>ae_msgModel := s\<rparr>) (dec_string v (ae_msgModel r))
     else Some r)"

definition dec_event_delta :: "AnthropicEvent decoder" where
  "dec_event_delta = dec_struct (\<lambda>k v r.
     if field_is ''type'' k then map_option (\<lambda>s. r\<lparr>ae_deltaType := s\<rparr>) (dec_string v (ae_deltaType r))
     else if field_is ''text'' k then map_option (\<lambda>s. r\<lparr>ae_deltaText := s\<rparr>) (dec_string v (ae_deltaText r))
     else if field_is ''stop_reason'' k then map_option (\<lambda>s. r\<lparr>ae_stopReason := s\<rparr>) (dec_string v (ae_stopReason r))
     else Some r)"

definition dec_AnthropicEvent :: "AnthropicEvent decoder" where
  "dec_AnthropicEvent = dec_struct (\<lambda>k v r.
     if field_is ''type'' k then map_option (\<lambda>s. r\<lparr>ae_type := s\<rparr>) (dec_string v (ae_type r))
     else if field_is ''message'' k then dec_event_message v r
     else if field_is ''delta'' k then dec_event_delta v r
     else if field_is ''index'' k then map_option (\<lambda>n. r\<lparr>ae_index := n\<rparr>) (dec_int v (ae_index r))
     else Some r)"

definition event_chunk :: "AnthropicEvent \<Rightarrow> StreamChunk \<times> bool" where
  "event_chunk raw =
     (if ae_type raw = ''message_start'' then
        (zero_chunk\<lparr>sc_id := ae_msgId raw, sc_model := ae_msgModel raw,
           sc_delta := zero_delta\<lparr>dl_role := ae_msgRole raw\<rparr>\<rparr>, False)
      else if ae_type raw = ''content_block_delta'' \<and> ae_deltaType raw = ''text_delta'' then
        (zero_chunk\<lparr>sc_delta := zero_delta\<lparr>dl_content := ae_deltaText raw\<rparr>\<rparr>, False)
      else if ae_type raw = ''message_stop'' then (zero_chunk\<lparr>sc_done := True\<rparr>, True)
      else (zero_chunk, False))"

definition parseAnthropicSSEEvent :: "string \<Rightarrow> string \<Rightarrow> (string \<times> json_error) + (StreamChunk \<times> bool)" where
  "parseAnthropicSSEEvent eventType data =
     (let eventType = trim_space eventType; data = trim_space data in
      if eventType = [] \<and> data = [] then Inr (zero_chunk, False)
      else if \<not> has_prefix data ''{'' then Inr (zero_chunk, False)
      else case decode_with dec_AnthropicEvent zero_event (parse_document data) of
             Inl e \<Rightarrow> Inl (data, e)
           | Inr raw \<Rightarrow> Inr (event_chunk raw))"

text \<open>The goroutine; the second argument is the event type that the last line announced.\<close>

fun an_chunks :: "(string \<Rightarrow> json_error \<Rightarrow> string) \<Rightarrow> string \<Rightarrow> string list \<Rightarrow> string option \<Rightarrow> StreamChunk list" where
  "an_chunks text currentEvent [] scanErr = (case scanErr of None \<Rightarrow> [] | Some e \<Rightarrow> [error_chunk e])"
| "an_chunks text currentEvent (line # ls) scanErr =
     (if has_prefix line ''event:'' then
        an_chunks text (trim_space (trim_prefix line ''event:'')) ls scanErr
      else if has_prefix line ''data:'' then
        (case parseAnthropicSSEEvent currentEvent (trim_prefix line ''data:'') of
           Inl (payload, e) \<Rightarrow> [error_chunk (text payload e)]
         | Inr (chunk, done) \<Rightarrow>
             if done then [chunk]
             else if sc_id chunk \<noteq> '''' \<or> dl_content (sc_delta chunk) \<noteq> '''' \<or> dl_role (sc_delta chunk) \<noteq> ''''
             then chunk # an_chunks text '''' ls scanErr
             else an_chunks text '''' ls scanErr)
      else an_chunks text currentEvent ls scanErr)"

definition StreamAnthropic :: "'w HttpClient \<Rightarrow> string \<Rightarrow> string \<Rightarrow> StandardRequest \<Rightarrow> 'w \<Rightarrow>
    (go_error + StreamChunk list) \<times> 'w" where
  "StreamAnthropic cl url apiKey req w =
     (let body = encode (JObj (an_members req True)) in
      case http_send cl (an_request url apiKey body [(''Accept'', ''text/event-stream'')]) w of
        (Inl e, w) \<Rightarrow> (Inl e, w)
      | (Inr resp, w) \<Rightarrow>
          if ha_code resp \<ge> 400 then (Inl (new_error ErrCodeProviderError (ha_status resp)), w)
          else let (ls, scanErr) = scan_body resp in (Inr (an_chunks (hc_jsonText cl) '''' ls scanErr), w))"

definition an_SendStream :: "'w Anthropic \<Rightarrow> StandardRequest \<Rightarrow> 'w \<Rightarrow> (go_error + StreamChunk list) \<times> 'w" where
  "an_SendStream p req w = StreamAnthropic (an_client p) (an_baseURL p @ ''/v1/messages'') (an_apiKey p) req w"

definition anthropic_provider :: "'w Anthropic \<Rightarrow> 'w Provider" where
  "anthropic_provider p = \<lparr>pv_name = an_name p, pv_models = an_models p, pv_send = an_Send p,
     pv_stream = an_SendStream p, pv_health = an_HealthCheck p\<rparr>"


section \<open>What the upstream is asked\<close>

definition is_system :: "Message \<Rightarrow> bool" where
  "is_system m \<longleftrightarrow> msg_role m = ''system''"

text \<open>The system prompt: the content of the last system message, or nothing.\<close>

definition system_prompt :: "Message list \<Rightarrow> string" where
  "system_prompt ms = (case rev (filter is_system ms) of [] \<Rightarrow> '''' | m # _ \<Rightarrow> msg_content m)"

lemma split_system_spec:
  "split_system ms sys acc =
    (case rev (filter is_system ms) of [] \<Rightarrow> sys | m # _ \<Rightarrow> msg_content m, acc @ filter (\<lambda>m. \<not> is_system m) ms)"
proof (induction ms arbitrary: sys acc)
  case (Cons m ms)
  then show ?case
    by (cases "rev (filter is_system ms)") (auto simp: is_system_def [symmetric])
qed simp

lemma anthropic_valid_keys [simp]: "valid_utf8 ''system''"
  by (rule valid_utf8_ascii) (simp add: byte_def)

lemma system_prompt_ok:
  assumes "list_all message_ok ms" shows "valid_utf8 (system_prompt ms)"
proof (cases "rev (filter is_system ms)")
  case Nil
  then show ?thesis by (simp add: system_prompt_def valid_utf8_ascii)
next
  case (Cons m xs)
  then have "m \<in> set ms" by (metis filter_is_subset in_mono list.set_intros(1) set_rev)
  then show ?thesis using assms Cons by (auto simp: system_prompt_def list_all_iff message_ok_def)
qed

text \<open>
  An Anthropic request carries the conversation without its system messages, in order, and
  as system prompt only the last of them: earlier system messages are dropped, and so is the
  temperature of the request, whatever it is.
\<close>

theorem anthropic_body_content:
  assumes "request_ok req"
  shows "parse_document (an_buildRequestBody req) = Inr (JObj
     [(''max_tokens'', case req_maxTokens req of None \<Rightarrow> JNull | Some n \<Rightarrow> JNum (itoa n)),
      (''messages'', JArr (map enc_Message (filter (\<lambda>m. \<not> is_system m) (req_messages req)))),
      (''model'', JStr (req_model req)), (''system'', JStr (system_prompt (req_messages req)))])"
proof -
  let ?ms = "filter (\<lambda>m. \<not> is_system m) (req_messages req)"
  let ?j = "JObj [(''max_tokens'', case req_maxTokens req of None \<Rightarrow> JNull | Some n \<Rightarrow> JNum (itoa n)),
      (''messages'', JArr (map enc_Message ?ms)), (''model'', JStr (req_model req)),
      (''system'', JStr (system_prompt (req_messages req)))]"
  have "an_buildRequestBody req = encode ?j"
    unfolding an_buildRequestBody_def an_members_def split_system_spec by (simp add: system_prompt_def)
  moreover have "json_ok ?j"
    using assms system_prompt_ok [of "req_messages req"]
    by (auto simp: request_ok_def list_all_iff enc_Message_ok number_lit_itoa split: option.splits)
  moreover have "depth ?j \<le> maxNestingDepth"
    using depth_messages [of ?ms] by (auto simp: maxNestingDepth_def split: option.splits)
  ultimately show ?thesis using parse_document_encode [of ?j "[]"] by simp
qed

definition demo_two_systems :: StandardRequest where
  "demo_two_systems = zero_request\<lparr>req_model := ''c'',
     req_messages := [\<lparr>msg_role = ''system'', msg_content = ''a''\<rparr>, \<lparr>msg_role = ''user'', msg_content = ''q''\<rparr>,
       \<lparr>msg_role = ''system'', msg_content = ''b''\<rparr>]\<rparr>"

theorem anthropic_body_content_witness:
  "parse_document (an_buildRequestBody demo_two_systems) = Inr (JObj
     [(''max_tokens'', JNull),
      (''messages'', JArr [JObj [(''role'', JStr ''user''), (''content'', JStr ''q'')]]),
      (''model'', JStr ''c''), (''system'', JStr ''b'')])"
proof -
  have "valid_utf8 ''a''" "valid_utf8 ''b''" "valid_utf8 ''c''" "valid_utf8 ''q''" "valid_utf8 ''user''" "valid_utf8 ''system''"
    by (simp_all add: valid_utf8_ascii byte_def)
  then have "request_ok demo_two_systems"
    by (simp add: request_ok_def demo_two_systems_def zero_request_def message_ok_def)
  from anthropic_body_content [OF this] show ?thesis
    by (simp add: demo_two_systems_def zero_request_def is_system_def system_prompt_def enc_Message_def)
qed

section \<open>Streams\<close>

lemma event_chunk_no_error: "\<not> is_error (fst (event_chunk raw))"
  by (simp add: event_chunk_def is_error_def zero_chunk_def)

lemma parseEvent_no_error:
  assumes "parseAnthropicSSEEvent t d = Inr (c, done)" shows "\<not> is_error c"
proof -
  have "c = zero_chunk \<or> (\<exists>raw. event_chunk raw = (c, done))"
    using assms unfolding parseAnthropicSSEEvent_def Let_def
    by (cases "decode_with dec_AnthropicEvent zero_event (parse_document (trim_space d))") (auto split: if_splits)
  then show ?thesis using event_chunk_no_error by (auto simp: is_error_def zero_chunk_def) (metis fst_conv option.distinct(1))
qed

lemma an_chunks_errors_last: "\<forall>c \<in> set (butlast (an_chunks tx cur ls e)). \<not> is_error c"
proof (induction ls arbitrary: cur)
  case Nil
  then show ?case by (simp split: option.split)
next
  case (Cons line ls)
  then show ?case
    using parseEvent_no_error by (auto split: sum.split prod.split)
qed

lemma anthropic_stream_errors_last:
  assumes "an_SendStream p req w = (Inr chunks, w')"
  shows "\<forall>c \<in> set (butlast chunks). \<not> is_error c"
  using assms an_chunks_errors_last
  by (auto simp: an_SendStream_def StreamAnthropic_def Let_def split: sum.splits prod.splits if_splits)

interpretation anthropic: chat_provider "anthropic_provider p" for p :: "'w Anthropic"
proof
  show "rs_provider resp = pv_name (anthropic_provider p)" if "pv_send (anthropic_provider p) req w = (Inr resp, w')" for req w resp w'
    using that by (auto simp: anthropic_provider_def an_Send_def an_response_def Let_def split: sum.splits prod.splits if_splits)
  show "\<forall>c \<in> set (butlast chunks). \<not> is_error c" if "pv_stream (anthropic_provider p) req w = (Inr chunks, w')" for req w chunks w'
    using anthropic_stream_errors_last that by (simp add: anthropic_provider_def)
qed

text \<open>
  The events of an Anthropic upstream: the start of the message, the pieces of text, the end, and
  any others, which are named events with a JSON object as data, too.
\<close>

definition start_event :: "string \<Rightarrow> string \<Rightarrow> string \<Rightarrow> int \<Rightarrow> int \<Rightarrow> (string \<times> json) list" where
  "start_event i role m inp out = [(''type'', JStr ''message_start''),
     (''message'', JObj [(''id'', JStr i), (''type'', JStr ''message''), (''role'', JStr role), (''content'', JArr []),
        (''model'', JStr m), (''stop_reason'', JNull),
        (''usage'', JObj [(''input_tokens'', JNum (itoa inp)), (''output_tokens'', JNum (itoa out))])])]"

definition text_event :: "int \<Rightarrow> string \<Rightarrow> (string \<times> json) list" where
  "text_event n txt = [(''type'', JStr ''content_block_delta''), (''index'', JNum (itoa n)),
     (''delta'', JObj [(''type'', JStr ''text_delta''), (''text'', JStr txt)])]"

definition stop_event :: "(string \<times> json) list" where
  "stop_event = [(''type'', JStr ''message_stop'')]"

definition named_event :: "string \<Rightarrow> (string \<times> json) list \<Rightarrow> string" where
  "named_event name ms = ''event: '' @ name @ [lf] @ data_line (JObj ms) @ [lf, lf]"

datatype upstream_event = Piece int string | Other string "(string \<times> json) list"

fun event_name :: "upstream_event \<Rightarrow> string" where
  "event_name (Piece n t) = ''content_block_delta''"
| "event_name (Other name ms) = name"

fun event_members :: "upstream_event \<Rightarrow> (string \<times> json) list" where
  "event_members (Piece n t) = text_event n t"
| "event_members (Other name ms) = ms"

definition anthropic_body :: "string \<Rightarrow> string \<Rightarrow> string \<Rightarrow> int \<Rightarrow> int \<Rightarrow> upstream_event list \<Rightarrow> string" where
  "anthropic_body i role m inp out evs = named_event ''message_start'' (start_event i role m inp out) @
     concat (map (\<lambda>e. named_event (event_name e) (event_members e)) evs) @
     named_event ''message_stop'' stop_event"

definition event_fits :: "(string \<times> json) list \<Rightarrow> bool" where
  "event_fits ms \<longleftrightarrow> length (data_line (JObj ms)) < MaxScanTokenSize"

text \<open>
  An event that is neither start, end nor text, whatever it carries, as long as its members have
  the types that the gateway reads them with.
\<close>

definition no_text :: "(string \<times> json) list \<Rightarrow> bool" where
  "no_text ms \<longleftrightarrow> (\<exists>raw. dec_AnthropicEvent (JObj ms) zero_event = Some raw \<and>
     ae_type raw \<noteq> ''message_start'' \<and> ae_type raw \<noteq> ''message_stop'' \<and>
     (ae_type raw \<noteq> ''content_block_delta'' \<or> ae_deltaType raw \<noteq> ''text_delta''))"

fun upstream_ok :: "upstream_event \<Rightarrow> bool" where
  "upstream_ok (Piece n t) \<longleftrightarrow> in_int64 n \<and> valid_utf8 t \<and> event_fits (text_event n t)"
| "upstream_ok (Other name ms) \<longleftrightarrow> lf \<notin> set name \<and> cr \<notin> set name \<and> length name < 100 \<and>
     json_ok (JObj ms) \<and> depth (JObj ms) \<le> maxNestingDepth \<and> event_fits ms \<and> no_text ms"

text \<open>The chunks that they stand for.\<close>

definition start_chunk :: "string \<Rightarrow> string \<Rightarrow> string \<Rightarrow> StreamChunk" where
  "start_chunk i role m = zero_chunk\<lparr>sc_id := i, sc_model := m, sc_delta := zero_delta\<lparr>dl_role := role\<rparr>\<rparr>"

definition text_chunk :: "string \<Rightarrow> StreamChunk" where
  "text_chunk t = zero_chunk\<lparr>sc_delta := zero_delta\<lparr>dl_content := t\<rparr>\<rparr>"

fun text_chunks :: "upstream_event list \<Rightarrow> StreamChunk list" where
  "text_chunks [] = []"
| "text_chunks (Piece n t # es) = (if t = '''' then [] else [text_chunk t]) @ text_chunks es"
| "text_chunks (Other name ms # es) = text_chunks es"

lemma anthropic_fold_names:
  "fold_name ''type'' = [84, 89, 80, 69]" "fold_name ''text'' = [84, 69, 88, 84]"
  "fold_name ''stop_reason'' = [83, 84, 79, 80, 95, 82, 69, 65, 83, 79, 78]"
  "fold_name ''stop_sequence'' = [83, 84, 79, 80, 95, 83, 69, 81, 85, 69, 78, 67, 69]"
  "fold_name ''content_block'' = [67, 79, 78, 84, 69, 78, 84, 95, 66, 76, 79, 67, 75]"
  by (simp_all add: fold_name_ascii byte_def)

lemma anthropic_more_keys [simp]: "valid_utf8 ''type''" "valid_utf8 ''text''" "valid_utf8 ''message_start''"
  "valid_utf8 ''message_stop''" "valid_utf8 ''content_block_delta''" "valid_utf8 ''text_delta''" "valid_utf8 ''message''"
  "valid_utf8 ''stop_reason''" "valid_utf8 ''input_tokens''" "valid_utf8 ''output_tokens''" "valid_utf8 ''index''"
  "valid_utf8 ''delta''" "valid_utf8 ''usage''"
  by (rule valid_utf8_ascii, simp add: byte_def)+

lemma events_ok:
  "valid_utf8 i \<Longrightarrow> valid_utf8 role \<Longrightarrow> valid_utf8 m \<Longrightarrow> json_ok (JObj (start_event i role m inp out))"
  "valid_utf8 t \<Longrightarrow> json_ok (JObj (text_event n t))"
  "json_ok (JObj stop_event)"
  by (simp_all add: start_event_def text_event_def stop_event_def number_lit_itoa)

lemma parse_event:
  assumes "json_ok (JObj ms)" and "depth (JObj ms) \<le> maxNestingDepth" and "dec_AnthropicEvent (JObj ms) zero_event = Some raw"
  shows "parseAnthropicSSEEvent t (CHR '' '' # encode (JObj ms)) = Inr (event_chunk raw)"
proof -
  have "parse_document (encode (JObj ms)) = Inr (JObj ms)"
    using parse_document_encode [OF assms(1), of "[]"] assms(2) by simp
  moreover have "has_prefix (encode (JObj ms)) ''{''" "encode (JObj ms) \<noteq> []" by (simp_all add: has_prefix_def)
  ultimately show ?thesis using assms(3) trim_encode_obj [of ms]
    by (simp add: parseAnthropicSSEEvent_def trim_space_leading decode_with_def Let_def del: encode.simps)
qed

lemmas dec_event_defs = dec_AnthropicEvent_def dec_struct_def field_is_def fold_names request_fold_names more_fold_names
  anthropic_fold_names dec_event_message_def dec_event_delta_def zero_event_def

lemma dec_events:
  "dec_AnthropicEvent (JObj (start_event i role m inp out)) zero_event =
     Some (zero_event\<lparr>ae_type := ''message_start'', ae_msgId := i, ae_msgRole := role, ae_msgModel := m\<rparr>)"
  "in_int64 n \<Longrightarrow> dec_AnthropicEvent (JObj (text_event n t)) zero_event =
     Some (zero_event\<lparr>ae_type := ''content_block_delta'', ae_deltaType := ''text_delta'', ae_deltaText := t, ae_index := n\<rparr>)"
  "dec_AnthropicEvent (JObj stop_event) zero_event = Some (zero_event\<lparr>ae_type := ''message_stop''\<rparr>)"
  by (simp_all add: start_event_def text_event_def stop_event_def dec_event_defs atoi_itoa)

text \<open>
  The other events that the provider documents: pings, the frames of the content blocks, pieces of
  the input of a tool, and the event that carries the reason to stop and the usage, of which
  nothing is read that a chunk would show.
\<close>

definition ping_event :: upstream_event where
  "ping_event = Other ''ping'' [(''type'', JStr ''ping'')]"

definition block_start :: "int \<Rightarrow> string \<Rightarrow> upstream_event" where
  "block_start n txt = Other ''content_block_start'' [(''type'', JStr ''content_block_start''), (''index'', JNum (itoa n)),
     (''content_block'', JObj [(''type'', JStr ''text''), (''text'', JStr txt)])]"

definition block_stop :: "int \<Rightarrow> upstream_event" where
  "block_stop n = Other ''content_block_stop'' [(''type'', JStr ''content_block_stop''), (''index'', JNum (itoa n))]"

definition tool_delta :: "int \<Rightarrow> string \<Rightarrow> upstream_event" where
  "tool_delta n part = Other ''content_block_delta'' [(''type'', JStr ''content_block_delta''), (''index'', JNum (itoa n)),
     (''delta'', JObj [(''type'', JStr ''input_json_delta''), (''partial_json'', JStr part)])]"

definition message_delta :: "string \<Rightarrow> int \<Rightarrow> upstream_event" where
  "message_delta reason out = Other ''message_delta'' [(''type'', JStr ''message_delta''),
     (''delta'', JObj [(''stop_reason'', JStr reason), (''stop_sequence'', JNull)]),
     (''usage'', JObj [(''output_tokens'', JNum (itoa out))])]"

lemma documented_no_text:
  "no_text (event_members ping_event)" "in_int64 n \<Longrightarrow> no_text (event_members (block_start n t))"
  "in_int64 n \<Longrightarrow> no_text (event_members (block_stop n))" "in_int64 n \<Longrightarrow> no_text (event_members (tool_delta n t))"
  "no_text (event_members (message_delta r out))"
proof -
  have "fold_name ''partial_json'' = [80, 65, 82, 84, 73, 65, 76, 95, 74, 83, 79, 78]" by (simp add: fold_name_ascii byte_def)
  then show "no_text (event_members ping_event)" "in_int64 n \<Longrightarrow> no_text (event_members (block_start n t))"
    "in_int64 n \<Longrightarrow> no_text (event_members (block_stop n))" "in_int64 n \<Longrightarrow> no_text (event_members (tool_delta n t))"
    "no_text (event_members (message_delta r out))"
    by (simp_all add: no_text_def ping_event_def block_start_def block_stop_def tool_delta_def message_delta_def
        dec_event_defs atoi_itoa)
qed

lemma scan_named_event:
  assumes "json_ok (JObj ms)" and "event_fits ms" and "lf \<notin> set name" and "cr \<notin> set name" and "length name < 100"
  shows "scan_lines MaxScanTokenSize (named_event name ms @ s) =
    ((''event: '' @ name) # data_line (JObj ms) # [] # fst (scan_lines MaxScanTokenSize s), snd (scan_lines MaxScanTokenSize s))"
proof -
  have "lf \<notin> set (''event: '' @ name)" using assms(3) by (auto simp: lf_def)
  moreover have "length (''event: '' @ name) < MaxScanTokenSize" using assms(5) by (simp add: MaxScanTokenSize_def)
  moreover have "drop_cr (''event: '' @ name) = ''event: '' @ name"
  proof -
    have "last (''event: '' @ name) \<noteq> cr" using assms(4) by (cases name rule: rev_cases) (auto simp: cr_def)
    then show ?thesis by (simp add: drop_cr_def)
  qed
  ultimately have "scan_lines MaxScanTokenSize ((''event: '' @ name) @ lf # data_line (JObj ms) @ lf # lf # s) =
      ((''event: '' @ name) # fst (scan_lines MaxScanTokenSize (data_line (JObj ms) @ lf # lf # s)),
       snd (scan_lines MaxScanTokenSize (data_line (JObj ms) @ lf # lf # s)))"
    using scan_lines_step [of "''event: '' @ name"] by simp
  then show ?thesis using scan_event [OF assms(1), of MaxScanTokenSize s] assms(2)
    by (simp add: named_event_def event_fits_def)
qed

text \<open>The three lines of an event, as the goroutine handles them.\<close>

lemma an_chunks_event:
  assumes "parseAnthropicSSEEvent (trim_space (CHR '' '' # name)) (CHR '' '' # encode (JObj ms)) = Inr (c, done)"
  shows "an_chunks tx cur ((''event: '' @ name) # data_line (JObj ms) # [] # ls) e =
    (if done then [c]
     else if sc_id c \<noteq> '''' \<or> dl_content (sc_delta c) \<noteq> '''' \<or> dl_role (sc_delta c) \<noteq> ''''
     then c # an_chunks tx '''' ls e else an_chunks tx '''' ls e)"
  using assms by (simp add: has_prefix_def trim_prefix_def data_line_def del: encode.simps)

lemma event_json_ok: "upstream_ok e \<Longrightarrow> json_ok (JObj (event_members e)) \<and> event_fits (event_members e) \<and>
    lf \<notin> set (event_name e) \<and> cr \<notin> set (event_name e) \<and> length (event_name e) < 100"
  using events_ok(2) by (cases e) (simp_all add: lf_def cr_def)

definition event_lines :: "string \<Rightarrow> (string \<times> json) list \<Rightarrow> string list" where
  "event_lines name ms = [''event: '' @ name, data_line (JObj ms), []]"

lemma scan_anthropic_body:
  assumes "valid_utf8 i" "valid_utf8 role" "valid_utf8 m" and "event_fits (start_event i role m inp out)"
    and "\<forall>e \<in> set evs. upstream_ok e"
  shows "scan_lines MaxScanTokenSize (anthropic_body i role m inp out evs) =
    (event_lines ''message_start'' (start_event i role m inp out) @
     concat (map (\<lambda>e. event_lines (event_name e) (event_members e)) evs) @
     event_lines ''message_stop'' stop_event, False)"
proof -
  have stop: "event_fits stop_event"
    by (simp add: event_fits_def stop_event_def data_line_def encode_string_def runes_ascii byte_def esc_rune_def
        esc_byte_def MaxScanTokenSize_def)
  have n: "lf \<notin> set ''message_start''" "cr \<notin> set ''message_start''" "lf \<notin> set ''message_stop''"
    "cr \<notin> set ''message_stop''" by (simp_all add: lf_def cr_def)
  have tail: "scan_lines MaxScanTokenSize (concat (map (\<lambda>e. named_event (event_name e) (event_members e)) evs) @
        named_event ''message_stop'' stop_event) =
      (concat (map (\<lambda>e. event_lines (event_name e) (event_members e)) evs) @ event_lines ''message_stop'' stop_event, False)"
    using assms(5)
  proof (induction evs)
    case Nil
    then show ?case using scan_named_event [OF events_ok(3) stop n(3,4), of "[]"] by (simp add: event_lines_def)
  next
    case (Cons e evs)
    then show ?case using event_json_ok [of e] scan_named_event [of "event_members e" "event_name e"]
      by (simp add: event_lines_def)
  qed
  show ?thesis unfolding anthropic_body_def
    using scan_named_event [OF events_ok(1) assms(4) n(1,2)] assms(1-3) tail by (simp add: event_lines_def)
qed

text \<open>What the goroutine makes of the events between start and end.\<close>

lemma an_chunks_upstream:
  assumes "upstream_ok e"
  shows "an_chunks tx cur (event_lines (event_name e) (event_members e) @ ls) scanErr =
    text_chunks [e] @ an_chunks tx '''' ls scanErr"
proof (cases e)
  case (Piece n t)
  then have "parseAnthropicSSEEvent x (CHR '' '' # encode (JObj (text_event n t))) = Inr (text_chunk t, False)" for x
    using assms parse_event [OF events_ok(2) _ dec_events(2), of t n]
    by (simp add: text_event_def event_chunk_def text_chunk_def zero_event_def maxNestingDepth_def)
  from an_chunks_event [OF this, of tx cur "''content_block_delta''"] show ?thesis
    by (simp add: Piece event_lines_def text_chunk_def zero_chunk_def zero_delta_def)
next
  case (Other name ms)
  then have ok: "json_ok (JObj ms)" "depth (JObj ms) \<le> maxNestingDepth" "no_text ms" using assms by simp_all
  then obtain raw where raw: "dec_AnthropicEvent (JObj ms) zero_event = Some raw" "event_chunk raw = (zero_chunk, False)"
    by (auto simp: no_text_def event_chunk_def)
  have "parseAnthropicSSEEvent x (CHR '' '' # encode (JObj ms)) = Inr (zero_chunk, False)" for x
    using parse_event [OF ok(1,2) raw(1)] raw(2) by simp
  from an_chunks_event [OF this, of tx cur name] show ?thesis
    by (simp add: Other event_lines_def zero_chunk_def zero_delta_def)
qed

lemma an_chunks_events:
  "\<forall>e \<in> set evs. upstream_ok e \<Longrightarrow>
    an_chunks tx '''' (concat (map (\<lambda>e. event_lines (event_name e) (event_members e)) evs) @ ls) scanErr =
      text_chunks evs @ an_chunks tx '''' ls scanErr"
proof (induction evs)
  case (Cons e evs)
  then show ?case using an_chunks_upstream [of e tx "''''"] by (cases e) simp_all
qed simp

text \<open>
  C34. The text of an Anthropic stream arrives whole: the start of the message becomes the first
  chunk, every non-empty piece of text a chunk of its own, byte for byte and in order, and the end
  the last chunk, whatever other events come in between, the documented ones among them, as long as
  every line fits the scanner and the message has an id. Of these
  nothing is passed on: the reason to stop and the usage, which come with the delta of the message,
  and the parts of a tool's input are lost.
\<close>

theorem anthropic_stream_decodes:
  assumes "http_send (an_client p) (an_request (an_baseURL p @ ''/v1/messages'') (an_apiKey p)
       (encode (JObj (an_members req True))) [(''Accept'', ''text/event-stream'')]) w = (Inr a, w')"
    and "ha_code a < 400" and "ha_body a = anthropic_body i role m inp out evs"
    and "valid_utf8 i" "valid_utf8 role" "valid_utf8 m" and "i \<noteq> ''''" and "event_fits (start_event i role m inp out)"
    and "\<forall>e \<in> set evs. upstream_ok e"
  shows "an_SendStream p req w = (Inr (start_chunk i role m # text_chunks evs @ [zero_chunk\<lparr>sc_done := True\<rparr>]), w')"
proof -
  have start: "parseAnthropicSSEEvent n (CHR '' '' # encode (JObj (start_event i role m inp out))) = Inr (start_chunk i role m, False)" for n
    using parse_event [OF events_ok(1) _ dec_events(1)] assms(4-6)
    by (simp add: start_event_def event_chunk_def start_chunk_def zero_event_def maxNestingDepth_def)
  have stop: "parseAnthropicSSEEvent n (CHR '' '' # encode (JObj stop_event)) = Inr (zero_chunk\<lparr>sc_done := True\<rparr>, True)" for n
    using parse_event [OF events_ok(3) _ dec_events(3)]
    by (simp add: stop_event_def event_chunk_def zero_event_def maxNestingDepth_def)
  have "an_chunks tx '''' (event_lines ''message_stop'' stop_event) e = [zero_chunk\<lparr>sc_done := True\<rparr>]" for tx e
    using an_chunks_event [OF stop, of tx "''''" "''message_stop''" "[]" e] by (simp add: event_lines_def)
  then have "an_chunks tx '''' (fst (scan_lines MaxScanTokenSize (anthropic_body i role m inp out evs))) e =
      start_chunk i role m # text_chunks evs @ [zero_chunk\<lparr>sc_done := True\<rparr>]" for tx e
    using scan_anthropic_body [OF assms(4-6,8,9)] assms(7) an_chunks_events [OF assms(9)]
      an_chunks_event [OF start, of tx "''''" "''message_start''"]
    by (simp add: event_lines_def start_chunk_def zero_chunk_def)
  then show ?thesis using assms(1-3) scan_anthropic_body [OF assms(4-6,8,9)]
    by (simp add: an_SendStream_def StreamAnthropic_def scan_body_def)
qed

definition demo_upstream_events :: "upstream_event list" where
  "demo_upstream_events = [block_start 0 '''', ping_event, Piece 0 ''he'', Piece 0 '''', Piece 0 ''y'', block_stop 0,
     message_delta ''end_turn'' 3]"

theorem anthropic_stream_decodes_witness:
  "fst (an_SendStream (NewAnthropic (\<lambda>_. demo_http 200 (anthropic_body ''i'' ''assistant'' ''c'' 9 1 demo_upstream_events))
       ''p'' ''u'' ''k'' [''c''] 0) demo_two_systems ()) =
   Inr [start_chunk ''i'' ''assistant'' ''c'', text_chunk ''he'', text_chunk ''y'', zero_chunk\<lparr>sc_done := True\<rparr>]"
proof -
  let ?body = "anthropic_body ''i'' ''assistant'' ''c'' 9 1 demo_upstream_events"
  let ?p = "NewAnthropic (\<lambda>_. demo_http 200 ?body) ''p'' ''u'' ''k'' [''c''] 0"
  let ?a = "\<lparr>ha_code = 200, ha_status = ''200 OK'', ha_body = ?body, ha_bodyErr = None\<rparr>"
  have u: "valid_utf8 ''i''" "valid_utf8 ''assistant''" "valid_utf8 ''c''" "valid_utf8 ''he''" "valid_utf8 ''y''" "valid_utf8 ''''"
    "valid_utf8 ''ping''" "valid_utf8 ''content_block_start''" "valid_utf8 ''content_block_stop''" "valid_utf8 ''content_block''"
    "valid_utf8 ''message_delta''" "valid_utf8 ''stop_sequence''" "valid_utf8 ''end_turn''"
    by (simp_all add: valid_utf8_ascii byte_def)
  note ev = event_fits_def data_line_def encode_string_def runes_ascii byte_def esc_rune_def esc_byte_def MaxScanTokenSize_def
  have d: "length (itoa 0) = 1" "length (itoa 1) = 1" "length (itoa 3) = 1" "length (itoa 9) = 1"
    by (simp_all add: itoa_def nat_digits.simps)
  have int: "in_int64 0" by (simp add: in_int64_def min_int64_def max_int64_def)
  have f: "event_fits (start_event ''i'' ''assistant'' ''c'' 9 1)" by (simp add: start_event_def ev d)
  have "upstream_ok e" if "e \<in> set demo_upstream_events" for e
  proof -
    note quiet = documented_no_text [unfolded ping_event_def block_start_def block_stop_def message_delta_def event_members.simps]
    show ?thesis using that u quiet int
      by (auto simp: demo_upstream_events_def ping_event_def block_start_def block_stop_def message_delta_def text_event_def ev d
          number_lit_itoa lf_def cr_def maxNestingDepth_def)
  qed
  moreover have "http_send (an_client ?p) (an_request (an_baseURL ?p @ ''/v1/messages'') (an_apiKey ?p)
       (encode (JObj (an_members demo_two_systems True))) [(''Accept'', ''text/event-stream'')]) () = (Inr ?a, ())"
    by (simp add: NewAnthropic_def demo_http_def http_send_def)
  ultimately show ?thesis
    using anthropic_stream_decodes [of ?p demo_two_systems "()" ?a "()" "''i''" "''assistant''" "''c''" 9 1 demo_upstream_events] u f
    by (simp add: demo_upstream_events_def ping_event_def block_start_def block_stop_def message_delta_def)
qed

end
