(* ===== verification/Redis_Store.thy ===== *)
theory Redis_Store
  imports Semantic_Cache Go_Float_Facts "HOL-Library.Word" "HOL-Library.AList"
begin

unbundle bit_operations_syntax

text \<open>
  The persistent store of \<^verbatim>\<open>internal/cache/redis_store.go\<close>, and what of
  \<^verbatim>\<open>internal/cache/semantic.go\<close> it writes: vectors as little-endian bytes, and the keys of
  entries. Redis and SHA-256 are parameters; what the store relies on is that Redis returns what it
  was given until the time to live is over, as \<open>redis_up\<close> states it.
\<close>

section \<open>The bits of a double\<close>

text \<open>
  \<^verbatim>\<open>math.Float64bits\<close> and its inverse. The model has a single NaN, whose bits are those of
  Go's \<^verbatim>\<open>math.NaN\<close>.
\<close>

fun float_bits :: "f64 \<Rightarrow> 64 word" where
  "float_bits NaN = 0x7FF8000000000001"
| "float_bits (Inf s) = of_nat ((if s then 2 ^ 63 else 0) + 2047 * 2 ^ 52)"
| "float_bits (Fin s m e) = of_nat ((if s then 2 ^ 63 else 0) +
     (if m < 2 ^ 52 then m else nat (e + 1075) * 2 ^ 52 + (m - 2 ^ 52)))"

definition float_from_bits :: "64 word \<Rightarrow> f64" where
  "float_from_bits b =
     (let n = unat b; s = n \<ge> 2 ^ 63; expo = n div 2 ^ 52 mod 2 ^ 11; frac = n mod 2 ^ 52
      in if expo = 2047 then (if frac = 0 then Inf s else NaN)
         else if expo = 0 then Fin s frac (- 1074) else Fin s (2 ^ 52 + frac) (int expo - 1075))"

section \<open>Vectors as bytes\<close>

definition put_uint64 :: "64 word \<Rightarrow> string" where
  "put_uint64 w = map (\<lambda>i. char_of (unat (take_bit 8 (drop_bit (8 * i) w)))) [0..<8]"

definition get_uint64 :: "string \<Rightarrow> 64 word" where
  "get_uint64 s = foldr (\<lambda>c w. of_nat (of_char c) OR push_bit 8 w) (take 8 s) 0"

definition EncodeVector :: "f64 list \<Rightarrow> string" where
  "EncodeVector v = concat (map (put_uint64 \<circ> float_bits) v)"

definition DecodeVector :: "string \<Rightarrow> f64 list" where
  "DecodeVector data = map (\<lambda>i. float_from_bits (get_uint64 (drop (8 * i) data))) [0..<length data div 8]"

text \<open>The key of a text: half of its SHA-256 sum, in hexadecimal.\<close>

definition hashContent :: "(string \<Rightarrow> string) \<Rightarrow> string \<Rightarrow> string" where
  "hashContent sha256 content =
     concat (map (\<lambda>c. [hex_digit (of_char c div 16), hex_digit (of_char c mod 16)]) (take 16 (sha256 content)))"

section \<open>The store\<close>

text \<open>
  The commands that the store issues. A pipeline of writes reports the first error; a pipeline
  of reads yields a result per command, where \<open>None\<close> is the error of a missing key.
\<close>

datatype redis_write =
    SetKey string string duration
  | ZAddMember string f64 string
  | ExpireKey string duration

record 'w RedisClient =
  rc_ping :: "'w \<Rightarrow> go_error option \<times> 'w"
  rc_clock :: "'w \<Rightarrow> instant \<times> 'w"
  rc_write :: "redis_write list \<Rightarrow> 'w \<Rightarrow> go_error option \<times> 'w"
  rc_zrange :: "string \<Rightarrow> 'w \<Rightarrow> (go_error + string list) \<times> 'w"
  rc_get :: "string list \<Rightarrow> 'w \<Rightarrow> (go_error option + string) list \<times> 'w"

definition vector_key :: "string \<Rightarrow> string \<Rightarrow> string" where
  "vector_key model key = ''sc:v:'' @ model @ '':'' @ key"

definition response_key :: "string \<Rightarrow> string \<Rightarrow> string" where
  "response_key model key = ''sc:r:'' @ model @ '':'' @ key"

definition index_key :: "string \<Rightarrow> string" where
  "index_key model = ''sc:idx:'' @ model"

definition redis_Save :: "'w RedisClient \<Rightarrow> string \<Rightarrow> string \<Rightarrow> f64 list \<Rightarrow> string \<Rightarrow> duration \<Rightarrow> 'w \<Rightarrow> go_error option \<times> 'w" where
  "redis_Save client model key vector respJSON ttl w =
     (let vectorData = EncodeVector vector; (now, w) = rc_clock client w
      in rc_write client
           [SetKey (vector_key model key) vectorData ttl,
            SetKey (response_key model key) respJSON ttl,
            ZAddMember (index_key model) (f64_of_int (now div 1000000000)) key,
            ExpireKey (index_key model) ttl] w)"

text \<open>The error that a pipeline of reads reports: that of its first failing command.\<close>

definition pipeline_error :: "(go_error option + string) list \<Rightarrow> go_error option option" where
  "pipeline_error cmds = (case filter (\<lambda>r. \<exists>e. r = Inl e) cmds of [] \<Rightarrow> None | Inl e # _ \<Rightarrow> Some e | _ \<Rightarrow> None)"

definition zero_time :: instant where
  "zero_time = - 62135596800 * 1000000000"

fun loaded_entries :: "string \<Rightarrow> string list \<Rightarrow> (go_error option + string) list \<Rightarrow> CacheEntry list" where
  "loaded_entries model (key # ks) (vectorCmd # respCmd # cmds) =
     (case (vectorCmd, respCmd) of
        (Inr vectorBytes, Inr respBytes) \<Rightarrow>
          \<lparr>ce_model = model, ce_key = key, ce_vector = DecodeVector vectorBytes, ce_json = respBytes,
           ce_storedAt = zero_time, ce_lastAccess = zero_time\<rparr> # loaded_entries model ks cmds
      | _ \<Rightarrow> loaded_entries model ks cmds)"
| "loaded_entries model ks cmds = []"

definition redis_LoadAll :: "'w RedisClient \<Rightarrow> string \<Rightarrow> 'w \<Rightarrow> (go_error + CacheEntry list) \<times> 'w" where
  "redis_LoadAll client model w =
     (case rc_zrange client (index_key model) w of
        (Inl err, w) \<Rightarrow> (Inl err, w)
      | (Inr ks, w) \<Rightarrow>
          if length ks = 0 then (Inr [], w)
          else
            let (cmds, w) = rc_get client (concat (map (\<lambda>k. [vector_key model k, response_key model k]) ks)) w
            in case pipeline_error cmds of
                 Some (Some err) \<Rightarrow> (Inl err, w)
               | _ \<Rightarrow> (Inr (loaded_entries model ks cmds), w))"

definition redis_store :: "'w RedisClient \<Rightarrow> 'w CacheStore" where
  "redis_store client = \<lparr>st_Save = redis_Save client, st_LoadAll = redis_LoadAll client, st_Ping = rc_ping client\<rparr>"

definition NewRedisStore :: "'w RedisClient \<Rightarrow> 'w \<Rightarrow> (go_error + 'w CacheStore) \<times> 'w" where
  "NewRedisStore client w =
     (case rc_ping client w of
        (Some err, w) \<Rightarrow> (Inl (OtherErr (''redis connect: '' @ error_string err)), w)
      | (None, w) \<Rightarrow> (Inr (redis_store client), w))"


section \<open>Vectors survive the round trip\<close>

lemma unat_of_nat_64: "n < 2 ^ 64 \<Longrightarrow> unat (of_nat n :: 64 word) = n"
  by (simp add: unsigned_of_nat take_bit_nat_eq_self)

lemma float_parts:
  fixes f e :: nat and s :: bool
  assumes "f < 2 ^ 52" and "e < 2 ^ 11"
  defines "n \<equiv> (if s then 2 ^ 63 else 0) + e * 2 ^ 52 + f"
  shows "n < 2 ^ 64" "n \<ge> 2 ^ 63 \<longleftrightarrow> s" "n div 2 ^ 52 mod 2 ^ 11 = e" "n mod 2 ^ 52 = f"
proof -
  have "e * 2 ^ 52 \<le> (2 ^ 11 - 1) * 2 ^ 52" using assms(2) by (intro mult_right_mono) auto
  then have "e * 2 ^ 52 + f < 2 ^ 63" using assms(1) by simp
  then show "n < 2 ^ 64" "n \<ge> 2 ^ 63 \<longleftrightarrow> s" by (auto simp: n_def)
  have n: "n = f + ((if s then 2 ^ 11 else 0) + e) * 2 ^ 52" by (simp add: n_def algebra_simps)
  show "n mod 2 ^ 52 = f" unfolding n mod_mult_self1 using assms(1) by simp
  have "n div 2 ^ 52 = (if s then 2 ^ 11 else 0) + e" unfolding n using assms(1) by simp
  then show "n div 2 ^ 52 mod 2 ^ 11 = e" using assms(2) by (auto simp: mod_add_self1)
qed

lemma float_from_nat:
  assumes "f < 2 ^ 52" and "e < 2 ^ 11"
  shows "float_from_bits (of_nat ((if s then 2 ^ 63 else 0) + e * 2 ^ 52 + f)) =
    (if e = 2047 then (if f = 0 then Inf s else NaN)
     else if e = 0 then Fin s f (- 1074) else Fin s (2 ^ 52 + f) (int e - 1075))"
proof -
  note p = float_parts [OF assms, of s]
  have "unat (of_nat ((if s then 2 ^ 63 else 0) + e * 2 ^ 52 + f) :: 64 word) = (if s then 2 ^ 63 else 0) + e * 2 ^ 52 + f"
    by (rule unat_of_nat_64 [OF p(1)])
  then show ?thesis unfolding float_from_bits_def Let_def by (simp only: p)
qed

lemma float_bits_inverse: "f64_ok x \<Longrightarrow> float_from_bits (float_bits x) = x"
proof (induction x rule: float_bits.induct)
  case 1
  show ?case using float_from_nat [of "2 ^ 51 + 1" 2047 False] by simp
next
  case (2 s)
  show ?case using float_from_nat [of 0 2047 s] by simp
next
  case (3 s m e)
  show ?case
  proof (cases "m < 2 ^ 52")
    case True
    then show ?thesis using float_from_nat [of m 0 s] 3 by simp
  next
    case False
    then have "m - 2 ^ 52 < 2 ^ 52" "nat (e + 1075) < 2 ^ 11" using 3 by auto
    note fn = float_from_nat [OF this, of s]
    have "float_bits (Fin s m e) = of_nat ((if s then 2 ^ 63 else 0) + nat (e + 1075) * 2 ^ 52 + (m - 2 ^ 52))"
      using False by (simp only: float_bits.simps if_False add.assoc)
    then have "float_from_bits (float_bits (Fin s m e)) = (if nat (e + 1075) = 2047 then if m - 2 ^ 52 = 0 then Inf s else NaN
      else if nat (e + 1075) = 0 then Fin s (m - 2 ^ 52) (- 1074) else Fin s (2 ^ 52 + (m - 2 ^ 52)) (int (nat (e + 1075)) - 1075))"
      by (simp only: fn)
    then show ?thesis using 3 False by auto
  qed
qed

lemma put_uint64_bytes: "put_uint64 w = map (\<lambda>b. char_of (unat b)) (map (\<lambda>i. take_bit 8 (drop_bit (8 * i) w)) [0..<8])"
  by (simp add: put_uint64_def)

lemma length_put_uint64 [simp]: "length (put_uint64 w) = 8"
  by (simp add: put_uint64_def)

lemma of_char_byte: "of_nat (of_char (char_of (unat (take_bit 8 (w :: 64 word))) :: char)) = take_bit 8 w"
proof -
  have "unat (take_bit 8 w) = take_bit 8 (unat w)" by (simp add: unsigned_take_bit_eq)
  then have "of_char (char_of (unat (take_bit 8 w)) :: char) = unat (take_bit 8 w)" by (simp add: take_bit_eq_mod)
  then show ?thesis by simp
qed

text \<open>A word from its bytes, the least significant first.\<close>

lemma word_split_byte: "take_bit 8 w OR push_bit 8 (drop_bit 8 w) = (w :: 64 word)"
proof (rule bit_eqI)
  fix n
  show "bit (take_bit 8 w OR push_bit 8 (drop_bit 8 w)) n = bit w n"
    using bit_imp_le_length [of w n] by (cases "n < 8") (auto simp: bit_simps)
qed

lemma word_from_bytes:
  "i \<le> 8 \<Longrightarrow> foldr (\<lambda>i v. take_bit 8 (drop_bit (8 * i) w) OR push_bit 8 v) [i..<8] 0 = drop_bit (8 * i) (w :: 64 word)"
proof (induction i rule: inc_induct)
  case base
  show ?case by (rule bit_word_eqI) (simp add: bit_simps)
next
  case (step i)
  have "drop_bit (8 * Suc i) w = drop_bit 8 (drop_bit (8 * i) w)" by (simp add: add.commute)
  then show ?case using step word_split_byte [of "drop_bit (8 * i) w"] by (simp add: upt_conv_Cons)
qed

lemma get_put_uint64: "get_uint64 (put_uint64 w @ s) = w"
proof -
  have "get_uint64 (put_uint64 w @ s) = foldr (\<lambda>i v. take_bit 8 (drop_bit (8 * i) w) OR push_bit 8 v) [0..<8] 0"
    by (simp add: get_uint64_def put_uint64_def foldr_map comp_def of_char_byte del: of_char_of)
  then show ?thesis using word_from_bytes [of 0 w] by simp
qed


lemma drop_blocks:
  "\<forall>x. length (f x) = n \<Longrightarrow> drop (n * i) (concat (map f xs)) = concat (map f (drop i xs))"
proof (induction xs arbitrary: i)
  case (Cons x xs)
  then show ?case by (cases i) (simp_all add: drop_eq_Nil)
qed simp

lemma length_EncodeVector: "length (EncodeVector v) = 8 * length v"
  by (induction v) (simp_all add: EncodeVector_def)

lemma decode_encode_vector:
  assumes "list_all f64_ok v"
  shows "DecodeVector (EncodeVector v) = v"
proof (rule nth_equalityI)
  show len: "length (DecodeVector (EncodeVector v)) = length v" by (simp add: DecodeVector_def length_EncodeVector)
  fix i assume "i < length (DecodeVector (EncodeVector v))"
  then have i: "i < length v" using len by simp
  then have "drop (8 * i) (EncodeVector v) = put_uint64 (float_bits (v ! i)) @ EncodeVector (drop (Suc i) v)"
    unfolding EncodeVector_def by (subst drop_blocks) (simp_all add: Cons_nth_drop_Suc [symmetric])
  then show "DecodeVector (EncodeVector v) ! i = v ! i"
    using i assms by (simp add: DecodeVector_def length_EncodeVector get_put_uint64 float_bits_inverse list_all_length)
qed

text \<open>
  A vector of doubles survives the store bit by bit: eight bytes per component, the least
  significant first, and decoding gives back exactly the components.
\<close>

theorem vector_roundtrip:
  assumes "list_all f64_ok v"
  shows "length (EncodeVector v) = 8 * length v \<and> DecodeVector (EncodeVector v) = v"
  using assms decode_encode_vector length_EncodeVector by simp

section \<open>What is saved is recovered\<close>

subsection \<open>Redis, as far as the store relies on it\<close>

text \<open>
  A Redis that answers, over a view of its clock, its keys and its sorted sets, each of which may
  have a deadline from which on it is gone. A write does what the documentation of its command
  says: \<^verbatim>\<open>SET\<close> sets a key anew, which is gone after the time to live, or stays if that is zero;
  \<^verbatim>\<open>ZADD\<close> adds to a set and keeps its deadline, or makes a new set without one; \<^verbatim>\<open>EXPIRE\<close> gives
  a set that exists a new deadline, and deletes it at once if the time to live is not positive.
  The names of the store keep keys and sets apart.
\<close>

record redis_view =
  rv_now :: instant
  rv_keys :: "string \<rightharpoonup> string \<times> instant option"
  rv_sets :: "string \<rightharpoonup> (string \<rightharpoonup> f64) \<times> instant option"

definition alive :: "instant \<Rightarrow> ('a \<times> instant option) option \<Rightarrow> bool" where
  "alive t x \<longleftrightarrow> (case x of None \<Rightarrow> False | Some (_, None) \<Rightarrow> True | Some (_, Some d) \<Rightarrow> t < d)"

definition live_key :: "redis_view \<Rightarrow> string \<Rightarrow> string option" where
  "live_key v k = (if alive (rv_now v) (rv_keys v k) then map_option fst (rv_keys v k) else None)"

definition live_set :: "redis_view \<Rightarrow> string \<Rightarrow> ((string \<rightharpoonup> f64) \<times> instant option) option" where
  "live_set v k = (if alive (rv_now v) (rv_sets v k) then rv_sets v k else None)"

fun redis_apply :: "redis_write \<Rightarrow> redis_view \<Rightarrow> redis_view" where
  "redis_apply (SetKey k x ttl) v =
     v\<lparr>rv_keys := (rv_keys v)(k \<mapsto> (x, if ttl = 0 then None else Some (rv_now v + ttl)))\<rparr>"
| "redis_apply (ZAddMember k score x) v =
     (let (ms, d) = (case live_set v k of None \<Rightarrow> (Map.empty, None) | Some md \<Rightarrow> md)
      in v\<lparr>rv_sets := (rv_sets v)(k \<mapsto> (ms(x \<mapsto> score), d))\<rparr>)"
| "redis_apply (ExpireKey k ttl) v =
     (case live_set v k of
        None \<Rightarrow> v
      | Some (ms, d) \<Rightarrow> v\<lparr>rv_sets := (rv_sets v)(k := if ttl \<le> 0 then None else Some (ms, Some (rv_now v + ttl)))\<rparr>)"

text \<open>
  The commands of a pipeline run one after the other, and time may pass before each of them and
  after the last. Nobody else writes.
\<close>

inductive redis_run :: "redis_write list \<Rightarrow> redis_view \<Rightarrow> redis_view \<Rightarrow> bool" where
  idle: "rv_now v \<le> t \<Longrightarrow> redis_run [] v (v\<lparr>rv_now := t\<rparr>)"
| command: "rv_now v \<le> t \<Longrightarrow> redis_run cmds (redis_apply cmd (v\<lparr>rv_now := t\<rparr>)) v' \<Longrightarrow> redis_run (cmd # cmds) v v'"

inductive_cases redis_idleE: "redis_run [] v v'"
inductive_cases redis_commandE: "redis_run (cmd # cmds) v v'"

fun get_result :: "(string \<rightharpoonup> string) \<Rightarrow> string \<Rightarrow> go_error option + string" where
  "get_result kv k = (case kv k of None \<Rightarrow> Inl None | Some v \<Rightarrow> Inr v)"

text \<open>The client rounds times to live that are not whole seconds; those are left out.\<close>

fun whole_ttl :: "redis_write \<Rightarrow> bool" where
  "whole_ttl (SetKey k x ttl) \<longleftrightarrow> 0 \<le> ttl \<and> ttl mod 1000000000 = 0"
| "whole_ttl (ExpireKey k ttl) \<longleftrightarrow> ttl mod 1000000000 = 0"
| "whole_ttl (ZAddMember k score x) \<longleftrightarrow> True"

text \<open>Keys that are read one after the other, from the state \<open>v\<close> on and until the time \<open>t'\<close>.\<close>

definition answered :: "redis_view \<Rightarrow> instant \<Rightarrow> string list \<Rightarrow> (go_error option + string) list \<Rightarrow> bool" where
  "answered v t' ks rs \<longleftrightarrow>
     list_all2 (\<lambda>k r. \<exists>t. rv_now v \<le> t \<and> t \<le> t' \<and> r = get_result (live_key (v\<lparr>rv_now := t\<rparr>)) k) ks rs"

definition redis_up :: "'w RedisClient \<Rightarrow> ('w \<Rightarrow> redis_view) \<Rightarrow> bool" where
  "redis_up client view \<longleftrightarrow>
     (\<forall>w. redis_run [] (view w) (view (snd (rc_clock client w)))) \<and>
     (\<forall>cmds w. list_all whole_ttl cmds \<longrightarrow>
        fst (rc_write client cmds w) = None \<and> redis_run cmds (view w) (view (snd (rc_write client cmds w)))) \<and>
     (\<forall>k w. \<exists>ks w' t. rc_zrange client k w = (Inr ks, w') \<and> redis_run [] (view w) (view w') \<and>
        rv_now (view w) \<le> t \<and> t \<le> rv_now (view w') \<and>
        set ks = (case live_set ((view w)\<lparr>rv_now := t\<rparr>) k of None \<Rightarrow> {} | Some (ms, _) \<Rightarrow> dom ms)) \<and>
     (\<forall>ks w. redis_run [] (view w) (view (snd (rc_get client ks w))) \<and>
        answered (view w) (rv_now (view (snd (rc_get client ks w)))) ks (fst (rc_get client ks w)))"

lemma redis_upD:
  assumes "redis_up client view"
  shows "rc_clock client w = (now, w') \<Longrightarrow> redis_run [] (view w) (view w')"
    and "list_all whole_ttl cmds \<Longrightarrow> rc_write client cmds w = (e, w') \<Longrightarrow> e = None \<and> redis_run cmds (view w) (view w')"
    and "\<exists>ks w' t. rc_zrange client k w = (Inr ks, w') \<and> redis_run [] (view w) (view w') \<and>
        rv_now (view w) \<le> t \<and> t \<le> rv_now (view w') \<and>
        set ks = (case live_set ((view w)\<lparr>rv_now := t\<rparr>) k of None \<Rightarrow> {} | Some (ms, _) \<Rightarrow> dom ms)"
    and "rc_get client ks w = (rs, w') \<Longrightarrow> redis_run [] (view w) (view w') \<and> answered (view w) (rv_now (view w')) ks rs"
  using assms unfolding redis_up_def by (metis snd_conv, metis fst_conv snd_conv, meson, metis fst_conv snd_conv)

lemma redis_idle: "redis_run [] v v' \<Longrightarrow> v' = v\<lparr>rv_now := rv_now v'\<rparr> \<and> rv_now v \<le> rv_now v'"
  by (erule redis_idleE) simp

lemma redis_apply_now [simp]: "rv_now (redis_apply cmd v) = rv_now v"
  by (cases cmd) (auto split: prod.split option.split)

lemma rv_now_set: "rv_now (v\<lparr>rv_now := t\<rparr>) = t"
  by simp

lemma redis_run_time: "redis_run cmds v v' \<Longrightarrow> rv_now v \<le> rv_now v'"
  by (induction rule: redis_run.induct) simp_all

lemma idle_command: "redis_run (cmd # cmds) (v\<lparr>rv_now := t\<rparr>) v' \<Longrightarrow> rv_now v \<le> t \<Longrightarrow> redis_run (cmd # cmds) v v'"
  by (erule redis_commandE) (rule redis_run.command, simp_all)

lemma idle_trans: "redis_run [] v v' \<Longrightarrow> redis_run [] v' v'' \<Longrightarrow> redis_run [] v v''"
  using redis_run.idle [of v] by (elim redis_idleE) fastforce

subsection \<open>An entry that Redis holds\<close>

text \<open>The entry is there, and none of its keys and sets is gone before \<open>d\<close>.\<close>

definition lasts :: "instant \<Rightarrow> instant option \<Rightarrow> bool" where
  "lasts d dl \<longleftrightarrow> (case dl of None \<Rightarrow> True | Some e \<Rightarrow> d \<le> e)"

definition holds_until :: "instant \<Rightarrow> redis_view \<Rightarrow> string \<Rightarrow> string \<Rightarrow> f64 list \<Rightarrow> string \<Rightarrow> bool" where
  "holds_until d v m k vec json \<longleftrightarrow>
     (\<exists>dl. rv_keys v (vector_key m k) = Some (EncodeVector vec, dl) \<and> lasts d dl) \<and>
     (\<exists>dl. rv_keys v (response_key m k) = Some (json, dl) \<and> lasts d dl) \<and>
     (\<exists>ms dl. rv_sets v (index_key m) = Some (ms, dl) \<and> k \<in> dom ms \<and> lasts d dl)"

lemma lasts_alive: "lasts d dl \<Longrightarrow> t < d \<Longrightarrow> alive t (Some (x, dl))"
  by (auto simp: lasts_def alive_def split: option.splits)

lemma holds_until_now [simp]: "holds_until d (v\<lparr>rv_now := t\<rparr>) m k vec json = holds_until d v m k vec json"
  by (simp add: holds_until_def)

lemma holds_until_idle: "redis_run [] v v' \<Longrightarrow> holds_until d v' m k vec json = holds_until d v m k vec json"
  by (erule redis_idleE) simp

lemma holds_until_read:
  assumes "holds_until d v m k vec json" and "rv_now v < d"
  shows "live_key v (vector_key m k) = Some (EncodeVector vec)" "live_key v (response_key m k) = Some json"
    "\<exists>ms dl. live_set v (index_key m) = Some (ms, dl) \<and> k \<in> dom ms"
  using assms by (auto simp: holds_until_def live_key_def live_set_def lasts_alive)

text \<open>Commands that leave the entry alone, from the time \<open>t\<close> on.\<close>

fun spares :: "instant \<Rightarrow> instant \<Rightarrow> string \<Rightarrow> string \<Rightarrow> redis_write \<Rightarrow> bool" where
  "spares d t m k (SetKey x y ttl) \<longleftrightarrow> x \<notin> {vector_key m k, response_key m k}"
| "spares d t m k (ZAddMember x score y) \<longleftrightarrow> True"
| "spares d t m k (ExpireKey x ttl) \<longleftrightarrow> 0 < ttl \<and> d \<le> t + ttl"

lemma spared:
  assumes "holds_until d v m k vec json" and "rv_now v < d" and "t \<le> rv_now v" and "spares d t m k cmd"
  shows "holds_until d (redis_apply cmd v) m k vec json"
proof (cases cmd)
  case (SetKey x y ttl)
  then show ?thesis using assms(1,4) by (auto simp: holds_until_def)
next
  case (ZAddMember x score y)
  obtain ms dl where s: "rv_sets v (index_key m) = Some (ms, dl)" "k \<in> dom ms" "lasts d dl"
    using assms(1) by (auto simp: holds_until_def)
  then have "live_set v (index_key m) = Some (ms, dl)" using lasts_alive [OF s(3) assms(2)] by (simp add: live_set_def)
  with s show ?thesis using assms(1) ZAddMember
    by (cases "x = index_key m") (auto simp: holds_until_def split: prod.split)
next
  case (ExpireKey x ttl)
  obtain ms dl where s: "rv_sets v (index_key m) = Some (ms, dl)" "k \<in> dom ms" "lasts d dl"
    using assms(1) by (auto simp: holds_until_def)
  then have l: "live_set v (index_key m) = Some (ms, dl)" using lasts_alive [OF s(3) assms(2)] by (simp add: live_set_def)
  show ?thesis
  proof (cases "x = index_key m")
    case True
    then show ?thesis using assms l s(2) ExpireKey by (auto simp: holds_until_def lasts_def)
  next
    case False
    then show ?thesis using assms(1) ExpireKey by (cases "live_set v x") (auto simp: holds_until_def)
  qed
qed

lemma spared_run:
  "redis_run cmds v v' \<Longrightarrow> holds_until d v m k vec json \<Longrightarrow> rv_now v' < d \<Longrightarrow> t0 \<le> rv_now v \<Longrightarrow>
    list_all (spares d t0 m k) cmds \<Longrightarrow> holds_until d v' m k vec json"
proof (induction rule: redis_run.induct)
  case (idle v t)
  then show ?case by simp
next
  case (command v t cmds cmd v')
  let ?v = "v\<lparr>rv_now := t\<rparr>"
  have "t < d" using redis_run_time [OF command(2)] command.prems(2) by simp
  then have "holds_until d (redis_apply cmd ?v) m k vec json"
    using command.prems command(1) by (intro spared [where t = t0]) simp_all
  then show ?case using command.IH command.prems command(1) by simp
qed

subsection \<open>Saving\<close>

definition save_commands :: "string \<Rightarrow> string \<Rightarrow> f64 list \<Rightarrow> string \<Rightarrow> duration \<Rightarrow> f64 \<Rightarrow> redis_write list" where
  "save_commands m k vec json ttl score = [SetKey (vector_key m k) (EncodeVector vec) ttl, SetKey (response_key m k) json ttl,
     ZAddMember (index_key m) score k, ExpireKey (index_key m) ttl]"

lemma Save_runs:
  assumes "redis_up client view" and "0 \<le> ttl" and "ttl mod 1000000000 = 0"
    and "redis_Save client m k vec json ttl w = (r, w')"
  shows "\<exists>score. r = None \<and> redis_run (save_commands m k vec json ttl score) (view w) (view w')"
proof -
  obtain now w1 where c: "rc_clock client w = (now, w1)" by fastforce
  let ?cmds = "save_commands m k vec json ttl (f64_of_int (now div 1000000000))"
  have "rc_write client ?cmds w1 = (r, w')" using assms(4) c by (simp add: redis_Save_def save_commands_def)
  moreover have "list_all whole_ttl ?cmds" using assms(2,3) by (simp add: save_commands_def)
  ultimately have "r = None" "redis_run ?cmds (view w1) (view w')"
    using redis_upD(2) [OF assms(1)] by blast+
  moreover have "redis_run [] (view w) (view w1)" using redis_upD(1) [OF assms(1) c] .
  then have "view w1 = (view w)\<lparr>rv_now := rv_now (view w1)\<rparr>" "rv_now (view w) \<le> rv_now (view w1)" using redis_idle by blast+
  ultimately have "redis_run ?cmds (view w) (view w')"
    using idle_command unfolding save_commands_def by metis
  then show ?thesis using \<open>r = None\<close> by blast
qed

text \<open>
  The index of the model either does not reach its deadline while the entry is saved, or had
  reached it before; otherwise it may be gone between \<^verbatim>\<open>ZADD\<close> and \<^verbatim>\<open>EXPIRE\<close>, and the entry with it.
\<close>

definition index_steady :: "string \<Rightarrow> redis_view \<Rightarrow> redis_view \<Rightarrow> bool" where
  "index_steady m v v' \<longleftrightarrow>
     (case rv_sets v (index_key m) of Some (_, Some e) \<Rightarrow> e \<le> rv_now v \<or> rv_now v' < e | _ \<Rightarrow> True)"

lemma save_holds:
  assumes "redis_run (save_commands m k vec json ttl score) v v'" and "0 < ttl" and "index_steady m v v'"
  shows "holds_until (rv_now v + ttl) v' m k vec json"
proof -
  obtain t1 t2 t3 t4 t5 where t: "rv_now v \<le> t1" "t1 \<le> t2" "t2 \<le> t3" "t3 \<le> t4" "t4 \<le> t5" and
    v': "v' = (redis_apply (ExpireKey (index_key m) ttl) ((redis_apply (ZAddMember (index_key m) score k)
      ((redis_apply (SetKey (response_key m k) json ttl) ((redis_apply (SetKey (vector_key m k) (EncodeVector vec) ttl)
        (v\<lparr>rv_now := t1\<rparr>))\<lparr>rv_now := t2\<rparr>))\<lparr>rv_now := t3\<rparr>))\<lparr>rv_now := t4\<rparr>))\<lparr>rv_now := t5\<rparr>"
    using assms(1) unfolding save_commands_def
    by (elim redis_commandE redis_idleE) (simp (no_asm_use) only: redis_apply_now rv_now_set, rule that, assumption+)
  have k: "vector_key m k \<noteq> response_key m k" by (simp add: vector_key_def response_key_def)
  define old where "old = (if alive t3 (rv_sets v (index_key m)) then rv_sets v (index_key m) else None)"
  obtain ms dl where z: "(case old of None \<Rightarrow> (Map.empty, None) | Some md \<Rightarrow> md) = (ms, dl)" by fastforce
  have "alive t4 (Some (x, dl))" for x :: "string \<rightharpoonup> f64"
    using assms(3) t z by (auto simp: old_def index_steady_def alive_def v' split: option.splits if_splits)
  then have al: "alive t4 (Some (ms(k \<mapsto> score), dl))" .
  let ?keys = "(rv_keys v)(vector_key m k \<mapsto> (EncodeVector vec, Some (t1 + ttl)), response_key m k \<mapsto> (json, Some (t2 + ttl)))"
  let ?v3 = "v\<lparr>rv_keys := ?keys, rv_now := t3\<rparr>"
  let ?v4 = "v\<lparr>rv_keys := ?keys, rv_now := t4, rv_sets := (rv_sets v)(index_key m \<mapsto> (ms(k \<mapsto> score), dl))\<rparr>"
  have "live_set ?v3 (index_key m) = old" by (simp add: live_set_def old_def)
  then have add: "redis_apply (ZAddMember (index_key m) score k) ?v3 = ?v4\<lparr>rv_now := t3\<rparr>" using z by (simp add: Let_def)
  have later: "?v4\<lparr>rv_now := t3, rv_now := t4\<rparr> = ?v4" by simp
  have "live_set ?v4 (index_key m) = Some (ms(k \<mapsto> score), dl)" using al by (simp add: live_set_def)
  then have expire: "redis_apply (ExpireKey (index_key m) ttl) ?v4 =
      ?v4\<lparr>rv_sets := (rv_sets v)(index_key m \<mapsto> (ms(k \<mapsto> score), Some (t4 + ttl)))\<rparr>" using assms(2) by simp
  have "v' = redis_apply (ExpireKey (index_key m) ttl) (redis_apply (ZAddMember (index_key m) score k) ?v3\<lparr>rv_now := t4\<rparr>)
      \<lparr>rv_now := t5\<rparr>" using assms(2) by (simp add: v' del: redis_apply.simps(2,3))
  then show ?thesis unfolding add later expire using t k by (simp add: holds_until_def lasts_def)
qed

text \<open>Entries saved one after the other with the same time to live.\<close>

fun save_all :: "'w RedisClient \<Rightarrow> duration \<Rightarrow> (string \<times> string \<times> f64 list \<times> string) list \<Rightarrow> 'w \<Rightarrow> 'w" where
  "save_all client ttl [] w = w"
| "save_all client ttl ((m, k, vec, json) # es) w = save_all client ttl es (snd (redis_Save client m k vec json ttl w))"

lemma save_all_time:
  assumes "redis_up client view" and "0 \<le> ttl" and "ttl mod 1000000000 = 0"
  shows "rv_now (view w) \<le> rv_now (view (save_all client ttl es w))"
proof (induction es arbitrary: w)
  case (Cons e es)
  obtain m k vec json where e: "e = (m, k, vec, json)" by (metis prod_cases4)
  obtain r w1 where s: "redis_Save client m k vec json ttl w = (r, w1)" by fastforce
  from Save_runs [OF assms s] have "rv_now (view w) \<le> rv_now (view w1)" using redis_run_time by blast
  then show ?case using Cons.IH [of w1] e s by simp
qed simp

lemma save_all_holds:
  assumes up: "redis_up client view" and "0 < ttl" and "ttl mod 1000000000 = 0"
  shows "holds_until d (view w) m k vec json \<Longrightarrow> d \<le> rv_now (view w) + ttl \<Longrightarrow>
    \<forall>e \<in> set es. vector_key (fst e) (fst (snd e)) \<noteq> vector_key m k \<Longrightarrow> rv_now (view (save_all client ttl es w)) < d \<Longrightarrow>
    holds_until d (view (save_all client ttl es w)) m k vec json"
proof (induction es arbitrary: w)
  case (Cons e es)
  obtain m' k' vec' json' where e: "e = (m', k', vec', json')" by (metis prod_cases4)
  obtain r w1 where s: "redis_Save client m' k' vec' json' ttl w = (r, w1)" by fastforce
  obtain score where run: "redis_run (save_commands m' k' vec' json' ttl score) (view w) (view w1)"
    using Save_runs [OF up _ assms(3) s] assms(2) by auto
  have "vector_key m' k' \<noteq> vector_key m k" using Cons.prems(3) e by simp
  then have keys: "vector_key m' k' \<notin> {vector_key m k, response_key m k}" "response_key m' k' \<notin> {vector_key m k, response_key m k}"
    by (auto simp: vector_key_def response_key_def)
  have "rv_now (view w1) < d" using save_all_time [OF up _ assms(3), of w1 es] Cons.prems(4) e s assms(2) by simp
  then have "holds_until d (view w1) m k vec json"
    using spared_run [OF run Cons.prems(1), of "rv_now (view w)"] keys Cons.prems(2) assms(2) by (simp add: save_commands_def)
  moreover have "d \<le> rv_now (view w1) + ttl" using redis_run_time [OF run] Cons.prems(2) by simp
  ultimately show ?case using Cons.IH [of w1] Cons.prems e s by simp
qed simp

subsection \<open>Loading\<close>

lemma pipeline_error_gets:
  assumes "answered v t' ks rs"
  shows "pipeline_error rs \<noteq> Some (Some e)"
proof -
  have "r \<noteq> Inl (Some e)" if "r \<in> set rs" for r
    using assms that by (auto simp: answered_def list_all2_conv_all_nth in_set_conv_nth split: option.splits)
  moreover have "x \<in> set rs" if "filter (\<lambda>r. \<exists>e. r = Inl e) rs = x # xs" for x xs
    using that by (metis filter_is_subset list.set_intros(1) subsetD)
  ultimately show ?thesis
    unfolding pipeline_error_def by (cases "filter (\<lambda>r. \<exists>e. r = Inl e) rs") (auto split: sum.split)
qed

lemma loaded_entries_hold:
  assumes "k \<in> set ks" and "list_all2 Q (concat (map (\<lambda>k. [vector_key m k, response_key m k]) ks)) rs"
    and "\<And>r. Q (vector_key m k) r \<Longrightarrow> r = Inr (EncodeVector vec)" and "\<And>r. Q (response_key m k) r \<Longrightarrow> r = Inr json"
    and "list_all f64_ok vec"
  shows "\<exists>e \<in> set (loaded_entries m ks rs). ce_key e = k \<and> ce_model e = m \<and> ce_vector e = vec \<and> ce_json e = json"
  using assms(1,2)
proof (induction ks arbitrary: rs)
  case (Cons x ks)
  then obtain r1 r2 rs' where rs: "rs = r1 # r2 # rs'" and q: "Q (vector_key m x) r1" "Q (response_key m x) r2"
    "list_all2 Q (concat (map (\<lambda>k. [vector_key m k, response_key m k]) ks)) rs'"
    by (auto simp: list_all2_Cons1)
  show ?case
  proof (cases "k = x")
    case True
    then show ?thesis using assms(3) [of r1] assms(4) [of r2] q decode_encode_vector [OF assms(5)] rs by simp
  next
    case False
    then show ?thesis using Cons.IH [OF _ q(3)] Cons.prems(1) rs by (auto split: sum.split)
  qed
qed simp

lemma redis_LoadAll_time:
  assumes "redis_up client view"
  shows "\<exists>es w'. redis_LoadAll client m w = (Inr es, w') \<and> redis_run [] (view w) (view w')"
proof -
  obtain ks w1 where z: "rc_zrange client (index_key m) w = (Inr ks, w1)" and r1: "redis_run [] (view w) (view w1)"
    using redis_upD(3) [OF assms] by meson
  let ?gs = "concat (map (\<lambda>k. [vector_key m k, response_key m k]) ks)"
  obtain rs w2 where g: "rc_get client ?gs w1 = (rs, w2)" by fastforce
  note r2 = redis_upD(4) [OF assms g]
  have "\<exists>es w'. redis_LoadAll client m w = (Inr es, w') \<and> (w' = w1 \<or> w' = w2)"
    using z g pipeline_error_gets [OF r2 [THEN conjunct2]] by (auto simp: redis_LoadAll_def split: option.split)
  moreover have "redis_run [] (view w) (view w2)" using idle_trans [OF r1 r2 [THEN conjunct1]] .
  ultimately show ?thesis using r1 by blast
qed

lemma redis_LoadAll_holds:
  assumes up: "redis_up client view" and hold: "holds_until d (view w) m k vec json" and "list_all f64_ok vec"
    and load: "redis_LoadAll client m w = (r, w')" and before: "rv_now (view w') < d"
  shows "\<exists>es. r = Inr es \<and> (\<exists>e \<in> set es. ce_key e = k \<and> ce_model e = m \<and> ce_vector e = vec \<and> ce_json e = json)"
proof -
  obtain ks w1 t where z: "rc_zrange client (index_key m) w = (Inr ks, w1)" and r1: "redis_run [] (view w) (view w1)"
    and t: "rv_now (view w) \<le> t" "t \<le> rv_now (view w1)"
    and ks: "set ks = (case live_set ((view w)\<lparr>rv_now := t\<rparr>) (index_key m) of None \<Rightarrow> {} | Some (ms, _) \<Rightarrow> dom ms)"
    using redis_upD(3) [OF up] by meson
  let ?gs = "concat (map (\<lambda>k. [vector_key m k, response_key m k]) ks)"
  let ?Q = "\<lambda>k r. \<exists>t. rv_now (view w1) \<le> t \<and> t \<le> rv_now (view w') \<and> r = get_result (live_key ((view w1)\<lparr>rv_now := t\<rparr>)) k"
  obtain rs w2 where g: "rc_get client ?gs w1 = (rs, w2)" by fastforce
  note gets = redis_upD(4) [OF up g]
  have pe: "pipeline_error rs \<noteq> Some (Some e)" for e by (rule pipeline_error_gets [OF gets [THEN conjunct2]])
  have r: "(r, w') = (if ks = [] then (Inr [], w1) else (Inr (loaded_entries m ks rs), w2))"
    using load z g by (auto simp: redis_LoadAll_def pe split: option.splits)
  then have "t < d" using t(2) before redis_run_time [OF gets [THEN conjunct1]] by (auto split: if_splits)
  moreover have "holds_until d ((view w)\<lparr>rv_now := t\<rparr>) m k vec json" using hold by simp
  ultimately obtain ms dl where "live_set ((view w)\<lparr>rv_now := t\<rparr>) (index_key m) = Some (ms, dl)" "k \<in> dom ms"
    using holds_until_read(3) rv_now_set by metis
  then have "k \<in> set ks" by (simp add: ks)
  then have ne: "ks \<noteq> []" by auto
  have hold1: "holds_until d (view w1) m k vec json" using holds_until_idle [OF r1] hold by simp
  have "list_all2 ?Q ?gs rs" using gets ne r by (simp add: answered_def)
  moreover have "q = Inr (EncodeVector vec)" if "?Q (vector_key m k) q" for q
    using that before hold1 by (auto simp: holds_until_read(1) [where d = d and vec = vec and json = json])
  moreover have "q = Inr json" if "?Q (response_key m k) q" for q
    using that before hold1 by (auto simp: holds_until_read(2) [where d = d and vec = vec and json = json])
  ultimately show ?thesis using loaded_entries_hold [OF \<open>k \<in> set ks\<close>, of ?Q m rs vec json] assms(3) r ne by simp
qed

definition recovers :: "string \<Rightarrow> string \<Rightarrow> f64 list \<Rightarrow> string \<Rightarrow> 'w SemanticCache \<Rightarrow> bool" where
  "recovers m k vec json c \<longleftrightarrow> (\<exists>e \<in> set (ca_entries c m).
     ce_key e = k \<and> ce_model e = m \<and> ce_vector e = vec \<and> ce_json e = json)"

lemma load_models_time:
  assumes "redis_up client view"
  shows "rv_now (view w) \<le> rv_now (view (snd (load_models (rc_clock client) (redis_store client) ms (c, w))))"
proof (induction ms arbitrary: c w)
  case (Cons x ms)
  obtain es w1 where l: "redis_LoadAll client x w = (Inr es, w1)" and "redis_run [] (view w) (view w1)"
    using redis_LoadAll_time [OF assms] by blast
  then have t1: "rv_now (view w) \<le> rv_now (view w1)" using redis_run_time by blast
  obtain now w2 where n: "rc_clock client w1 = (now, w2)" by fastforce
  have "redis_run [] (view w1) (view w2)" using redis_upD(1) [OF assms n] .
  then have t2: "rv_now (view w1) \<le> rv_now (view w2)" by (rule redis_run_time)
  have st: "st_LoadAll (redis_store client) = redis_LoadAll client" by (simp add: redis_store_def)
  show ?case using Cons.IH [of w1] Cons.IH [of w2] t1 t2 by (auto simp: st l n intro: order_trans)
qed simp

lemma load_models_recovers:
  assumes up: "redis_up client view" and vec: "list_all f64_ok vec"
  shows "holds_until d (view w) m k vec json \<Longrightarrow>
    rv_now (view (snd (load_models (rc_clock client) (redis_store client) ms (c, w)))) < d \<Longrightarrow>
    m \<in> set ms \<or> recovers m k vec json c \<Longrightarrow>
    recovers m k vec json (fst (load_models (rc_clock client) (redis_store client) ms (c, w)))"
proof (induction ms arbitrary: c w)
  case (Cons x ms)
  obtain es w1 where l: "redis_LoadAll client x w = (Inr es, w1)" and r1: "redis_run [] (view w) (view w1)"
    using redis_LoadAll_time [OF up] by blast
  obtain now w2 where n: "rc_clock client w1 = (now, w2)" by fastforce
  have r2: "redis_run [] (view w1) (view w2)" using redis_upD(1) [OF up n] .
  let ?fresh = "map (\<lambda>e. e\<lparr>ce_storedAt := now, ce_lastAccess := now\<rparr>) es"
  let ?c = "c\<lparr>ca_entries := (ca_entries c)(x := ca_entries c x @ ?fresh)\<rparr>"
  have st: "st_LoadAll (redis_store client) = redis_LoadAll client" by (simp add: redis_store_def)
  have load: "load_models (rc_clock client) (redis_store client) (x # ms) (c, w) =
      (if es = [] then load_models (rc_clock client) (redis_store client) ms (c, w1)
       else load_models (rc_clock client) (redis_store client) ms (?c, w2))"
    by (simp add: st l n)
  have t1: "rv_now (view w1) < d"
    using Cons.prems(2) load_models_time [OF up, of w1 ms c] load_models_time [OF up, of w2 ms ?c] redis_run_time [OF r2]
    unfolding load by (auto split: if_splits)
  have here: "recovers m k vec json ?c \<and> es \<noteq> []" if "x = m"
  proof -
    have "\<exists>e \<in> set es. ce_key e = k \<and> ce_model e = m \<and> ce_vector e = vec \<and> ce_json e = json"
      using redis_LoadAll_holds [OF up Cons.prems(1) vec _ t1] l that by auto
    then obtain e where e: "e \<in> set es" "ce_key e = k" "ce_model e = m" "ce_vector e = vec" "ce_json e = json" by blast
    then have "es \<noteq> []" by auto
    moreover have "recovers m k vec json ?c"
      unfolding recovers_def using e that by (intro bexI [of _ "e\<lparr>ce_storedAt := now, ce_lastAccess := now\<rparr>"]) auto
    ultimately show ?thesis by blast
  qed
  have later: "recovers m k vec json ?c" if "recovers m k vec json c" using that by (auto simp: recovers_def)
  have h: "holds_until d (view w1) m k vec json" "holds_until d (view w2) m k vec json"
    using Cons.prems(1) holds_until_idle [OF r1] holds_until_idle [OF r2] by simp_all
  show ?case
  proof (cases "es = []")
    case True
    then show ?thesis using Cons.IH [OF h(1)] Cons.prems(2,3) here unfolding load by auto
  next
    case False
    then show ?thesis using Cons.IH [OF h(2)] Cons.prems(2,3) here later unfolding load by auto
  qed
qed simp

text \<open>
  C30. What was saved can be loaded: where Redis answers and nobody else writes to it, a new cache
  that loads the models it was given holds every entry that was saved, under its model, with its
  vector and its response unchanged, as long as loading ends before the time to live of the entry
  is over; whatever other entries were saved with the same time to live in between. The time to live is a positive number of whole seconds; the index of the model must
  not reach an earlier deadline in the middle of the save, since its commands are not a
  transaction. The gateway itself never has its cache load anything.
\<close>

theorem load_recovers_entry:
  assumes "redis_up client view" and "list_all f64_ok vec" and "m \<in> set models"
    and "0 < ttl" and "ttl mod 1000000000 = 0"
    and "redis_Save client m k vec json ttl w = (r, w1)" and "index_steady m (view w) (view w1)"
    and "\<forall>e \<in> set es. vector_key (fst e) (fst (snd e)) \<noteq> vector_key m k"
    and "redis_run [] (view (save_all client ttl es w1)) (view w2)"
    and "LoadFromStore (rc_clock client) (SetModels models (cache_New cfg emb (Some (redis_store client))), w2) = (c, w3)"
    and "rv_now (view w3) < rv_now (view w) + ttl"
  shows "r = None \<and> recovers m k vec json c"
proof -
  let ?d = "rv_now (view w) + ttl"
  let ?c = "SetModels models (cache_New cfg emb (Some (redis_store client)))"
  obtain score where r: "r = None" and run: "redis_run (save_commands m k vec json ttl score) (view w) (view w1)"
    using Save_runs [OF assms(1) _ assms(5,6)] assms(4) by auto
  note h1 = save_holds [OF run assms(4,7)]
  have load: "load_models (rc_clock client) (redis_store client) models (?c, w2) = (c, w3)"
    using assms(10) by (simp add: LoadFromStore_def cache_defs)
  have "rv_now (view w2) \<le> rv_now (view w3)" using load_models_time [OF assms(1), of w2 models ?c] load by simp
  then have "rv_now (view (save_all client ttl es w1)) < ?d" using redis_run_time [OF assms(9)] assms(11) by simp
  then have "holds_until ?d (view (save_all client ttl es w1)) m k vec json"
    using redis_run_time [OF run] assms(8) by (intro save_all_holds [OF assms(1,4,5) h1]) simp_all
  then have "holds_until ?d (view w2) m k vec json" using holds_until_idle [OF assms(9)] by simp
  from load_models_recovers [OF assms(1,2) this, of models ?c] show ?thesis using load assms(3,11) r by simp
qed

text \<open>With no time to live the store deletes the index that it has just added the entry to.\<close>

lemma zero_ttl_deletes_index:
  assumes "redis_run (save_commands m k vec json 0 score) v v'"
  shows "live_set v' (index_key m) = None"
proof -
  have idle: "live_set v (index_key m) = None \<Longrightarrow> rv_now v \<le> t \<Longrightarrow> live_set (v\<lparr>rv_now := t\<rparr>) (index_key m) = None" for v t
    by (auto simp: live_set_def alive_def split: option.splits if_splits)
  have "live_set (redis_apply (ExpireKey (index_key m) 0) u) (index_key m) = None" for u
    by (auto simp: live_set_def alive_def split: option.split)
  with idle show ?thesis using assms unfolding save_commands_def
    by (elim redis_commandE redis_idleE) (simp del: redis_apply.simps)
qed

subsection \<open>An instance\<close>

text \<open>A Redis in memory, with its sorted sets as association lists; every reading of the clock takes a millisecond.\<close>

record mem_redis =
  mr_now :: instant
  mr_keys :: "string \<rightharpoonup> string \<times> instant option"
  mr_sets :: "string \<rightharpoonup> (string \<times> f64) list \<times> instant option"

fun mem_apply :: "redis_write \<Rightarrow> mem_redis \<Rightarrow> mem_redis" where
  "mem_apply (SetKey k x ttl) w =
     w\<lparr>mr_keys := (mr_keys w)(k \<mapsto> (x, if ttl = 0 then None else Some (mr_now w + ttl)))\<rparr>"
| "mem_apply (ZAddMember k score x) w =
     (let (l, d) = (if alive (mr_now w) (mr_sets w k) then the (mr_sets w k) else ([], None))
      in w\<lparr>mr_sets := (mr_sets w)(k \<mapsto> (AList.update x score l, d))\<rparr>)"
| "mem_apply (ExpireKey k ttl) w =
     (if alive (mr_now w) (mr_sets w k)
      then w\<lparr>mr_sets := (mr_sets w)(k := if ttl \<le> 0 then None else Some (fst (the (mr_sets w k)), Some (mr_now w + ttl)))\<rparr>
      else w)"

definition mem_view :: "mem_redis \<Rightarrow> redis_view" where
  "mem_view w = \<lparr>rv_now = mr_now w, rv_keys = mr_keys w,
     rv_sets = (\<lambda>k. map_option (\<lambda>(l, d). (map_of l, d)) (mr_sets w k))\<rparr>"

definition mem_client :: "mem_redis RedisClient" where
  "mem_client = \<lparr>rc_ping = (\<lambda>w. (None, w)), rc_clock = (\<lambda>w. (mr_now w, w\<lparr>mr_now := mr_now w + 1000000\<rparr>)),
     rc_write = (\<lambda>cmds w. (None, fold mem_apply cmds w)),
     rc_zrange = (\<lambda>k w. (Inr (if alive (mr_now w) (mr_sets w k) then map fst (fst (the (mr_sets w k))) else []), w)),
     rc_get = (\<lambda>ks w. (map (get_result (live_key (mem_view w))) ks, w))\<rparr>"

lemma mem_client_simps [simp]:
  "rc_clock mem_client w = (mr_now w, w\<lparr>mr_now := mr_now w + 1000000\<rparr>)"
  "rc_write mem_client cmds w = (None, fold mem_apply cmds w)"
  "rc_zrange mem_client k w = (Inr (if alive (mr_now w) (mr_sets w k) then map fst (fst (the (mr_sets w k))) else []), w)"
  "rc_get mem_client ks w = (map (get_result (live_key (mem_view w))) ks, w)"
  by (simp_all add: mem_client_def)

lemma alive_mapped [simp]: "alive t (map_option (\<lambda>(l, d). (f l, d)) x) = alive t x"
  by (auto simp: alive_def split: option.split)

lemma alive_Some: "alive t x \<Longrightarrow> \<exists>y d. x = Some (y, d)"
  by (auto simp: alive_def split: option.splits)

lemma mem_apply_view: "mem_view (mem_apply cmd w) = redis_apply cmd (mem_view w)"
proof (cases cmd)
  case (SetKey k x ttl)
  then show ?thesis by (simp add: mem_view_def)
next
  case (ZAddMember k score x)
  then show ?thesis using alive_Some [of "mr_now w" "mr_sets w k"]
    by (auto simp: mem_view_def live_set_def update_conv' fun_eq_iff)
next
  case (ExpireKey k ttl)
  then show ?thesis using alive_Some [of "mr_now w" "mr_sets w k"]
    by (auto simp: mem_view_def live_set_def fun_eq_iff)
qed

lemma same_time [simp]: "v\<lparr>rv_now := rv_now v\<rparr> = v"
  by simp

lemma mem_runs: "redis_run cmds (mem_view w) (mem_view (fold mem_apply cmds w))"
proof (induction cmds arbitrary: w)
  case Nil
  show ?case using redis_run.idle [of "mem_view w" "rv_now (mem_view w)"] by simp
next
  case (Cons cmd cmds)
  then show ?case using redis_run.command [of "mem_view w" "rv_now (mem_view w)" cmds cmd] Cons.IH [of "mem_apply cmd w"]
    by (simp add: mem_apply_view)
qed

lemma mem_client_up: "redis_up mem_client mem_view"
  unfolding redis_up_def
proof (intro conjI allI impI)
  show "redis_run [] (mem_view w) (mem_view (snd (rc_clock mem_client w)))" for w
    using redis_run.idle [of "mem_view w" "mr_now w + 1000000"] by (simp add: mem_view_def)
  have idle: "redis_run [] (mem_view w) (mem_view w)" for w using mem_runs [of "[]" w] by simp
  then show "redis_run [] (mem_view w) (mem_view (snd (rc_get mem_client ks w)))" for w ks by simp
  show "\<exists>ks w' t. rc_zrange mem_client k w = (Inr ks, w') \<and> redis_run [] (mem_view w) (mem_view w') \<and>
      rv_now (mem_view w) \<le> t \<and> t \<le> rv_now (mem_view w') \<and>
      set ks = (case live_set ((mem_view w)\<lparr>rv_now := t\<rparr>) k of None \<Rightarrow> {} | Some (ms, _) \<Rightarrow> dom ms)" for k w
    using idle [of w] alive_Some [of "mr_now w" "mr_sets w k"]
    by (intro exI [of _ "if alive (mr_now w) (mr_sets w k) then map fst (fst (the (mr_sets w k))) else []"]
        exI [of _ w] exI [of _ "mr_now w"])
      (auto simp: mem_view_def live_set_def dom_map_of_conv_image_fst, force)
  show "answered (mem_view w) (rv_now (mem_view (snd (rc_get mem_client ks w)))) ks (fst (rc_get mem_client ks w))" for ks w
    by (auto simp: answered_def list_all2_conv_all_nth intro!: exI [of _ "rv_now (mem_view w)"])
qed (use mem_runs in simp_all)

lemma mem_apply_now: "mr_now (fold mem_apply cmds w) = mr_now w"
proof (induction cmds arbitrary: w)
  case (Cons cmd cmds)
  have "mr_now (mem_apply cmd w) = mr_now w" by (cases cmd) (auto simp: Let_def split: prod.split)
  then show ?case using Cons.IH [of "mem_apply cmd w"] by simp
qed simp

lemma mem_Save: "redis_Save mem_client m k vec json ttl w =
    (None, snd (redis_Save mem_client m k vec json ttl w)) \<and> mr_now (snd (redis_Save mem_client m k vec json ttl w)) = mr_now w + 1000000"
  by (simp add: redis_Save_def mem_apply_now del: fold.simps)

lemma mem_load_time:
  "mr_now (snd (load_models (rc_clock mem_client) (redis_store mem_client) ms (c, w))) \<le> mr_now w + 1000000 * int (length ms)"
proof (induction ms arbitrary: c w)
  case (Cons m ms)
  have "snd (redis_LoadAll mem_client m w) = w"
    by (auto simp: redis_LoadAll_def split: option.split)
  then obtain r where l: "redis_LoadAll mem_client m w = (r, w)" by (metis prod.collapse)
  have st: "st_LoadAll (redis_store mem_client) = redis_LoadAll mem_client" by (simp add: redis_store_def)
  show ?case
    using Cons.IH [of c w] Cons.IH [of _ "w\<lparr>mr_now := mr_now w + 1000000\<rparr>"]
    by (cases r) (auto simp: st l algebra_simps intro: order_trans)
qed simp

theorem vector_roundtrip_witness:
  "DecodeVector (EncodeVector [f64_of_int 1, fzero, NaN]) = [f64_of_int 1, fzero, NaN]"
proof -
  have "f64_ok (f64_of_int 1)" by code_simp
  with vector_roundtrip [of "[f64_of_int 1, fzero, NaN]"] show ?thesis by simp
qed

text \<open>Two entries saved with a time to live of a minute; the first is loaded half a minute later.\<close>

theorem load_recovers_entry_witness:
  "\<exists>w1 w2. redis_Save mem_client ''m'' ''k'' [fzero] ''{}'' 60000000000 \<lparr>mr_now = 0, mr_keys = Map.empty, mr_sets = Map.empty\<rparr> = (None, w1) \<and>
     w2 = (save_all mem_client 60000000000 [(''m'', ''j'', [], ''[]'')] w1)\<lparr>mr_now := 30000000000\<rparr> \<and>
     recovers ''m'' ''k'' [fzero] ''{}'' (fst (LoadFromStore (rc_clock mem_client)
       (SetModels [''a'', ''m''] (cache_New \<lparr>sg_enabled = True, sg_threshold = fzero, sg_maxEntries = 5, sg_ttl = 60000000000,
          sg_maxPromptLength = 0\<rparr> None (Some (redis_store mem_client))), w2)))"
proof -
  let ?w = "\<lparr>mr_now = 0, mr_keys = Map.empty, mr_sets = Map.empty\<rparr>"
  let ?c = "SetModels [''a'', ''m''] (cache_New \<lparr>sg_enabled = True, sg_threshold = fzero, sg_maxEntries = 5, sg_ttl = 60000000000,
          sg_maxPromptLength = 0\<rparr> None (Some (redis_store mem_client)))"
  define w1 where "w1 = snd (redis_Save mem_client ''m'' ''k'' [fzero] ''{}'' 60000000000 ?w)"
  have s: "redis_Save mem_client ''m'' ''k'' [fzero] ''{}'' 60000000000 ?w = (None, w1)" "mr_now w1 = 1000000"
    unfolding w1_def using mem_Save [of "''m''" "''k''" "[fzero]" "''{}''" 60000000000 ?w] by simp_all
  define u where "u = save_all mem_client 60000000000 [(''m'', ''j'', [], ''[]'')] w1"
  define w2 where "w2 = u\<lparr>mr_now := 30000000000\<rparr>"
  have u: "mr_now u = 2000000" unfolding u_def using mem_Save [of "''m''" "''j''" "[]" "''[]''" 60000000000 w1] s(2) by simp
  then have idle: "redis_run [] (mem_view u) (mem_view w2)"
    using redis_run.idle [of "mem_view u" 30000000000] by (simp add: w2_def mem_view_def)
  obtain c w3 where l: "LoadFromStore (rc_clock mem_client) (?c, w2) = (c, w3)" by fastforce
  have "mr_now w3 \<le> 30000000000 + 2000000"
    using mem_load_time [of "[''a'', ''m'']" ?c w2] l by (simp add: LoadFromStore_def cache_defs w2_def)
  then have "rv_now (mem_view w3) < rv_now (mem_view ?w) + 60000000000" by (simp add: mem_view_def)
  with load_recovers_entry [OF mem_client_up _ _ _ _ s(1) _ _ idle [unfolded u_def] l] have "recovers ''m'' ''k'' [fzero] ''{}'' c"
    by (simp add: index_steady_def mem_view_def vector_key_def)
  then show ?thesis using s(1) l by (intro exI [of _ w1] exI [of _ w2]) (simp add: w2_def u_def)
qed

end
