(* ===== verification/Balancer_Fairness.thy ===== *)
theory Balancer_Fairness
  imports Balancer
begin

text \<open>
  The balancer on whole-number weights. While the numbers involved stay within \<open>2^53\<close>,
  binary64 arithmetic is exact, so a selection is one round of the integer specification
  \<^theory_text>\<open>Swrr_Spec\<close>; the share of each provider over a full period follows.
\<close>

section \<open>Exactness of the arithmetic involved\<close>

lemma fminus_facts [simp]:
  "is_fin (fminus x) = is_fin x" "is_fin x \<Longrightarrow> fneg (fminus x) = (\<not> fneg x)"
  "fval (fminus x) = - fval x"
  by (cases x; simp)+

lemma fsub_of_int:
  assumes "int_exact a" and "int_exact b"
  shows "fsub (f64_of_int a) (f64_of_int b) = f64_of_int (a - b)"
proof -
  have "real_of_int a + - real_of_int b = of_int (a - b)"
    and "(real_of_int (a - b) < 0) = (a - b < 0)" and "(real_of_int (a - b) = 0) = (a - b = 0)"
    by (simp, simp only: of_int_less_0_iff, simp only: of_int_eq_0_iff)
  then show ?thesis
    using assms by (simp only: fsub_def fadd_val fminus_facts f64_of_int_facts
        f64_of_int_real [of "a - b"] Let_def) (auto simp: round_real_def)
qed

lemma fval_initial_best: "is_fin initial_best" "fval initial_best = - (2 ^ 63)"
proof -
  have "log 2 ((2::real) ^ 63) = real 63" by (rule log_pow_cancel) simp_all
  then have e: "round_exp (2 ^ 63) = 11" by (simp add: round_exp_def del: power_numeral)
  have "is_fin (round_real True (2 ^ 63)) \<and> fneg (round_real True (2 ^ 63)) = True \<and>
      fval (round_real True (2 ^ 63)) = (if True then - (2 ^ 63) else 2 ^ 63)"
    by (rule round_real_exact [where k = "2 ^ 52"]) (simp_all only: e, simp_all add: powr_minus)
  then show "is_fin initial_best" "fval initial_best = - (2 ^ 63)"
    by (simp_all add: initial_best_def f64_of_int_real)
qed

lemma initial_best_less: "int_exact x \<Longrightarrow> flt initial_best (f64_of_int x)"
proof -
  assume "int_exact x"
  then have "- (2 ^ 53) \<le> x" by (auto simp: int_exact_def)
  then have "- (2 ^ 53) \<le> real_of_int x"
    by (metis of_int_le_iff of_int_minus of_int_numeral of_int_power)
  then show ?thesis
    using \<open>int_exact x\<close> by (simp add: flt_val fval_initial_best f64_of_int_facts)
qed

lemma int_exact_between: "- (2 ^ 53) \<le> x \<Longrightarrow> x \<le> 2 ^ 53 \<Longrightarrow> int_exact x"
  by (auto simp: int_exact_def)

lemma foldl_fadd_of_int:
  assumes "\<forall>w \<in> set ws. 0 \<le> w" and "0 \<le> a" and "a + sum_list ws \<le> 2 ^ 53"
  shows "foldl fadd (f64_of_int a) (map f64_of_int ws) = f64_of_int (a + sum_list ws)"
  using assms
proof (induction ws arbitrary: a)
  case Nil
  then show ?case by simp
next
  case (Cons w ws)
  have "0 \<le> sum_list ws" using Cons.prems(1) by (intro sum_list_nonneg) auto
  then have "int_exact a" "int_exact w"
    using Cons.prems by (auto intro!: int_exact_between)
  then show ?case using Cons.IH [of "a + w"] Cons.prems by (simp add: fadd_of_int add.assoc)
qed

section \<open>One selection is one round\<close>

text \<open>The loop, when every slot holds an exact integer and the best so far compares like one.\<close>

lemma select_loop_int:
  assumes "distinct (map fst xs)"
    and "\<forall>(s, c, w) \<in> set xs. s < length slots \<and> currentWeight (slots ! s) = f64_of_int c \<and>
           int_exact c \<and> int_exact w \<and> int_exact (c + w)"
    and "\<forall>x. int_exact x \<longrightarrow> flt bw (f64_of_int x) = (bwi < x)"
  shows "\<exists>slots'. select_loop (map (\<lambda>(s, c, w). (s, f64_of_int w)) xs) i slots bi bw =
      (slots', first_max_from (map (\<lambda>(s, c, w). c + w) xs) i bi bwi) \<and>
      length slots' = length slots \<and>
      (\<forall>(s, c, w) \<in> set xs. currentWeight (slots' ! s) = f64_of_int (c + w))"
  using assms
proof (induction xs arbitrary: i slots bi bw bwi)
  case Nil
  then show ?case by simp
next
  case (Cons x xs)
  obtain s c w where x: "x = (s, c, w)" by (cases x) auto
  have cw: "fadd (currentWeight (slots ! s)) (f64_of_int w) = f64_of_int (c + w)"
    and s: "s < length slots" and ex: "int_exact (c + w)"
    using Cons.prems(2) x by (auto simp: fadd_of_int)
  let ?slots = "slots[s := (slots ! s)\<lparr>currentWeight := f64_of_int (c + w)\<rparr>]"
  have s_new: "s \<notin> fst ` set xs" and d: "distinct (map fst xs)" using Cons.prems(1) x by auto
  have pre: "\<forall>(s, c, w) \<in> set xs. s < length ?slots \<and> currentWeight (?slots ! s) = f64_of_int c \<and>
           int_exact c \<and> int_exact w \<and> int_exact (c + w)"
  proof (intro ballI, clarify)
    fix s' c' w' assume m: "(s', c', w') \<in> set xs"
    then have "s' \<noteq> s" using s_new by (metis fst_conv image_eqI)
    then show "s' < length ?slots \<and> currentWeight (?slots ! s') = f64_of_int c' \<and>
        int_exact c' \<and> int_exact w' \<and> int_exact (c' + w')"
      using Cons.prems(2) m by auto
  qed
  have cmp: "\<forall>x. int_exact x \<longrightarrow> flt (f64_of_int (c + w)) (f64_of_int x) = (c + w < x)"
    using ex by simp
  let ?better = "bwi < c + w"
  let ?bi = "if ?better then i else bi" and ?bw = "if ?better then f64_of_int (c + w) else bw"
    and ?bwi = "if ?better then c + w else bwi"
  have test: "flt bw (f64_of_int (c + w)) = ?better" using Cons.prems(3) ex by blast
  have "\<forall>x. int_exact x \<longrightarrow> flt ?bw (f64_of_int x) = (?bwi < x)"
    using cmp Cons.prems(3) by simp
  from Cons.IH [OF d pre this, of "Suc i" ?bi]
  obtain slots' where sl: "select_loop (map (\<lambda>(s, c, w). (s, f64_of_int w)) xs) (Suc i) ?slots ?bi ?bw =
      (slots', first_max_from (map (\<lambda>(s, c, w). c + w) xs) (Suc i) ?bi ?bwi)"
    and len: "length slots' = length slots"
    and all: "\<forall>(s, c, w) \<in> set xs. currentWeight (slots' ! s) = f64_of_int (c + w)"
    by auto
  have "slots' ! s = ?slots ! s"
    using s_new by (intro select_loop_other [OF sl]) (auto simp: image_def split: prod.splits)
  then have "currentWeight (slots' ! s) = f64_of_int (c + w)" using s by simp
  then have "\<forall>(s, c, w) \<in> set (x # xs). currentWeight (slots' ! s) = f64_of_int (c + w)"
    using all x by simp
  moreover have "select_loop (map (\<lambda>(s, c, w). (s, f64_of_int w)) (x # xs)) i slots bi bw =
      (slots', first_max_from (map (\<lambda>(s, c, w). c + w) (x # xs)) i bi bwi)"
    using sl by (cases ?better) (simp_all add: x cw test Let_def)
  ultimately show ?case using len by blast
qed

text \<open>
  The balancer \<open>b\<close> holds the integer weights \<open>cw\<close> for the candidates \<open>cs\<close>, whose
  effective weights are the integers \<open>ws\<close>.
\<close>

definition holds_weights :: "ProviderCandidate list \<Rightarrow> int list \<Rightarrow> int list \<Rightarrow> Balancer \<Rightarrow> bool" where
  "holds_weights cs ws cw b \<longleftrightarrow> bal_ok b \<and> distinct (map pc_name cs) \<and>
     length ws = length cs \<and> length cw = length cs \<and>
     map (EffectiveWeight (bal_cfg b)) cs = map f64_of_int ws \<and>
     map (weight_of b) (map pc_name cs) = map f64_of_int cw"

text \<open>All the numbers of a run stay within \<open>2^53\<close>.\<close>

definition fits :: "int list \<Rightarrow> bool" where
  "fits ws \<longleftrightarrow> int (length ws) * sum_list ws \<le> 2 ^ 53"

lemma fits_exact:
  assumes "weights_ok ws" and "fits ws" and "swrr_inv ws cw"
    and c: "c \<in> set cw" and w: "w \<in> set ws"
  shows "int_exact c" and "int_exact w" and "int_exact (c + w)" and "int_exact (sum_list ws)"
proof -
  let ?W = "sum_list ws"
  have W: "0 < ?W" and w0: "0 \<le> w" using assms by (auto simp: weights_ok_def)
  have wW: "w \<le> ?W" using w assms(1) by (auto simp: weights_ok_def intro: member_le_sum_list)
  have n: "1 \<le> int (length ws)" using w by (cases ws) auto
  have lo: "- ?W < c" using assms(3) c by (simp add: swrr_inv_def)
  have hi: "c \<le> int (length ws) * ?W - ?W"
    using swrr_inv_upper [OF assms(1,3) c] by (simp add: algebra_simps)
  have "?W \<le> int (length ws) * ?W" using n W by simp
  then have "?W \<le> 2 ^ 53" and up: "int (length ws) * ?W \<le> 2 ^ 53" using assms(2) by (simp_all add: fits_def)
  then show "int_exact c" and "int_exact w" and "int_exact (c + w)" and "int_exact ?W"
    using lo hi wW w0 W by (auto intro!: int_exact_between)
qed


lemma first_max_start:
  "xs \<noteq> [] \<Longrightarrow> \<forall>x \<in> set xs. b < x \<Longrightarrow> first_max_from xs 0 0 b = first_max xs"
  by (cases xs) (simp_all add: first_max_def)

lemma map_zip3:
  "length ss = length ws \<Longrightarrow> length cw = length ws \<Longrightarrow>
   map (\<lambda>(s, c, w). (s, f w)) (zip ss (zip cw ws)) = zip ss (map f ws)"
  "length ss = length ws \<Longrightarrow> length cw = length ws \<Longrightarrow>
   map (\<lambda>(s, c, w). c + w) (zip ss (zip cw ws)) = map2 (+) cw (ws :: int list)"
  by (intro nth_equalityI; simp)+

text \<open>The slots resolved for candidates with distinct names are distinct and hold their weights.\<close>

lemma resolved_slots:
  assumes "holds_weights cs ws cw b" and "resolveSlots cs b = (ss, b1)"
  shows "distinct ss" and "length ss = length cs"
    and "j < length cs \<Longrightarrow> bal_nameToSlot b1 (pc_name (cs ! j)) = Some (ss ! j)"
    and "j < length cs \<Longrightarrow> ss ! j < length (bal_slots b1)"
    and "j < length cs \<Longrightarrow> currentWeight (bal_slots b1 ! (ss ! j)) = f64_of_int (cw ! j)"
proof -
  have ok: "bal_ok b" and d: "distinct (map pc_name cs)"
    and cw: "length cw = length cs" "map (weight_of b) (map pc_name cs) = map f64_of_int cw"
    using assms(1) by (simp_all add: holds_weights_def)
  note f = resolveSlots_facts [OF ok assms(2)]
  show len: "length ss = length cs" using f by simp
  have name: "bal_nameToSlot b1 (pc_name (cs ! j)) = Some (ss ! j)" if "j < length cs" for j
    using f that nth_map [of j "map pc_name cs" "bal_nameToSlot b1"] by simp
  then show "j < length cs \<Longrightarrow> bal_nameToSlot b1 (pc_name (cs ! j)) = Some (ss ! j)" .
  show "j < length cs \<Longrightarrow> ss ! j < length (bal_slots b1)"
    using name f by (blast intro: bal_ok_slot_less)
  show "distinct ss"
  proof (unfold distinct_conv_nth, intro allI impI)
    fix i j assume "i < length ss" "j < length ss" "i \<noteq> j"
    then have "pc_name (cs ! i) \<noteq> pc_name (cs ! j)"
      using d len by (simp add: distinct_conv_nth)
    then show "ss ! i \<noteq> ss ! j"
      using name \<open>i < length ss\<close> \<open>j < length ss\<close> len f bal_ok_slot_inj by metis
  qed
  show "currentWeight (bal_slots b1 ! (ss ! j)) = f64_of_int (cw ! j)" if "j < length cs"
  proof -
    have "weight_of b1 (pc_name (cs ! j)) = f64_of_int (cw ! j)"
      using f that cw nth_map [of j "map pc_name cs" "weight_of b"] by simp
    then show ?thesis using name [OF that] by (simp add: weight_of_def)
  qed
qed

text \<open>The loop of one selection over the resolved slots, read as the integer step reads its weights.\<close>

lemma select_round_loop:
  assumes h: "holds_weights cs ws cw b" and "weights_ok ws" and "fits ws"
    and inv: "swrr_inv ws cw" and r: "resolveSlots cs b = (ss, b1)"
  obtains slots where "select_loop (zip ss (map (EffectiveWeight (bal_cfg b)) cs)) 0 (bal_slots b1) 0 initial_best =
      (slots, first_max (map2 (+) cw ws))" and "length slots = length (bal_slots b1)"
    and "\<And>j. j < length cs \<Longrightarrow> currentWeight (slots ! (ss ! j)) = f64_of_int (cw ! j + ws ! j)"
proof -
  let ?n = "length cs" and ?up = "map2 (+) cw ws"
  have len: "length ws = ?n" "length cw = ?n" and eff: "map (EffectiveWeight (bal_cfg b)) cs = map f64_of_int ws"
    using h by (simp_all add: holds_weights_def)
  have cs: "cs \<noteq> []" using len weights_ok_nonempty [OF assms(2)] by auto
  note rs = resolved_slots [OF h r] and ex = fits_exact [OF assms(2,3) inv]
  have exj: "int_exact (cw ! j) \<and> int_exact (ws ! j) \<and> int_exact (cw ! j + ws ! j)" if "j < ?n" for j
    using ex(1-3) [of "cw ! j" "ws ! j"] that len by simp
  let ?xs = "zip ss (zip cw ws)"
  have "distinct (map fst ?xs)" using rs(1,2) len by simp
  moreover have "\<forall>(s, c, w) \<in> set ?xs. s < length (bal_slots b1) \<and>
      currentWeight (bal_slots b1 ! s) = f64_of_int c \<and> int_exact c \<and> int_exact w \<and> int_exact (c + w)"
    using rs(2,4,5) len exj by (auto simp: set_zip)
  moreover have "\<forall>x. int_exact x \<longrightarrow> flt initial_best (f64_of_int x) = (- (2 ^ 53) - 1 < x)"
    using initial_best_less by (auto simp: int_exact_def)
  ultimately obtain slots where
    loop: "select_loop (map (\<lambda>(s, c, w). (s, f64_of_int w)) ?xs) 0 (bal_slots b1) 0 initial_best =
        (slots, first_max_from (map (\<lambda>(s, c, w). c + w) ?xs) 0 0 (- (2 ^ 53) - 1))"
    and slots: "length slots = length (bal_slots b1)"
    and new: "\<forall>(s, c, w) \<in> set ?xs. currentWeight (slots ! s) = f64_of_int (c + w)"
    using select_loop_int by blast
  have "- (2 ^ 53) - 1 < ?up ! j" if "j < ?n" for j
    using ex(3) [of "cw ! j" "ws ! j"] that len by (auto simp: int_exact_def)
  then have "first_max_from ?up 0 0 (- (2 ^ 53) - 1) = first_max ?up"
    using cs len by (intro first_max_start) (auto simp: in_set_conv_nth)
  then have "select_loop (zip ss (map (EffectiveWeight (bal_cfg b)) cs)) 0 (bal_slots b1) 0 initial_best = (slots, first_max ?up)"
    using loop rs(2) len by (simp add: map_zip3 eff)
  moreover have "currentWeight (slots ! (ss ! j)) = f64_of_int (cw ! j + ws ! j)" if "j < ?n" for j
  proof -
    have "(ss ! j, cw ! j, ws ! j) \<in> set ?xs" using that rs(2) len by (auto simp: set_zip)
    then show ?thesis using new by auto
  qed
  ultimately show ?thesis using slots that by blast
qed

lemma select_one_round:
  assumes h: "holds_weights cs ws cw b" and "weights_ok ws" and "fits ws"
    and inv: "swrr_inv ws cw" and step: "swrr_step ws cw = (i, cw')"
  shows "\<exists>b'. bal_Select cs b = (cs ! i, b') \<and> holds_weights cs ws cw' b'"
proof -
  let ?n = "length cs" and ?up = "map2 (+) cw ws" and ?W = "sum_list ws"
  have ok: "bal_ok b" and d: "distinct (map pc_name cs)" and len: "length ws = ?n" "length cw = ?n"
    and eff: "map (EffectiveWeight (bal_cfg b)) cs = map f64_of_int ws"
    using h by (simp_all add: holds_weights_def)
  have cs: "cs \<noteq> []" using len weights_ok_nonempty [OF assms(2)] by auto
  obtain ss b1 where r: "resolveSlots cs b = (ss, b1)" by fastforce
  note f = resolveSlots_facts [OF ok r] and rs = resolved_slots [OF h r] and ex = fits_exact [OF assms(2,3) inv]
  have i: "i = first_max ?up" and cw': "cw' = ?up[i := ?up ! i - ?W]"
    using step by (auto simp: swrr_step_def Let_def)
  obtain slots where loop: "select_loop (zip ss (map (EffectiveWeight (bal_cfg b)) cs)) 0 (bal_slots b1) 0 initial_best = (slots, i)"
    and slots: "length slots = length (bal_slots b1)"
    and up: "\<And>j. j < ?n \<Longrightarrow> currentWeight (slots ! (ss ! j)) = f64_of_int (cw ! j + ws ! j)"
    using select_round_loop [OF h assms(2,3) inv r] i by metis
  have total: "foldl fadd fzero (map (EffectiveWeight (bal_cfg b)) cs) = f64_of_int ?W"
    using foldl_fadd_of_int [of ws 0] assms(2) ex(4) cs len
    by (cases ws; cases cw) (auto simp: eff weights_ok_def int_exact_def)
  have "int_exact ?W"
    using ex(4) cs len by (cases ws; cases cw) auto
  moreover have il: "i < ?n"
    using swrr_step_facts(1) [OF assms(2) inv step] len by simp
  moreover have "int_exact (cw ! i + ws ! i)" using ex(3) [of "cw ! i" "ws ! i"] il len by simp
  ultimately have give: "fsub (currentWeight (slots ! (ss ! i))) (f64_of_int ?W) = f64_of_int (cw' ! i)"
    using up [OF il] len by (simp add: fsub_of_int cw')
  let ?b = "b1\<lparr>bal_slots := slots[ss ! i := (slots ! (ss ! i))\<lparr>currentWeight := f64_of_int (cw' ! i)\<rparr>]\<rparr>"
  have sel: "bal_Select cs b = (cs ! i, ?b)"
    using cs by (simp add: bal_Select_def r loop total give Let_def)
  have "weight_of ?b (pc_name (cs ! j)) = f64_of_int (cw' ! j)" if "j < ?n" for j
    using that rs il up slots len
    by (cases "j = i") (auto simp: weight_of_def cw' nth_eq_iff_index_eq)
  then have "map (weight_of ?b) (map pc_name cs) = map f64_of_int cw'"
    using len by (intro nth_equalityI) (simp_all add: cw')
  moreover have "bal_ok ?b" using f slots bal_ok_same_table [of ?b b1] by simp
  ultimately have "holds_weights cs ws cw' ?b"
    using d len eff f by (simp add: holds_weights_def cw')
  then show ?thesis using sel by blast
qed

section \<open>Runs of selections\<close>

fun select_run :: "nat \<Rightarrow> ProviderCandidate list \<Rightarrow> Balancer \<Rightarrow> ProviderCandidate list \<times> Balancer" where
  "select_run 0 cs b = ([], b)"
| "select_run (Suc k) cs b =
     (let (c, b) = bal_Select cs b; (picks, b) = select_run k cs b in (c # picks, b))"

text \<open>
  C17. Selection refines the smooth weighted round-robin of the design: from a balancer that
  holds whole-number weights, any number of selections picks the candidates that the integer
  specification picks, and leaves the weights it leaves.
\<close>

theorem select_run_refines_swrr:
  assumes "holds_weights cs ws cw b" and "weights_ok ws" and "fits ws" and "swrr_inv ws cw"
  shows "\<exists>b'. select_run k cs b = (map (\<lambda>i. cs ! i) (fst (swrr_run k ws cw)), b') \<and>
              holds_weights cs ws (snd (swrr_run k ws cw)) b'"
  using assms(1,4)
proof (induction k arbitrary: cw b)
  case 0
  then show ?case by simp
next
  case (Suc k)
  obtain i cw1 where step: "swrr_step ws cw = (i, cw1)" by fastforce
  obtain b1 where b1: "bal_Select cs b = (cs ! i, b1)" "holds_weights cs ws cw1 b1"
    using select_one_round [OF Suc.prems(1) assms(2,3) Suc.prems(2) step] by blast
  have "swrr_inv ws cw1" by (rule swrr_step_facts(2) [OF assms(2) Suc.prems(2) step])
  from Suc.IH [OF b1(2) this] show ?case
    by (auto simp: b1(1) step split: prod.splits)
qed


text \<open>The candidates' names, picked how often.\<close>

lemma count_picks:
  assumes "distinct (map pc_name cs)" and "set is \<subseteq> {..<length cs}" and "i < length cs"
  shows "count_list (map pc_name (map (\<lambda>i. cs ! i) is)) (pc_name (cs ! i)) = count_list is i"
  using assms(2)
proof (induction "is")
  case Nil
  then show ?case by simp
next
  case (Cons k ks)
  then have "pc_name (cs ! k) = pc_name (cs ! i) \<longleftrightarrow> k = i"
    using assms(1,3) nth_eq_iff_index_eq [of "map pc_name cs" k i] by simp
  then show ?case using Cons by simp
qed

text \<open>A balancer in which the candidates start level, with the given whole-number weights.\<close>

definition starts_level :: "ProviderCandidate list \<Rightarrow> int list \<Rightarrow> Balancer \<Rightarrow> bool" where
  "starts_level cs ws b \<longleftrightarrow> bal_ok b \<and> distinct (map pc_name cs) \<and> length ws = length cs \<and>
     map (EffectiveWeight (bal_cfg b)) cs = map f64_of_int ws \<and>
     (\<forall>c \<in> set cs. weight_of b (pc_name c) = fzero)"

lemma starts_level_holds:
  "starts_level cs ws b \<Longrightarrow> holds_weights cs ws (replicate (length ws) 0) b"
  by (auto simp: starts_level_def holds_weights_def map_replicate_const intro!: nth_equalityI)

lemma run_counts:
  assumes "starts_level cs ws b" and "weights_ok ws" and "fits ws"
    and run: "select_run k cs b = (picks, b')" and i: "i < length cs"
  shows "count_list (map pc_name picks) (pc_name (cs ! i)) =
         count_list (fst (swrr_run k ws (replicate (length ws) 0))) i"
    and "holds_weights cs ws (snd (swrr_run k ws (replicate (length ws) 0))) b'"
proof -
  let ?cw = "replicate (length ws) (0::int)"
  obtain js cw' where sp: "swrr_run k ws ?cw = (js, cw')" by fastforce
  have inv: "swrr_inv ws ?cw" by (rule swrr_inv_start [OF assms(2)])
  from select_run_refines_swrr [OF starts_level_holds [OF assms(1)] assms(2,3) inv, of k]
  show "holds_weights cs ws (snd (swrr_run k ws ?cw)) b'" by (simp add: run)
  have "picks = map (\<lambda>i. cs ! i) js"
    using select_run_refines_swrr [OF starts_level_holds [OF assms(1)] assms(2,3) inv, of k]
    by (simp add: run sp)
  moreover have "set js \<subseteq> {..<length cs}"
    using swrr_run_facts [OF assms(2) inv sp] assms(1) by (simp add: starts_level_def)
  ultimately show "count_list (map pc_name picks) (pc_name (cs ! i)) =
         count_list (fst (swrr_run k ws ?cw)) i"
    using assms(1) i sp by (simp add: count_picks starts_level_def del: map_map)
qed

lemma period_counts:
  assumes "starts_level cs ws b" and "weights_ok ws" and "fits ws"
    and run: "select_run (nat (sum_list ws)) cs b = (picks, b')"
  shows "(\<forall>i < length cs. int (count_list (map pc_name picks) (pc_name (cs ! i))) = ws ! i) \<and>
         (\<forall>c \<in> set cs. weight_of b' (pc_name c) = fzero)"
proof -
  obtain js cw' where sp: "swrr_run (nat (sum_list ws)) ws (replicate (length ws) 0) = (js, cw')"
    by fastforce
  note p = swrr_period [OF assms(2) sp]
  have len: "length ws = length cs" using assms(1) by (simp add: starts_level_def)
  have "holds_weights cs ws cw' b'"
  proof -
    have "0 < length cs" using weights_ok_nonempty [OF assms(2)] len by auto
    from run_counts(2) [OF assms this] show ?thesis by (simp add: sp)
  qed
  then have "map (weight_of b') (map pc_name cs) = replicate (length ws) fzero"
    using p by (simp add: holds_weights_def)
  then have "\<forall>c \<in> set cs. weight_of b' (pc_name c) = fzero"
    using len by (metis (no_types, lifting) in_set_replicate list.set_map imageI)
  moreover have "int (count_list (map pc_name picks) (pc_name (cs ! i))) = ws ! i"
    if "i < length cs" for i
    using p that len run_counts(1) [OF assms that] sp by (simp del: map_map)
  ultimately show ?thesis by blast
qed

text \<open>
  Over one period (as many selections as the weights add up to) every provider is
  selected exactly as often as its weight says, and every current weight is back at zero.
\<close>

theorem swrr_period_is_fair:
  assumes "starts_level cs ws b" and "weights_ok ws" and "fits ws"
    and run: "select_run (nat (sum_list ws)) cs b = (picks, b')"
  shows "(\<forall>i < length cs. int (count_list (map pc_name picks) (pc_name (cs ! i))) = ws ! i) \<and>
         (\<forall>c \<in> set cs. weight_of b' (pc_name c) = fzero)"
  by (rule period_counts [OF assms])

text \<open>
  C18. The schedule is smooth: after any number k of selections no provider is a whole
  selection ahead of its proportional share k * w / W.
\<close>

theorem swrr_never_ahead:
  assumes "starts_level cs ws b" and "weights_ok ws" and "fits ws"
    and "select_run k cs b = (picks, b')" and i: "i < length cs"
  shows "int (count_list (map pc_name picks) (pc_name (cs ! i))) * sum_list ws <
         int k * ws ! i + sum_list ws"
proof -
  obtain js cw' where sp: "swrr_run k ws (replicate (length ws) 0) = (js, cw')" by fastforce
  note f = swrr_run_facts [OF assms(2) swrr_inv_start [OF assms(2)] sp]
  have il: "i < length ws" using assms(1) i by (simp add: starts_level_def)
  then have "- sum_list ws < cw' ! i" using f nth_mem [of i cw'] by (simp only: swrr_inv_def)
  then show ?thesis using f il run_counts(1) [OF assms] by (simp add: sp)
qed


section \<open>Plain candidates\<close>

text \<open>
  A candidate with no load, no latency, full health and no warmup, as the gateway builds
  them: its effective weight is its base weight, whatever the penalty coefficients.
\<close>

definition plain_candidate :: "string \<Rightarrow> string \<Rightarrow> int \<Rightarrow> ProviderCandidate" where
  "plain_candidate name model w =
     zero_candidate\<lparr>pc_name := name, pc_model := model, pc_baseWeight := f64_of_int w,
       pc_health := f64_of_int 1, pc_warmup := f64_of_int 1\<rparr>"

lemma plain_candidate_name [simp]: "pc_name (plain_candidate name model w) = name"
  by (simp add: plain_candidate_def)

definition finite_cfg :: "BalancerConfig \<Rightarrow> bool" where
  "finite_cfg cfg \<longleftrightarrow> is_fin (bc_concurrency cfg) \<and> is_fin (bc_latency cfg)"

lemma round_real_zero [simp]: "round_real s 0 = Fin s 0 (- 1074)"
  by (simp add: round_real_def)

lemma int_exact_small [simp]: "int_exact 0" "int_exact 1"
  by (simp_all add: int_exact_def)

lemma fadd_one_zero [simp]: "fadd (f64_of_int 1) (Fin s 0 e) = f64_of_int 1"
  using fadd_val [of "f64_of_int 1" "Fin s 0 e"] f64_of_int_real [of 1, symmetric]
  by (simp add: f64_of_int_facts del: fadd.simps)

lemma fmul_fin_zero [simp]: "is_fin x \<Longrightarrow> fmul x fzero = Fin (fneg x) 0 (- 1074)"
  by (simp add: fmul_val del: fmul.simps)

lemma fdiv_one_one [simp]: "fdiv (f64_of_int 1) (f64_of_int 1) = f64_of_int 1"
  using fdiv_val [of "f64_of_int 1" "f64_of_int 1"] f64_of_int_real [of 1, symmetric]
  by (simp add: f64_of_int_facts del: fdiv.simps)

lemma fle_one_zero [simp]: "\<not> fle (f64_of_int 1) fzero"
  using flt_of_int [of 1 0] feq_of_int [of 1 0] by (simp add: fle_def)

lemma fmax_of_nat: "int_exact w \<Longrightarrow> 0 \<le> w \<Longrightarrow> fmax (f64_of_int w) fzero = f64_of_int w"
  using feq_of_int [of w 0] flt_of_int [of 0 w] f64_of_int_facts [of w]
  by (cases "w = 0"; cases "f64_of_int w") (auto simp: fmax_def simp del: feq.simps flt.simps)

lemma EffectiveWeight_plain:
  assumes "finite_cfg cfg" and "int_exact w" and "0 \<le> w"
  shows "EffectiveWeight cfg (plain_candidate name model w) = f64_of_int w"
proof -
  have "fmul (f64_of_int w) (f64_of_int 1) = f64_of_int w"
    using fmul_of_int [of w 1] assms by simp
  then show ?thesis
    using assms by (simp add: EffectiveWeight_def plain_candidate_def zero_candidate_def Let_def
        finite_cfg_def fmax_of_nat del: fadd.simps fmul.simps fdiv.simps)
qed

lemma starts_level_plain:
  assumes "bal_ok b" and "finite_cfg (bal_cfg b)" and "distinct (map fst nws)"
    and "\<forall>(n, w) \<in> set nws. int_exact w \<and> 0 \<le> w \<and> weight_of b n = fzero"
  shows "starts_level (map (\<lambda>(n, w). plain_candidate n model w) nws) (map snd nws) b"
proof -
  have "map pc_name (map (\<lambda>(n, w). plain_candidate n model w) nws) = map fst nws"
    by auto
  moreover have "map (EffectiveWeight (bal_cfg b)) (map (\<lambda>(n, w). plain_candidate n model w) nws) =
      map f64_of_int (map snd nws)"
    using assms(2,4) by (auto simp: EffectiveWeight_plain)
  ultimately show ?thesis
    using assms(1,3,4) by (auto simp: starts_level_def simp del: map_map)
qed

text \<open>A concrete balancer and three rounds of it, for the witnesses.\<close>

definition demo_cfg :: BalancerConfig where
  "demo_cfg = \<lparr>bc_concurrency = f64_of_int 3, bc_latency = f64_of_int 2, bc_warmupEnabled = True,
     bc_warmupDuration = fzero, bc_healthWindowSize = fzero, bc_healthMinRequests = 10\<rparr>"

definition demo_candidates :: "ProviderCandidate list" where
  "demo_candidates = map (\<lambda>(n, w). plain_candidate n ''m'' w) [(''a'', 2), (''b'', 1)]"

lemma demo_balancer_facts:
  "starts_level demo_candidates [2, 1] (NewBalancer demo_cfg)" "weights_ok [2, 1]" "fits [2, 1]"
proof -
  have "finite_cfg (bal_cfg (NewBalancer demo_cfg))"
    by (simp add: finite_cfg_def NewBalancer_def demo_cfg_def f64_of_int_facts int_exact_def)
  then show "starts_level demo_candidates [2, 1] (NewBalancer demo_cfg)"
    using starts_level_plain [of "NewBalancer demo_cfg" "[(''a'', 2), (''b'', 1)]" "''m''"]
    by (simp add: demo_candidates_def int_exact_def)
qed (simp_all add: weights_ok_def fits_def)

theorem select_run_refines_swrr_witness:
  "fst (select_run 3 demo_candidates (NewBalancer demo_cfg)) =
     map (\<lambda>i. demo_candidates ! i) [0, 1, 0]"
  using select_run_refines_swrr [OF starts_level_holds [OF demo_balancer_facts(1)] demo_balancer_facts(2,3), of 3]
    swrr_inv_start [OF demo_balancer_facts(2)]
  by (auto simp: numeral_3_eq_3 swrr_step_def first_max_def Let_def)

theorem swrr_period_is_fair_witness:
  "\<exists>picks b'. select_run (nat (sum_list [2, 1])) demo_candidates (NewBalancer demo_cfg) = (picks, b') \<and>
     int (count_list (map pc_name picks) ''a'') = 2 \<and> int (count_list (map pc_name picks) ''b'') = 1"
proof -
  obtain picks b' where
    run: "select_run (nat (sum_list [2, 1])) demo_candidates (NewBalancer demo_cfg) = (picks, b')"
    by fastforce
  have c: "int (count_list (map pc_name picks) (pc_name (demo_candidates ! i))) = [2, 1] ! i"
    if "i < length demo_candidates" for i
    using swrr_period_is_fair [OF demo_balancer_facts run] that by blast
  have "int (count_list (map pc_name picks) ''a'') = 2" "int (count_list (map pc_name picks) ''b'') = 1"
    using c [of 0] c [of 1] by (simp_all add: demo_candidates_def)
  then show ?thesis using run by blast
qed

theorem swrr_never_ahead_witness:
  "\<exists>picks b'. select_run 2 demo_candidates (NewBalancer demo_cfg) = (picks, b') \<and>
     int (count_list (map pc_name picks) ''a'') * 3 < 2 * 2 + 3"
proof -
  obtain picks b' where run: "select_run 2 demo_candidates (NewBalancer demo_cfg) = (picks, b')"
    by fastforce
  have "0 < length demo_candidates" by (simp add: demo_candidates_def)
  from swrr_never_ahead [OF demo_balancer_facts run this] show ?thesis
    using run by (simp add: demo_candidates_def)
qed

end
