(* ===== verification/Gateway_Main.thy ===== *)
theory Gateway_Main
  imports Handler OpenAI Anthropic Redis_Store Balancer_Fairness
begin

text \<open>
  The wiring of \<^verbatim>\<open>cmd/gateway/main.go\<close>: the components are built from the configuration,
  and the middleware put in front of the routes. The process around it, from its start to its
  shutdown, is in \<^theory_text>\<open>Gateway_Process\<close>.
\<close>

section \<open>The providers\<close>

definition new_provider :: "(duration \<Rightarrow> 'w HttpClient) \<Rightarrow> string \<times> ProviderConfig \<Rightarrow> 'w Provider" where
  "new_provider http = (\<lambda>(name, pc).
     if pr_type pc = ''anthropic''
     then anthropic_provider (NewAnthropic http name (pr_baseURL pc) (pr_apiKey pc) (pr_models pc) (pr_timeout pc))
     else openai_provider (NewOpenAICompatible http name (pr_baseURL pc) (pr_apiKey pc) (pr_models pc) (pr_timeout pc)))"

definition build_registry :: "(duration \<Rightarrow> 'w HttpClient) \<Rightarrow> Config \<Rightarrow> 'w Registry" where
  "build_registry http cfg = foldl (\<lambda>r x. reg_Register (new_provider http x) r) NewRegistry (cf_providers cfg)"

text \<open>The models of all providers, each once, in the order in which they are met.\<close>

definition collect_model :: "(string \<Rightarrow> bool) \<times> string list \<Rightarrow> string \<Rightarrow> (string \<Rightarrow> bool) \<times> string list" where
  "collect_model = (\<lambda>(seen, models) m. if \<not> seen m then (seen(m := True), models @ [m]) else (seen, models))"

definition collectAllModels :: "(string \<times> ProviderConfig) list \<Rightarrow> string list" where
  "collectAllModels providers =
     snd (foldl (\<lambda>acc (name, p). foldl collect_model acc (pr_models p)) ((\<lambda>_. False), []) providers)"

section \<open>Balancing and routing\<close>

text \<open>\<^verbatim>\<open>Duration.Seconds\<close>: whole seconds and the rest, divided toward zero.\<close>

definition duration_seconds :: "duration \<Rightarrow> f64" where
  "duration_seconds d =
     (let sec = sgn d * (\<bar>d\<bar> div 1000000000); nsec = sgn d * (\<bar>d\<bar> mod 1000000000)
      in fadd (f64_of_int sec) (fdiv (f64_of_int nsec) (f64_of_int 1000000000)))"

definition balancer_config :: "BalancerSection \<Rightarrow> BalancerConfig" where
  "balancer_config b = \<lparr>bc_concurrency = bs_concurrency b, bc_latency = bs_latency b,
     bc_warmupEnabled = bs_warmupEnabled b, bc_warmupDuration = duration_seconds (bs_warmupDuration b),
     bc_healthWindowSize = duration_seconds (bs_healthWindowSize b), bc_healthMinRequests = bs_healthMinRequests b\<rparr>"

definition build_balancer :: "Config \<Rightarrow> Balancer" where
  "build_balancer cfg =
     foldl (\<lambda>b (name, pc). snd (bal_Register name b)) (NewBalancer (balancer_config (cf_balancer cfg))) (cf_providers cfg)"

definition build_candidate :: "Config \<Rightarrow> string \<Rightarrow> 'w Provider \<Rightarrow> ProviderCandidate" where
  "build_candidate cfg modelName p =
     (let baseWeight = (case map_of (cf_providers cfg) (pv_name p) of
                          None \<Rightarrow> f64_of_int 100 | Some pc \<Rightarrow> f64_of_int (pr_weight pc))
      in zero_candidate\<lparr>pc_name := pv_name p, pc_model := modelName, pc_baseWeight := baseWeight,
                        pc_health := f64_of_int 1, pc_warmup := f64_of_int 1\<rparr>)"

definition buildCandidates :: "Config \<Rightarrow> 'w Provider list \<Rightarrow> string \<Rightarrow> ProviderCandidate list" where
  "buildCandidates cfg providers modelName = map (build_candidate cfg modelName) providers"

text \<open>The semantic router exists only with an engine, and if its prototypes can be computed.\<close>

definition build_semantic :: "engine \<Rightarrow> Config \<Rightarrow> SemanticRouter option go_result" where
  "build_semantic eng cfg =
     (case eng of
        NilEngine \<Rightarrow> Ok None
      | Engine impl \<Rightarrow>
          (case NewSemanticRouter (cf_semanticRouting cfg) (Some (engine_Embed (Engine impl))) of
             Panic \<Rightarrow> Panic
           | Err e \<Rightarrow> Ok None
           | Ok sr \<Rightarrow> Ok (Some sr)))"

definition build_router :: "Config \<Rightarrow> 'w Registry \<Rightarrow> SemanticRouter option \<Rightarrow> 'w Router" where
  "build_router cfg registry semantic =
     NewRouter (ro_strategies (cf_routing cfg)) (map_get [] (ro_cascade (cf_routing cfg)) ''default'')
       (Some (build_balancer cfg)) semantic (Some (ro_rules (cf_routing cfg))) (Some (ro_cascade (cf_routing cfg)))
       (ProvidersForModel registry) (Some (buildCandidates cfg))"

section \<open>The cache\<close>

definition cache_config :: "CacheSection \<Rightarrow> SemanticCacheConfig" where
  "cache_config c = \<lparr>sg_enabled = cs_enabled c, sg_threshold = cs_threshold c, sg_maxEntries = cs_maxEntries c,
     sg_ttl = cs_ttl c, sg_maxPromptLength = cs_maxPromptLength c\<rparr>"

text \<open>
  The cache and its store. The engine is handed over as a value of the interface
  \<^verbatim>\<open>Embedder\<close> even if it is a nil pointer, so the cache always has an embedder.
\<close>

definition build_cache :: "'w RedisClient \<Rightarrow> engine \<Rightarrow> Config \<Rightarrow> 'w \<Rightarrow>
    ('w SemanticCache option \<times> 'w CacheStore option) \<times> 'w" where
  "build_cache redis eng cfg w =
     (if \<not> cs_enabled (cf_semanticCache cfg) then ((None, None), w)
      else
        let (st, w) = (case NewRedisStore redis w of (Inl err, w) \<Rightarrow> (None, w) | (Inr st, w) \<Rightarrow> (Some st, w));
            c = cache_New (cache_config (cf_semanticCache cfg)) (Some (engine_Embed eng)) st;
            c = (if st \<noteq> None then SetModels (collectAllModels (cf_providers cfg)) c else c)
        in ((Some c, st), w))"

section \<open>The gateway\<close>

text \<open>
  What the wiring is given: the ONNX runtime, the HTTP clients by timeout, Redis, the request
  context and the clocks, and the two generators of random ids.
\<close>

record ('c, 'w) main_env =
  mn_onnx :: "'c onnx_env"
  mn_http :: "duration \<Rightarrow> 'w HttpClient"
  mn_redis :: "'w RedisClient"
  mn_sets :: "'w SortedSets"
  mn_service :: "'w service_env"
  mn_millis :: "'w \<Rightarrow> int \<times> 'w"
  mn_requestID :: "'w \<Rightarrow> string \<times> 'w"
  mn_randomID :: "'w \<Rightarrow> string \<times> 'w"
  mn_log :: "LogEntry \<Rightarrow> 'w \<Rightarrow> 'w"
  mn_prometheus :: "'w Service handler"
  mn_unmatched :: "'w Service handler"

record 'w Gateway =
  gw_chatSvc :: "'w Service"
  gw_checker :: "'w HealthChecker"
  gw_limiter :: bool
  gw_models :: "string list"

definition start_engine :: "('c, 'w) main_env \<Rightarrow> Config \<Rightarrow> engine \<times> go_error option" where
  "start_engine env cfg =
     embedding_Init (mn_onnx env) (em_onnxLibraryPath (cf_embedding cfg)) (em_modelPath (cf_embedding cfg)) None"

definition build_gateway :: "('c, 'w) main_env \<Rightarrow> Config \<Rightarrow> 'w \<Rightarrow> 'w Gateway go_result" where
  "build_gateway env cfg w =
     (let (eng, initErr) = start_engine env cfg;
          (pingErr, w) = rc_ping (mn_redis env) w;
          registry = build_registry (mn_http env) cfg;
          mgr = NewCircuitBreakerManager (cc_failureThreshold (cf_breaker cfg)) (cc_cooldown (cf_breaker cfg))
      in go_bind (build_semantic eng cfg) (\<lambda>semantic.
         let ((cache, st), w) = build_cache (mn_redis env) eng cfg w;
             fallback = NewEngine (Some (fb_chains (cf_fallback cfg))) (fb_retryMax (cf_fallback cfg))
                          (fb_retryBackoff (cf_fallback cfg)) '''';
             svc = NewChatService (build_router cfg registry semantic) mgr cache fallback (ProviderByName registry) w
         in Ok \<lparr>gw_chatSvc = svc, gw_checker = NewHealthChecker st (Some registry), gw_limiter = (pingErr = None),
                gw_models = collectAllModels (cf_providers cfg)\<rparr>))"

text \<open>What a call changes of the service when it concerns the outside world only.\<close>

definition on_world :: "('w \<Rightarrow> 'a \<times> 'w) \<Rightarrow> 'w Service \<Rightarrow> 'a \<times> 'w Service" where
  "on_world f s = (let (x, w) = f (sv_world s) in (x, s\<lparr>sv_world := w\<rparr>))"

definition in_world :: "('w \<Rightarrow> 'w) \<Rightarrow> 'w Service \<Rightarrow> 'w Service" where
  "in_world f s = s\<lparr>sv_world := f (sv_world s)\<rparr>"

definition sets_on_world :: "'w SortedSets \<Rightarrow> 'w Service SortedSets" where
  "sets_on_world ops =
     \<lparr>zs_trimAndCount = (\<lambda>key lo hi. on_world (zs_trimAndCount ops key lo hi)),
      zs_add = (\<lambda>key n x. in_world (zs_add ops key n x)),
      zs_expire = (\<lambda>key d. in_world (zs_expire ops key d))\<rparr>"

text \<open>The chain of middleware, without the recovery from panics, which is Gin's.\<close>

definition gateway_handler :: "('c, 'w) main_env \<Rightarrow> Config \<Rightarrow> 'w Gateway \<Rightarrow> bool \<Rightarrow> 'w Service handler" where
  "gateway_handler env cfg gw flusher =
     RequestIDMiddleware (on_world (mn_requestID env))
       (LoggingMiddleware (on_world (sx_clock (mn_service env))) (\<lambda>e. in_world (mn_log env e))
         (AuthMiddleware (au_apiKeys (cf_auth cfg))
           (RateLimitMiddleware (if gw_limiter gw then Some (sets_on_world (mn_sets env)) else None)
               (on_world (mn_millis env)) (on_world (mn_randomID env))
             (ValidationMiddleware (gw_models gw)
               (RegisterRoutes (Some (mn_service env)) flusher (Some (gw_checker gw)) (mn_prometheus env)
                 (mn_unmatched env))))))"


section \<open>What the wiring establishes\<close>

lemma new_provider_fields [simp]:
  "pv_name (new_provider http (name, pc)) = name" "pv_models (new_provider http (name, pc)) = pr_models pc"
  by (simp_all add: new_provider_def anthropic_provider_def NewAnthropic_def openai_provider_def NewOpenAICompatible_def)

lemma build_registry_registered: "build_registry http cfg = registered (map (new_provider http) (cf_providers cfg))"
  by (simp add: build_registry_def registered_def foldl_map)

lemma registry_lists:
  "p \<in> set (ProvidersForModel (build_registry http cfg) m) \<Longrightarrow>
    \<exists>(name, pc) \<in> set (cf_providers cfg). m \<in> set (pr_models pc) \<and> pv_name p = name"
  using ProvidersForModel_serves [of p _ m] ProvidersForModel_registered [of p _ m]
  unfolding build_registry_registered by fastforce

lemma registry_serves:
  "(name, pc) \<in> set (cf_providers cfg) \<Longrightarrow> m \<in> set (pr_models pc) \<Longrightarrow> ProvidersForModel (build_registry http cfg) m \<noteq> []"
proof -
  assume "(name, pc) \<in> set (cf_providers cfg)" "m \<in> set (pr_models pc)"
  moreover have "count_list ms m = 0 \<longleftrightarrow> m \<notin> set ms" for ms by (induction ms) auto
  ultimately show ?thesis
    unfolding build_registry_registered ProvidersForModel_def registered_byModel by force
qed

text \<open>The providers and candidates of the gateway are what its router needs.\<close>

interpretation gateway: router_env "ProvidersForModel (build_registry http cfg)" "buildCandidates cfg"
  for http :: "duration \<Rightarrow> 'w HttpClient" and cfg
proof
  show "m \<in> set (pv_models p)" if "p \<in> set (ProvidersForModel (build_registry http cfg) m)" for p m
    using ProvidersForModel_serves that unfolding build_registry_registered by blast
  show "map pc_name (buildCandidates cfg ps m) = map pv_name ps" for ps :: "'w Provider list" and m
    by (simp add: buildCandidates_def build_candidate_def)
qed

lemma bal_ok_build: "bal_ok (build_balancer cfg)"
proof -
  have "bal_ok b \<Longrightarrow> bal_ok (foldl (\<lambda>b (name, pc). snd (bal_Register name b)) b xs)" for b and xs :: "(string \<times> ProviderConfig) list"
    by (induction xs arbitrary: b) (auto simp: bal_ok_Register)
  then show ?thesis by (simp add: build_balancer_def)
qed

lemma build_router_uses_env:
  "gateway.uses_env http cfg (build_router cfg (build_registry http cfg) sem)"
  by (simp add: gateway.uses_env_def build_router_def NewRouter_def bal_ok_build)

text \<open>All models, each once.\<close>

definition collected :: "(string \<Rightarrow> bool) \<times> string list \<Rightarrow> bool" where
  "collected acc \<longleftrightarrow> distinct (snd acc) \<and> fst acc = (\<lambda>m. m \<in> set (snd acc))"

lemma collect_model_collected:
  "collected acc \<Longrightarrow> collected (collect_model acc m) \<and> set (snd (collect_model acc m)) = insert m (set (snd acc))"
  by (cases acc) (auto simp: collected_def collect_model_def fun_eq_iff)

lemma collect_models_collected:
  "collected acc \<Longrightarrow> collected (foldl collect_model acc ms) \<and> set (snd (foldl collect_model acc ms)) = set (snd acc) \<union> set ms"
  by (induction ms arbitrary: acc) (auto simp: collect_model_collected)

lemma collectAllModels_set:
  "distinct (collectAllModels ps)" "set (collectAllModels ps) = (\<Union>(name, p) \<in> set ps. set (pr_models p))"
proof -
  have "collected acc \<Longrightarrow> collected (foldl (\<lambda>acc (name, p). foldl collect_model acc (pr_models p)) acc ps) \<and>
      set (snd (foldl (\<lambda>acc (name, p). foldl collect_model acc (pr_models p)) acc ps)) =
        set (snd acc) \<union> (\<Union>(name, p) \<in> set ps. set (pr_models p))" for acc
  proof (induction ps arbitrary: acc)
    case (Cons x ps)
    obtain name pc where x: "x = (name, pc)" by fastforce
    note c = collect_models_collected [OF Cons.prems, of "pr_models pc"]
    show ?case using Cons.IH [OF c [THEN conjunct1]] c by (simp add: x Un_assoc)
  qed simp
  from this [of "(\<lambda>_. False, [])"]
  show "distinct (collectAllModels ps)" "set (collectAllModels ps) = (\<Union>(name, p) \<in> set ps. set (pr_models p))"
    by (simp_all add: collected_def collectAllModels_def)
qed

section \<open>Routing in the gateway\<close>

definition plain_request :: "'w Router \<Rightarrow> StandardRequest \<Rightarrow> bool" where
  "plain_request r req \<longleftrightarrow> CHR ''/'' \<notin> set (req_model req) \<and> (\<forall>s \<in> set (rt_strategies r). strategy_models s req r \<noteq> Panic)"

text \<open>What a router of the gateway decides, whatever the state of its balancer.\<close>

lemma gateway_route_tries:
  assumes "gateway.uses_env http cfg r" and "same_setup r0 r" and "CHR ''/'' \<notin> set (req_model req)"
    and "router_Route req r = (d, r')"
  shows "case List.find (served r0) (tried_options req r0) of
       None \<Rightarrow> d = (if calm_strategies req r0 = rt_strategies r0
         then Err (new_error ErrCodeModelNotFound ''no route matched'') else Panic)
     | Some (s, m) \<Rightarrow> \<exists>name pc. (name, pc) \<in> set (cf_providers cfg) \<and> m \<in> set (pr_models pc) \<and>
         d = Ok \<lparr>rd_provider = name, rd_model = m, rd_strategy = s\<rparr>"
proof -
  have models: "strategy_models s req r = strategy_models s req r0" for s using same_setup_models [OF assms(2)] .
  have calm: "calm_strategies req r = calm_strategies req r0" "rt_strategies r = rt_strategies r0" "served r = served r0"
    using assms(2) by (simp_all add: calm_strategies_def models same_setup_fields fun_eq_iff served_def)
  then have opts: "tried_options req r = tried_options req r0"
    using assms(2) by (simp add: tried_options_def proposals_def models same_setup_fields)
  note re = gateway.route_tries [OF assms(1,3,4), unfolded opts calm gateway.decides_def]
  show ?thesis
  proof (cases "List.find (served r0) (tried_options req r0)")
    case (Some sm)
    obtain s m where sm: "sm = (s, m)" by fastforce
    then obtain dec p where dec: "d = Ok dec" "p \<in> set (ProvidersForModel (build_registry http cfg) m)"
      "rd_provider dec = pv_name p" "rd_strategy dec = s" "rd_model dec = m" using re Some by auto
    then show ?thesis using registry_lists [of p http cfg m] Some sm
      by (cases dec) fastforce
  qed (use re in simp)
qed

lemma gateway_route_env:
  assumes "gateway.uses_env http cfg r" and "same_setup r0 r" and "plain_request r0 req"
    and "router_Route req r = (d, r')"
  shows "case List.find (served r0) (route_options req r0) of
       None \<Rightarrow> d = Err (new_error ErrCodeModelNotFound ''no route matched'')
     | Some (s, m) \<Rightarrow> \<exists>name pc. (name, pc) \<in> set (cf_providers cfg) \<and> m \<in> set (pr_models pc) \<and>
         d = Ok \<lparr>rd_provider = name, rd_model = m, rd_strategy = s\<rparr>"
proof -
  have calm: "\<forall>s \<in> set (rt_strategies r0). strategy_models s req r0 \<noteq> Panic" and slash: "CHR ''/'' \<notin> set (req_model req)"
    using assms(3) by (simp_all add: plain_request_def)
  from gateway_route_tries [OF assms(1,2) slash assms(4)] show ?thesis
    unfolding tried_all [OF calm] calm_all [OF calm] by (auto split: option.splits)
qed

lemma validated_served:
  assumes "validate (collectAllModels (cf_providers cfg)) (Some body) = None" and "ParseStandardRequest body = Inr req"
    and "r0 = build_router cfg (build_registry http cfg) sem"
  shows "List.find (served r0) (route_options req r0) \<noteq> None"
proof -
  have m: "req_model req \<in> set (collectAllModels (cf_providers cfg))" "req_model req \<noteq> ''''"
    using validated_fields [OF assms(1,2)] by simp_all
  then obtain name pc where pc: "(name, pc) \<in> set (cf_providers cfg)" "req_model req \<in> set (pr_models pc)"
    by (auto simp: collectAllModels_set)
  have "served r0 (''default'', req_model req)"
    using registry_serves [OF pc] by (simp add: served_def assms(3) build_router_def NewRouter_def)
  then show ?thesis using m(2) by (auto simp: find_None_iff route_options_def)
qed

lemma served_route_env:
  assumes "gateway.uses_env http cfg r" and "same_setup r0 r" and "plain_request r0 req"
    and "List.find (served r0) (route_options req r0) \<noteq> None"
  shows "\<exists>dec. fst (router_Route req r) = Ok dec \<and> rd_provider dec \<in> fst ` set (cf_providers cfg)"
proof -
  obtain d r' where d: "router_Route req r = (d, r')" by fastforce
  from gateway_route_env [OF assms(1-3) d] assms(4) d show ?thesis
    by (auto split: option.splits simp: image_iff) force
qed

section \<open>Streams in the gateway\<close>

lemma gateway_provider:
  assumes "ProviderByName (build_registry http cfg) name = Some pv"
  shows "\<exists>pc. (name, pc) \<in> set (cf_providers cfg) \<and> pv = new_provider http (name, pc)"
proof -
  have "List.find (\<lambda>p. pv_name p = name) (rev (map (new_provider http) (cf_providers cfg))) = Some pv"
    using assms by (simp add: build_registry_registered ProviderByName_def registered_byName)
  then have "pv \<in> set (map (new_provider http) (cf_providers cfg))" "pv_name pv = name"
    by (auto simp: find_Some_iff) (metis length_map length_rev nth_mem rev_map set_rev imageE list.set_map)
  then show ?thesis by auto
qed

text \<open>Whatever is configured, the wiring makes providers that keep their contract.\<close>

interpretation configured: chat_provider "new_provider http x" for http :: "duration \<Rightarrow> 'w HttpClient" and x
proof (cases x)
  case (Pair name pc)
  show "chat_provider (new_provider http x)"
    unfolding new_provider_def Pair prod.case
    by (simp add: openai.chat_provider_axioms anthropic.chat_provider_axioms)
qed

lemma gateway_stream_ends:
  assumes "sv_providerLookup s = ProviderByName (build_registry http cfg)"
    and "HandleChatCompletionStream svc req s = (Ok (dec, chunks), s')"
    and "fwd_step\<^sup>*\<^sup>* (fwd_start chunks) f" and "\<nexists>f'. fwd_step f f'"
  shows "fw_phase f = Finished \<and> fw_out f = chunks"
proof -
  obtain pv w where "ProviderByName (build_registry http cfg) (rd_provider dec) = Some pv"
    and st: "pv_stream pv (req\<lparr>req_stream := True\<rparr>) w = (Inr chunks, sv_world s')"
    using stream_source [OF assms(2)] assms(1) by auto
  then obtain pc where pv: "pv = new_provider http (rd_provider dec, pc)" using gateway_provider by blast
  from configured.stream_forwarded [OF st [unfolded pv] assms(3,4)] show ?thesis by simp
qed

text \<open>
  An upstream that cannot be reached makes the stream handler panic, instead of answering
  with an error: the client's error is passed on as it is, and the assertion on its type fails.
  The failure has been recorded by then.
\<close>

theorem unreachable_upstream_panics:
  assumes "router_Route (req\<lparr>req_stream := True\<rparr>) (sv_router s) = (Ok dec, r)"
    and "svc_Allow svc (rd_provider dec) (rd_model dec) (s\<lparr>sv_router := r\<rparr>) = (True, s1)"
    and "sv_providerLookup s1 (rd_provider dec) = Some (openai_provider p)"
    and "oa_buildRequestBody (req\<lparr>req_stream := True\<rparr>) = Inr body"
    and "hc_urlErr (oa_client p) (oa_baseURL p @ ''/chat/completions'') = None"
    and "hc_do (oa_client p) (oa_stream_request (oa_baseURL p @ ''/chat/completions'') (oa_apiKey p) body) (sv_world s1) = (Inl err, w)"
  shows "handleStream svc flusher req s = (Panic, svc_RecordFailure svc (rd_provider dec) (rd_model dec) (s1\<lparr>sv_world := w\<rparr>))"
proof -
  have q: "(if \<not> req_stream req then req\<lparr>req_stream := True\<rparr> else req) = req\<lparr>req_stream := True\<rparr>" by (cases req) simp
  have "pv_stream (openai_provider p) (req\<lparr>req_stream := True\<rparr>) (sv_world s1) = (Inl (OtherErr err), w)"
    using assms(4-6) by (simp add: openai_provider_def oa_SendStream_def streamOpenAI_def http_send_def oa_stream_request_def)
  then have "HandleChatCompletionStream svc req s =
      (Err (OtherErr err), svc_RecordFailure svc (rd_provider dec) (rd_model dec) (s1\<lparr>sv_world := w\<rparr>))"
    using assms(1-3) unfolding HandleChatCompletionStream_def q Let_def by simp
  then show ?thesis by (simp add: handleStream_def error_answer_def)
qed

section \<open>A gateway without an embedding engine\<close>

lemma build_gateway_parts:
  assumes "build_gateway env cfg w = Ok gw"
  shows "gw_models gw = collectAllModels (cf_providers cfg)"
    and "\<exists>w'. sv_cache (gw_chatSvc gw) = fst (fst (build_cache (mn_redis env)
           (fst (start_engine env cfg)) cfg w'))"
proof -
  obtain eng initErr where i: "start_engine env cfg = (eng, initErr)" by fastforce
  obtain pingErr w1 where ping: "rc_ping (mn_redis env) w = (pingErr, w1)" by fastforce
  obtain cache st w2 where c: "build_cache (mn_redis env) eng cfg w1 = ((cache, st), w2)" by (metis prod.collapse)
  obtain semantic where "build_semantic eng cfg = Ok semantic"
    using assms by (auto simp: build_gateway_def i ping go_bind_Ok_iff Let_def)
  then have gw: "gw_models gw = collectAllModels (cf_providers cfg) \<and> sv_cache (gw_chatSvc gw) = cache"
    using assms by (auto simp: build_gateway_def i ping c NewChatService_def Let_def)
  then show "gw_models gw = collectAllModels (cf_providers cfg)" ..
  show "\<exists>w'. sv_cache (gw_chatSvc gw) = fst (fst (build_cache (mn_redis env)
           (fst (start_engine env cfg)) cfg w'))"
    using gw c i by (intro exI [of _ w1]) simp
qed

text \<open>
  C16. Without the embedding engine an enabled cache takes completions down: the start of the
  gateway goes on when the engine cannot be loaded, but the nil engine is handed to the cache as
  an embedder, and the first lookup of a prompt dereferences it. So every completion that is not
  streamed panics if its prompt, the last message of the user, is not empty and not longer than the
  maximal length for the cache, where one is set. A completion without such a prompt is not looked
  up, and goes on to the router and the provider.
\<close>

theorem missing_engine_panics:
  assumes "build_gateway env cfg w = Ok gw"
    and "start_engine env cfg = (NilEngine, initErr)"
    and "cs_enabled (cf_semanticCache cfg)" and "\<not> req_stream req"
  shows "if cache_text (req_messages req) \<noteq> '''' \<and> (cs_maxPromptLength (cf_semanticCache cfg) \<le> 0 \<or>
      int (rune_count (cache_text (req_messages req))) \<le> cs_maxPromptLength (cf_semanticCache cfg))
    then fst (HandleChatCompletion svc req (gw_chatSvc gw)) = Panic
    else \<exists>w. HandleChatCompletion svc req (gw_chatSvc gw) = dispatch svc req ((gw_chatSvc gw)\<lparr>sv_world := w\<rparr>)"
proof -
  let ?s = "gw_chatSvc gw"
  obtain w' where "sv_cache ?s = fst (fst (build_cache (mn_redis env) NilEngine cfg w'))"
    using build_gateway_parts(2) [OF assms(1)] assms(2) by auto
  then obtain c where c: "sv_cache ?s = Some c" "ca_embedder c = Some (engine_Embed NilEngine)" "ca_enabled c"
    "ca_maxPromptLength c = cs_maxPromptLength (cf_semanticCache cfg)"
    using assms(3) by (auto simp: build_cache_def Let_def cache_config_def cache_defs split: prod.splits)
  obtain t w1 where clk: "sx_clock svc (sv_world ?s) = (t, w1)" by fastforce
  show ?thesis
  proof (cases "cache_text (req_messages req) \<noteq> '''' \<and> (cs_maxPromptLength (cf_semanticCache cfg) \<le> 0 \<or>
      int (rune_count (cache_text (req_messages req))) \<le> cs_maxPromptLength (cf_semanticCache cfg))")
    case True
    then have "prompt_vector c req = Panic" using c by (auto simp: prompt_vector_def Let_def)
    then have "fst (service_lookup svc req ?s) = Panic"
      using c(1) by (simp add: service_lookup_def cache_Lookup_def clk Let_def)
    then show ?thesis using True assms(4)
      by (cases "service_lookup svc req ?s") (simp add: HandleChatCompletion_def)
  next
    case False
    then have "prompt_vector c req = Ok None" using c by (auto simp: prompt_vector_def Let_def)
    then have "service_lookup svc req ?s = (Ok None, ?s\<lparr>sv_world := w1\<rparr>)"
      using c(1) by (simp add: service_lookup_def cache_Lookup_def update_metrics_def clk Let_def)
    then have "HandleChatCompletion svc req ?s = dispatch svc req (?s\<lparr>sv_world := w1\<rparr>)"
      using assms(4) by (simp add: HandleChatCompletion_def)
    then show ?thesis using False by auto
  qed
qed


section \<open>Who reaches the service\<close>

text \<open>A reply of the middleware, with the service left alone but for the outside world.\<close>

definition turned_away :: "int set \<Rightarrow> 'w Service \<Rightarrow> Reply go_result \<Rightarrow> 'w Service \<Rightarrow> bool" where
  "turned_away codes s r s' \<longleftrightarrow> (\<exists>rep w. r = Ok rep \<and> rp_status rep \<in> codes \<and> s' = s\<lparr>sv_world := w\<rparr>)"

lemma on_world_at: "\<exists>x w. on_world f s = (x, s\<lparr>sv_world := w\<rparr>)" "\<exists>x w. on_world f (s\<lparr>sv_world := v\<rparr>) = (x, s\<lparr>sv_world := w\<rparr>)"
proof -
  obtain x w x' w' where "f (sv_world s) = (x, w)" "f v = (x', w')" by fastforce
  then have "on_world f s = (x, s\<lparr>sv_world := w\<rparr>)" "on_world f (s\<lparr>sv_world := v\<rparr>) = (x', s\<lparr>sv_world := w'\<rparr>)"
    by (simp_all add: on_world_def)
  then show "\<exists>x w. on_world f s = (x, s\<lparr>sv_world := w\<rparr>)" "\<exists>x w. on_world f (s\<lparr>sv_world := v\<rparr>) = (x, s\<lparr>sv_world := w\<rparr>)"
    by blast+
qed

lemma rl_check_world:
  "\<exists>a w. rl_check (sets_on_world ops) key limit now (s\<lparr>sv_world := v\<rparr>) = (a, s\<lparr>sv_world := w\<rparr>)"
proof -
  obtain n w where n: "zs_trimAndCount ops key ''0'' (itoa (now - 60000)) v = (n, w)" by fastforce
  have "rl_check (sets_on_world ops) key limit now (s\<lparr>sv_world := v\<rparr>) =
      ((case n of None \<Rightarrow> None | Some k \<Rightarrow> Some (k < limit)), s\<lparr>sv_world := w\<rparr>)"
    by (cases n) (simp_all add: rl_check_def sets_on_world_def on_world_def n Let_def)
  then show ?thesis by blast
qed

lemma rate_limit_cases:
  assumes "RateLimitMiddleware (if b then Some (sets_on_world ops) else None) (on_world clk) (on_world ids) h c s = (r, s')"
  shows "turned_away {429} s r s' \<or> (\<exists>w. (r, s') = h c (s\<lparr>sv_world := w\<rparr>))"
proof -
  have same: "(r, s') = h c s \<Longrightarrow> \<exists>w. (r, s') = h c (s\<lparr>sv_world := w\<rparr>)" by (intro exI [of _ "sv_world s"]) simp
  show ?thesis
  proof (cases "open_path (cx_path c) \<or> cx_apiKey c = None \<or> \<not> b \<or> cx_rateLimit c = None \<or> the (cx_rateLimit c) \<le> 0")
    case True
    then have "(r, s') = h c s" using assms by (auto simp: RateLimitMiddleware_def split: option.splits if_splits)
    then show ?thesis using same by blast
  next
    case False
    then obtain key limit where k: "cx_apiKey c = Some key" "cx_rateLimit c = Some limit" by auto
    let ?ops = "sets_on_world ops"
    obtain now w1 where t: "on_world clk s = (now, s\<lparr>sv_world := w1\<rparr>)" using on_world_at(1) by metis
    obtain a w2 where ck: "rl_check ?ops (''ratelimit:'' @ key) limit now (s\<lparr>sv_world := w1\<rparr>) = (a, s\<lparr>sv_world := w2\<rparr>)"
      using rl_check_world by metis
    obtain x w3 where i: "on_world ids (s\<lparr>sv_world := w2\<rparr>) = (x, s\<lparr>sv_world := w3\<rparr>)"
      using on_world_at(2) by metis
    obtain w4 where rec: "rl_record ?ops (''ratelimit:'' @ key) now x (s\<lparr>sv_world := w3\<rparr>) = s\<lparr>sv_world := w4\<rparr>"
      by (simp add: rl_record_def sets_on_world_def in_world_def)
    show ?thesis
    proof (cases "a = Some False")
      case True
      then show ?thesis using assms False k t ck
        by (auto simp: RateLimitMiddleware_def turned_away_def json_reply_def)
    next
      case False2: False
      have "(r, s') = h c (s\<lparr>sv_world := (if a = None then w2 else w4)\<rparr>)"
        using assms False False2 k t ck i rec
        by (cases a) (auto simp: RateLimitMiddleware_def)
      then show ?thesis by blast
    qed
  qed
qed

text \<open>What the outer two middlewares add to the outcome of the others.\<close>

definition wrapped :: "Reply go_result \<Rightarrow> 'w Service \<Rightarrow> Reply go_result \<Rightarrow> 'w Service \<Rightarrow> bool" where
  "wrapped r1 s1 r s \<longleftrightarrow>
     (case r1 of Ok rep \<Rightarrow> (\<exists>i w. r = Ok (rep\<lparr>rp_headers := (''X-Request-ID'', i) # rp_headers rep\<rparr>) \<and> s = s1\<lparr>sv_world := w\<rparr>)
      | Err e \<Rightarrow> r = Err e \<and> s = s1
      | Panic \<Rightarrow> r = Panic \<and> s = s1)"

lemma outer_middleware:
  assumes "RequestIDMiddleware (on_world ids) (LoggingMiddleware (on_world clk) (\<lambda>e. in_world (lg e)) h) c s = (r, s')"
  shows "\<exists>i w r1 s1. h (c\<lparr>cx_requestId := Some i\<rparr>) (s\<lparr>sv_world := w\<rparr>) = (r1, s1) \<and> wrapped r1 s1 r s'"
proof -
  obtain i w1 where i: "on_world ids s = (i, s\<lparr>sv_world := w1\<rparr>)" using on_world_at(1) by metis
  obtain t w2 where t: "on_world clk (s\<lparr>sv_world := w1\<rparr>) = (t, s\<lparr>sv_world := w2\<rparr>)" using on_world_at(2) by metis
  obtain r1 s1 where h: "h (c\<lparr>cx_requestId := Some i\<rparr>) (s\<lparr>sv_world := w2\<rparr>) = (r1, s1)" by fastforce
  obtain now w3 where n: "on_world clk s1 = (now, s1\<lparr>sv_world := w3\<rparr>)" using on_world_at(1) by metis
  have "wrapped r1 s1 r s'"
    using assms by (cases r1) (auto simp: RequestIDMiddleware_def LoggingMiddleware_def i t h n wrapped_def in_world_def Let_def)
  then show ?thesis using h by blast
qed

lemma turned_away_wrapped:
  assumes "turned_away codes s r1 s1" and "wrapped r1 s1 r s'"
  shows "turned_away codes s r s'"
  using assms by (auto simp: turned_away_def wrapped_def)

lemma turned_away_world: "turned_away codes (s\<lparr>sv_world := w\<rparr>) r s' \<Longrightarrow> turned_away codes s r s'"
  by (auto simp: turned_away_def)

lemma turned_away_mono: "turned_away codes s r s' \<Longrightarrow> codes \<subseteq> codes' \<Longrightarrow> turned_away codes' s r s'"
  by (auto simp: turned_away_def)

text \<open>
  C4. Nobody gets in without a key: a request to any path but the two open ones, whose bearer
  token is not a configured key, is answered with status 401 or 403, and leaves the breakers,
  the balancer, the cache and the metrics of the gateway as they were.
\<close>

theorem gateway_rejects_strangers:
  assumes "gateway_handler env cfg gw flusher c s = (r, s')" and "\<not> open_path (cx_path c)"
    and "cx_authorization c \<notin> (\<lambda>k. ''Bearer '' @ ak_key k) ` set (au_apiKeys (cf_auth cfg))"
  shows "turned_away {401, 403} s r s'"
proof -
  obtain i w r1 s1 where h: "AuthMiddleware (au_apiKeys (cf_auth cfg))
      (RateLimitMiddleware (if gw_limiter gw then Some (sets_on_world (mn_sets env)) else None)
         (on_world (mn_millis env)) (on_world (mn_randomID env))
         (ValidationMiddleware (gw_models gw) (RegisterRoutes (Some (mn_service env)) flusher (Some (gw_checker gw))
           (mn_prometheus env) (mn_unmatched env)))) (c\<lparr>cx_requestId := Some i\<rparr>) (s\<lparr>sv_world := w\<rparr>) = (r1, s1)"
    and wr: "wrapped r1 s1 r s'"
    using outer_middleware [OF assms(1) [unfolded gateway_handler_def]] by blast
  have "\<not> open_path (cx_path (c\<lparr>cx_requestId := Some i\<rparr>))" using assms(2) by simp
  from authenticated_cases [OF h this] assms(3) have "turned_away {401, 403} (s\<lparr>sv_world := w\<rparr>) r1 s1"
    by (auto simp: turned_away_def)
  then show ?thesis by (rule turned_away_wrapped [OF turned_away_world wr])
qed

text \<open>What validation and the whole chain behind the outer two middlewares do with a completion.\<close>

lemma validation_cases:
  assumes "ValidationMiddleware models h c s = (r, s')" and "cx_body c = Some body"
    and "has_prefix (cx_path c) ''/v1/chat/completions''" and "cx_method c = ''POST''"
  shows "turned_away {400} s r s' \<or> validate models (Some body) = None \<and> (r, s') = h c s"
proof (cases "validate models (Some body)")
  case None
  then show ?thesis using assms by (simp add: ValidationMiddleware_def)
next
  case (Some rep)
  then have "r = Ok rep \<and> s' = s" using assms by (simp add: ValidationMiddleware_def)
  moreover have "rp_status rep = 400" using Some by (rule validate_status)
  ultimately show ?thesis by (auto simp: turned_away_def intro!: exI [of _ "sv_world s"])
qed

lemma middleware_cases:
  assumes "AuthMiddleware keys (RateLimitMiddleware (if b then Some (sets_on_world ops) else None) (on_world clk) (on_world ids)
      (ValidationMiddleware models h)) c s = (r, s')"
    and "cx_path c = ''/v1/chat/completions''" and "cx_method c = ''POST''" and "cx_body c = Some body"
  shows "turned_away {400, 401, 403, 429} s r s' \<or>
    (\<exists>key \<in> set keys. \<exists>c' w. cx_authorization c = ''Bearer '' @ ak_key key \<and> modelAllowed (ak_allowedModels key) c \<and>
       validate models (Some body) = None \<and> cx_path c' = cx_path c \<and> cx_method c' = cx_method c \<and> cx_body c' = cx_body c \<and>
       (r, s') = h c' (s\<lparr>sv_world := w\<rparr>))"
proof -
  let ?val = "ValidationMiddleware models h"
  let ?rate = "RateLimitMiddleware (if b then Some (sets_on_world ops) else None) (on_world clk) (on_world ids)"
  have "\<not> open_path (cx_path c)" using assms(2) by (simp add: open_path_def)
  from authenticated_cases [OF assms(1) this] show ?thesis
  proof (elim disjE exE bexE conjE)
    fix rep assume "r = Ok rep" "s' = s" "rp_status rep \<in> {401, 403}"
    then show ?thesis by (intro disjI1) (auto simp: turned_away_def intro!: exI [of _ "sv_world s"])
  next
    fix key :: APIKeyConfig
    let ?c = "c\<lparr>cx_apiKey := Some (ak_key key), cx_apiKeyName := Some (ak_name key), cx_rateLimit := Some (ak_rateLimit key)\<rparr>"
    assume key: "key \<in> set keys" "cx_authorization c = ''Bearer '' @ ak_key key" "modelAllowed (ak_allowedModels key) c"
      and "(r, s') = ?rate ?val ?c s"
    then consider "turned_away {429} s r s'" | w where "(r, s') = ?val ?c (s\<lparr>sv_world := w\<rparr>)"
      using rate_limit_cases [of b ops clk ids ?val ?c s r s'] by metis
    then show ?thesis
    proof cases
      case 1
      then show ?thesis using turned_away_mono [OF 1, of "{400, 401, 403, 429}"] by simp
    next
      case (2 w)
      have c: "cx_body ?c = Some body" "has_prefix (cx_path ?c) ''/v1/chat/completions''" "cx_method ?c = ''POST''"
        using assms(2-4) by (simp_all add: has_prefix_def)
      from validation_cases [OF 2 [symmetric] c] show ?thesis
      proof
        assume "turned_away {400} (s\<lparr>sv_world := w\<rparr>) r s'"
        from turned_away_mono [OF turned_away_world [OF this], of "{400, 401, 403, 429}"] show ?thesis by simp
      next
        assume "validate models (Some body) = None \<and> (r, s') = h ?c (s\<lparr>sv_world := w\<rparr>)"
        then show ?thesis using key by (intro disjI2 bexI [of _ key] exI [of _ ?c] exI [of _ w]) simp_all
      qed
    qed
  qed
qed

text \<open>
  C3. Only admissible requests reach the chat service: a completion request is either turned
  away by the middleware with status 400, 401, 403 or 429, which leaves all of the service but
  the outside world as it was, or it carries a configured key, asks for a model that some
  provider lists and that the key allows, has messages, and its outcome is that of the chat
  handler for the same body.
\<close>

theorem gateway_admits_only_valid:
  assumes "gateway_handler env cfg gw flusher c s = (r, s')" and "gw_models gw = collectAllModels (cf_providers cfg)"
    and "cx_method c = ''POST''" and "cx_path c = ''/v1/chat/completions''"
    and "cx_body c = Some body" and "ParseStandardRequest body = Inr req"
  shows "turned_away {400, 401, 403, 429} s r s' \<or>
    (\<exists>key \<in> set (au_apiKeys (cf_auth cfg)). \<exists>(name, pc) \<in> set (cf_providers cfg). \<exists>c' w r1 s1.
       cx_authorization c = ''Bearer '' @ ak_key key \<and> req_messages req \<noteq> [] \<and>
       req_model req \<in> set (pr_models pc) \<and>
       (ak_allowedModels key = [''*''] \<or> req_model req \<in> set (ak_allowedModels key)) \<and> cx_body c' = Some body \<and>
       chatCompletionHandler (Some (mn_service env)) flusher c' (s\<lparr>sv_world := w\<rparr>) = (r1, s1) \<and> wrapped r1 s1 r s')"
    (is "?away \<or> ?in")
proof -
  let ?routes = "RegisterRoutes (Some (mn_service env)) flusher (Some (gw_checker gw)) (mn_prometheus env) (mn_unmatched env)"
  obtain i w r1 s1 where h: "AuthMiddleware (au_apiKeys (cf_auth cfg))
      (RateLimitMiddleware (if gw_limiter gw then Some (sets_on_world (mn_sets env)) else None)
         (on_world (mn_millis env)) (on_world (mn_randomID env)) (ValidationMiddleware (gw_models gw) ?routes))
      (c\<lparr>cx_requestId := Some i\<rparr>) (s\<lparr>sv_world := w\<rparr>) = (r1, s1)"
    and wr: "wrapped r1 s1 r s'"
    using outer_middleware [OF assms(1) [unfolded gateway_handler_def]] by blast
  let ?c = "c\<lparr>cx_requestId := Some i\<rparr>"
  have c: "cx_path ?c = ''/v1/chat/completions''" "cx_method ?c = ''POST''" "cx_body ?c = Some body" using assms(3-5) by simp_all
  from middleware_cases [OF h c] show ?thesis
  proof (elim disjE bexE exE conjE)
    assume "turned_away {400, 401, 403, 429} (s\<lparr>sv_world := w\<rparr>) r1 s1"
    from turned_away_wrapped [OF turned_away_world [OF this] wr] show ?thesis ..
  next
    fix key c' v
    assume key: "key \<in> set (au_apiKeys (cf_auth cfg))" "cx_authorization ?c = ''Bearer '' @ ak_key key"
      and allowed: "modelAllowed (ak_allowedModels key) ?c" and valid: "validate (gw_models gw) (Some body) = None"
      and c': "cx_path c' = cx_path ?c" "cx_method c' = cx_method ?c" "cx_body c' = cx_body ?c"
      and run: "(r1, s1) = ?routes c' ((s\<lparr>sv_world := w\<rparr>)\<lparr>sv_world := v\<rparr>)"
    note f = validated_fields [OF valid assms(6)]
    obtain name pc where "(name, pc) \<in> set (cf_providers cfg)" "req_model req \<in> set (pr_models pc)"
      using f assms(2) by (auto simp: collectAllModels_set)
    moreover have "ak_allowedModels key = [''*''] \<or> req_model req \<in> set (ak_allowedModels key)"
      using model_allowed_cases [OF allowed, of body req] c(3) assms(6) f by simp
    moreover have "chatCompletionHandler (Some (mn_service env)) flusher c' (s\<lparr>sv_world := v\<rparr>) = (r1, s1)"
      using run c' assms(3,4) by (simp add: RegisterRoutes_def)
    ultimately have ?in using key f wr c'(3) assms(5)
      by (intro bexI [of _ key] bexI [of _ "(name, pc)"], simp only: prod.case,
          intro exI [of _ c'] exI [of _ v] exI [of _ r1] exI [of _ s1] conjI, simp_all)
    then show ?thesis ..
  qed
qed

section \<open>An instance\<close>

text \<open>Two providers, one of each kind, and one key; the upstreams do not answer.\<close>

definition demo_provider :: "string \<Rightarrow> string list \<Rightarrow> int \<Rightarrow> ProviderConfig" where
  "demo_provider kind models weight = \<lparr>pr_type = kind, pr_baseURL = ''u'', pr_apiKey = ''s'', pr_models = models,
     pr_weight = weight, pr_timeout = 1\<rparr>"

definition demo_config :: Config where
  "demo_config = \<lparr>cf_server = \<lparr>srv_port = 8080, srv_readTimeout = 1, srv_writeTimeout = 1\<rparr>,
     cf_redis = \<lparr>rd_addr = '''', rd_password = '''', rd_db = 0\<rparr>,
     cf_auth = \<lparr>au_apiKeys = [demo_key]\<rparr>,
     cf_providers = [(''p'', demo_provider ''openai'' [''m'', ''n''] 2), (''q'', demo_provider ''anthropic'' [''n''] 1)],
     cf_routing = \<lparr>ro_strategies = [''explicit'', ''capability''], ro_rules = [], ro_cascade = Map.empty\<rparr>,
     cf_semanticRouting = \<lparr>sr_threshold = fzero, sr_maxPromptLength = 0, sr_categories = []\<rparr>,
     cf_semanticCache = \<lparr>cs_enabled = True, cs_threshold = fzero, cs_ttl = 1, cs_maxEntries = 1, cs_maxPromptLength = 0\<rparr>,
     cf_fallback = \<lparr>fb_retryMax = 1, fb_retryBackoff = 1, fb_chains = Map.empty\<rparr>,
     cf_breaker = \<lparr>cc_failureThreshold = 1, cc_window = 1, cc_cooldown = 1\<rparr>,
     cf_balancer = \<lparr>bs_concurrency = fzero, bs_latency = fzero, bs_warmupEnabled = False, bs_warmupDuration = 0,
       bs_healthWindowSize = 0, bs_healthMinRequests = 0\<rparr>,
     cf_embedding = \<lparr>em_onnxLibraryPath = ''l'', em_modelPath = ''p''\<rparr>\<rparr>"

definition silent_http :: "duration \<Rightarrow> unit HttpClient" where
  "silent_http d = \<lparr>hc_urlErr = (\<lambda>_. None), hc_do = (\<lambda>_ w. (Inl ''connection refused'', w)), hc_jsonText = (\<lambda>_ _. '''')\<rparr>"

definition absent_onnx :: "unit onnx_env" where
  "absent_onnx = \<lparr>ox_environment = (\<lambda>_. Some ''not found''), ox_readFile = (\<lambda>_. Inl ''''), ox_parseConfig = (\<lambda>_. Inl ''''),
     ox_tokenizer = (\<lambda>_ _. Inl ''''), ox_session = (\<lambda>_. Inl '''')\<rparr>"

definition absent_redis :: "unit RedisClient" where
  "absent_redis = \<lparr>rc_ping = (\<lambda>w. (Some (OtherErr ''refused''), w)), rc_clock = (\<lambda>w. (0, w)),
     rc_write = (\<lambda>_ w. (Some (OtherErr ''refused''), w)), rc_zrange = (\<lambda>_ w. (Inl (OtherErr ''refused''), w)),
     rc_get = (\<lambda>ks w. (map (\<lambda>_. Inl (Some (OtherErr ''refused''))) ks, w))\<rparr>"

definition demo_env :: "(unit, unit) main_env" where
  "demo_env = \<lparr>mn_onnx = absent_onnx, mn_http = silent_http, mn_redis = absent_redis,
     mn_sets = \<lparr>zs_trimAndCount = (\<lambda>_ _ _ w. (None, w)), zs_add = (\<lambda>_ _ _ w. w), zs_expire = (\<lambda>_ _ w. w)\<rparr>,
     mn_service = demo_senv, mn_millis = (\<lambda>w. (0, w)), mn_requestID = (\<lambda>w. (''i'', w)), mn_randomID = (\<lambda>w. (''x'', w)),
     mn_log = (\<lambda>_ w. w), mn_prometheus = ok_handler, mn_unmatched = ok_handler\<rparr>"

lemma absent_engine: "embedding_Init absent_onnx lib path None = (NilEngine, Some (OtherErr ''init onnx env: not found''))"
  by (simp add: embedding_Init_def absent_onnx_def init_failed_def)

lemma demo_gateway: "\<exists>gw. build_gateway demo_env demo_config () = Ok gw"
  by (simp add: build_gateway_def demo_env_def start_engine_def absent_engine build_semantic_def Let_def split: prod.split)

definition demo_router :: "unit Router" where
  "demo_router = build_router demo_config (build_registry silent_http demo_config) None"

lemma demo_plain: "CHR ''/'' \<notin> set (req_model req) \<Longrightarrow> plain_request demo_router req"
  by (simp add: plain_request_def demo_router_def build_router_def NewRouter_def demo_config_def strategy_models_def)

lemma demo_served: "served demo_router (s, m) \<longleftrightarrow> m = ''m'' \<or> m = ''n''"
  by (auto simp: served_def demo_router_def build_router_def NewRouter_def build_registry_registered ProvidersForModel_def
      registered_byModel demo_config_def demo_provider_def)

lemma demo_options: "req_model req \<noteq> '''' \<Longrightarrow> route_options req demo_router = [(''default'', req_model req)]"
  by (simp add: route_options_def proposals_def strategy_models_def demo_router_def build_router_def NewRouter_def
      demo_config_def map_get_def)

lemma demo_models: "collectAllModels (cf_providers demo_config) = [''m'', ''n'']"
  by (simp add: collectAllModels_def collect_model_def demo_config_def demo_provider_def)

text \<open>A provider of the gateway whose upstream streams nothing.\<close>

definition empty_http :: "duration \<Rightarrow> unit HttpClient" where
  "empty_http d = (silent_http d)\<lparr>hc_do := (\<lambda>_ w. (Inr \<lparr>ha_code = 200, ha_status = '''', ha_body = '''', ha_bodyErr = None\<rparr>, w))\<rparr>"

definition demo_wired :: "(duration \<Rightarrow> unit HttpClient) \<Rightarrow> unit Service" where
  "demo_wired http = demo_service\<lparr>sv_providerLookup := ProviderByName (build_registry http demo_config)\<rparr>"

lemma demo_lookup: "ProviderByName (build_registry http demo_config) ''p'' =
    Some (openai_provider (NewOpenAICompatible http ''p'' ''u'' ''s'' [''m'', ''n''] 1))"
  by (simp add: build_registry_registered ProviderByName_def registered_byName demo_config_def new_provider_def demo_provider_def
      openai_provider_def anthropic_provider_def NewOpenAICompatible_def NewAnthropic_def)

lemma demo_stream_route: "router_Route ((demo_chat ''p/m'')\<lparr>req_stream := True\<rparr>) r =
    (Ok \<lparr>rd_provider = ''p'', rd_model = ''m'', rd_strategy = ''explicit''\<rparr>, r)"
  using explicit_route [of "''p''" "(demo_chat ''p/m'')\<lparr>req_stream := True\<rparr>" "''m''" r] by simp

lemma demo_stream_body: "oa_buildRequestBody ((demo_chat ''p/m'')\<lparr>req_stream := True\<rparr>) \<noteq> Inl e"
  by (simp add: oa_buildRequestBody_def demo_chat_def demo_request_def zero_request_def)

theorem unreachable_upstream_panics_witness:
  "fst (handleStream demo_senv True (demo_chat ''p/m'') (demo_wired silent_http)) = Panic"
proof -
  obtain body where b: "oa_buildRequestBody ((demo_chat ''p/m'')\<lparr>req_stream := True\<rparr>) = Inr body"
    using demo_stream_body by (metis sum.exhaust)
  obtain s1 where s1: "svc_Allow demo_senv ''p'' ''m'' ((demo_wired silent_http)\<lparr>sv_router := sv_router (demo_wired silent_http)\<rparr>) = (True, s1)"
      "sv_providerLookup s1 = ProviderByName (build_registry silent_http demo_config)"
    by (simp add: svc_Allow_def demo_wired_def demo_service_def NewChatService_def demo_senv_def)
  show ?thesis
    using unreachable_upstream_panics [OF demo_stream_route, of demo_senv "demo_wired silent_http" s1
        "NewOpenAICompatible silent_http ''p'' ''u'' ''s'' [''m'', ''n''] 1" body "''connection refused''" "()" True] s1 b demo_lookup [of silent_http]
    by (simp add: NewOpenAICompatible_def silent_http_def)
qed

theorem missing_engine_panics_witness:
  "\<exists>gw. build_gateway demo_env demo_config () = Ok gw \<and>
     fst (HandleChatCompletion demo_senv (demo_chat ''m'') (gw_chatSvc gw)) = Panic"
proof -
  obtain gw where gw: "build_gateway demo_env demo_config () = Ok gw" using demo_gateway by blast
  have t: "cache_text (req_messages (demo_chat ''m'')) \<noteq> ''''"
    by (simp add: demo_chat_def demo_request_def zero_request_def cache_text_def)
  have "start_engine demo_env demo_config = (NilEngine, snd (start_engine demo_env demo_config))"
    and "cs_enabled (cf_semanticCache demo_config)" "cs_maxPromptLength (cf_semanticCache demo_config) \<le> 0"
    by (simp_all add: demo_env_def start_engine_def absent_engine demo_config_def)
  then have "fst (HandleChatCompletion demo_senv (demo_chat ''m'') (gw_chatSvc gw)) = Panic"
    using missing_engine_panics [OF gw, of "snd (start_engine demo_env demo_config)" "demo_chat ''m''" demo_senv] t by simp
  then show ?thesis using gw by blast
qed

theorem gateway_rejects_strangers_witness:
  "\<exists>gw r s'. gateway_handler demo_env demo_config gw True (demo_ctx\<lparr>cx_authorization := ''Bearer k2''\<rparr>) (demo_wired silent_http) = (r, s') \<and>
     turned_away {401, 403} (demo_wired silent_http) r s'"
proof -
  obtain gw where gw: "build_gateway demo_env demo_config () = Ok gw" using demo_gateway by blast
  obtain r s' where r: "gateway_handler demo_env demo_config gw True (demo_ctx\<lparr>cx_authorization := ''Bearer k2''\<rparr>)
      (demo_wired silent_http) = (r, s')" by fastforce
  from gateway_rejects_strangers [OF r] r show ?thesis
    by (auto simp: demo_ctx_def open_path_def demo_config_def demo_key_def)
qed

theorem gateway_admits_only_valid_witness:
  "\<exists>gw r s'. gateway_handler demo_env demo_config gw True (demo_ctx\<lparr>cx_authorization := ''k1''\<rparr>) (demo_wired silent_http) = (r, s') \<and>
     turned_away {400, 401, 403, 429} (demo_wired silent_http) r s'"
proof -
  obtain gw where gw: "build_gateway demo_env demo_config () = Ok gw" using demo_gateway by blast
  obtain r s' where r: "gateway_handler demo_env demo_config gw True (demo_ctx\<lparr>cx_authorization := ''k1''\<rparr>)
      (demo_wired silent_http) = (r, s')" by fastforce
  from gateway_admits_only_valid [OF r build_gateway_parts(1) [OF gw] _ _ _ demo_body_decodes(2)] r show ?thesis
    by (auto simp: demo_ctx_def)
qed

end
