(* ===== verification/Gateway_Fairness.thy ===== *)
theory Gateway_Fairness
  imports Gateway_Main
begin

text \<open>
  The balancer in the wiring of \<^verbatim>\<open>cmd/gateway/main.go\<close>: what the smooth weighted round-robin
  of the balancer means for the requests that the gateway routes.
\<close>

section \<open>One routed request is one selection\<close>

lemma resolve_list_determined:
  assumes "\<And>m. rt_modelProviders r m \<noteq> [] \<Longrightarrow> resolveWithBalancer (rt_modelProviders r m) m s r = (Some (D s m), N m)"
  shows "resolveModelList ms s r = (case List.find (served r) (map (Pair s) ms) of None \<Rightarrow> (None, r) | Some (s, m) \<Rightarrow> (Some (D s m), N m))"
  using assms by (induction ms) (auto simp: served_def)

lemma route_strategies_determined:
  assumes "\<And>s m. rt_modelProviders r m \<noteq> [] \<Longrightarrow> resolveWithBalancer (rt_modelProviders r m) m s r = (Some (D s m), N m)"
    and "\<forall>s \<in> set ss. strategy_models s req r \<noteq> Panic"
  shows "route_strategies ss req r = (case List.find (served r) (concat (map (\<lambda>s. proposals s req r) ss)) of
     None \<Rightarrow> (Ok None, r) | Some (s, m) \<Rightarrow> (Ok (Some (D s m)), N m))"
  using assms(2)
proof (induction ss)
  case (Cons s ss)
  obtain ms where ms: "strategy_models s req r = Ok ms"
    using Cons.prems strategy_models_not_Err [of s req r] by (cases "strategy_models s req r") auto
  note rl = resolve_list_determined [of r s D N ms, OF assms(1)]
  show ?case
  proof (cases "List.find (served r) (map (Pair s) ms)")
    case None
    then show ?thesis using Cons rl ms by (simp add: find_append proposals_def [of s])
  next
    case (Some sm)
    then show ?thesis using rl ms by (cases sm) (simp add: find_append proposals_def)
  qed
qed simp

lemma router_Route_determined:
  assumes "\<And>s m. rt_modelProviders r m \<noteq> [] \<Longrightarrow> resolveWithBalancer (rt_modelProviders r m) m s r = (Some (D s m), N m)"
    and "plain_request r req" and "List.find (served r) (route_options req r) = Some (s, m)"
  shows "router_Route req r = (Ok (D s m), N m)"
proof -
  have np: "\<forall>s \<in> set (rt_strategies r). strategy_models s req r \<noteq> Panic" "CHR ''/'' \<notin> set (req_model req)"
    using assms(2) by (simp_all add: plain_request_def)
  note rs = route_strategies_determined [of r D N "rt_strategies r" req, OF assms(1) np(1)]
  note rl = resolve_list_determined [of r "''default''" D N "rt_defaultCascade r", OF assms(1)]
  show ?thesis
  proof (cases "List.find (served r) (concat (map (\<lambda>s. proposals s req r) (rt_strategies r)))")
    case (Some sm)
    then show ?thesis using assms(3) rs np(2)
      by (cases sm) (simp add: route_options_def find_append router_Route_def str_contains_char)
  next
    case None
    then have rd: "router_Route req r = route_default req r"
      using rs np(2) by (simp add: router_Route_def str_contains_char)
    show ?thesis
    proof (cases "List.find (served r) (map (Pair ''default'') (rt_defaultCascade r))")
      case (Some sm)
      then have "rt_defaultCascade r \<noteq> []" by auto
      then show ?thesis using assms(3) None Some rl
        by (cases sm) (simp add: rd route_options_def find_append route_default_def)
    next
      case None2: None
      then have "s = ''default''" "m = req_model req" "m \<noteq> ''''" "rt_modelProviders r m \<noteq> []"
        using assms(3) None by (auto simp: route_options_def find_append served_def split: if_splits)
      then show ?thesis using assms(1) [of m s] rl None2
        by (auto simp: rd route_default_def split: prod.split)
    qed
  qed
qed

text \<open>The names and weights of the providers of a model, as configured.\<close>

definition model_weights :: "Config \<Rightarrow> string \<Rightarrow> (string \<times> int) list" where
  "model_weights cfg m = map (\<lambda>(name, pc). (name, pr_weight pc)) (filter (\<lambda>(name, pc). m \<in> set (pr_models pc)) (cf_providers cfg))"

text \<open>A configuration whose providers have distinct names, none empty, and list each model once.\<close>

definition providers_ok :: "Config \<Rightarrow> bool" where
  "providers_ok cfg \<longleftrightarrow> config_ok cfg \<and> list_all (\<lambda>(name, pc). name \<noteq> '''' \<and> distinct (pr_models pc)) (cf_providers cfg)"

lemma gateway_candidates:
  assumes "providers_ok cfg"
  shows "buildCandidates cfg (ProvidersForModel (build_registry http cfg) m) m =
    map (\<lambda>(name, w). plain_candidate name m w) (model_weights cfg m)"
proof -
  have d: "distinct (map fst (cf_providers cfg))" and ms: "\<forall>(name, pc) \<in> set (cf_providers cfg). distinct (pr_models pc)"
    using assms by (auto simp: providers_ok_def config_ok_def list_all_iff)
  have w: "map_of (cf_providers cfg) name = Some pc" if "(name, pc) \<in> set (cf_providers cfg)" for name pc
    using d that by simp
  have "concat (map (\<lambda>p. replicate (count_list (pv_models p) m) p) (map (new_provider http) ps)) =
      map (new_provider http) (filter (\<lambda>(name, pc). m \<in> set (pr_models pc)) ps)"
    if "\<forall>(name, pc) \<in> set ps. distinct (pr_models pc)" for ps
    using that by (induction ps) (auto simp: count_list_distinct)
  then have pf: "ProvidersForModel (build_registry http cfg) m =
      map (new_provider http) (filter (\<lambda>(name, pc). m \<in> set (pr_models pc)) (cf_providers cfg))"
    using ms by (simp add: ProvidersForModel_def build_registry_registered registered_byModel)
  have c: "build_candidate cfg m (new_provider http x) = (\<lambda>(name, w). plain_candidate name m w) ((\<lambda>(name, pc). (name, pr_weight pc)) x)"
    if "x \<in> set (cf_providers cfg)" for x
  proof -
    obtain name pc where x: "x = (name, pc)" by fastforce
    show ?thesis using w [of name pc] that unfolding x by (simp add: build_candidate_def plain_candidate_def)
  qed
  show ?thesis unfolding pf buildCandidates_def model_weights_def using c by (auto simp: comp_def)
qed

lemma gateway_route_selects:
  fixes r :: "'w Router" and http :: "duration \<Rightarrow> 'w HttpClient"
  assumes "providers_ok cfg" and "gateway.uses_env http cfg r" and "rt_balancer r = Some b"
    and "plain_request r req" and "List.find (served r) (route_options req r) = Some (s, m)"
    and "bal_Select (map (\<lambda>(name, w). plain_candidate name m w) (model_weights cfg m)) b = (sel, b')"
  shows "router_Route req r = (Ok \<lparr>rd_provider = pc_name sel, rd_model = m, rd_strategy = s\<rparr>, r\<lparr>rt_balancer := Some b'\<rparr>)"
proof -
  let ?cs = "\<lambda>m. map (\<lambda>(name, w). plain_candidate name m w) (model_weights cfg m)"
  let ?sel = "\<lambda>m. bal_Select (?cs m) b"
  have env: "rt_modelProviders r = ProvidersForModel (build_registry http cfg)" "rt_buildCandidates r = Some (buildCandidates cfg)" "bal_ok b"
    using assms(2,3) by (simp_all add: gateway.uses_env_def)
  have "resolveWithBalancer (rt_modelProviders r n) n t r =
      (Some \<lparr>rd_provider = pc_name (fst (?sel n)), rd_model = n, rd_strategy = t\<rparr>, r\<lparr>rt_balancer := Some (snd (?sel n))\<rparr>)"
    if "rt_modelProviders r n \<noteq> []" for n t
  proof -
    note gc = gateway_candidates [OF assms(1), of http n]
    have "map pc_name (?cs n) = map pv_name (rt_modelProviders r n)"
      unfolding gc [symmetric] env(1) by (rule gateway.candidate_names)
    then have ne: "?cs n \<noteq> []" using that by auto
    then have "fst (?sel n) \<in> set (?cs n)" by (rule bal_Select_member [OF _ env(3)])
    then have "pc_name (fst (?sel n)) \<noteq> ''''"
      using assms(1) by (auto simp: model_weights_def providers_ok_def list_all_iff)
    then have "balanced_choice (rt_modelProviders r n) n r = (Some (pc_name (fst (?sel n))), r\<lparr>rt_balancer := Some (snd (?sel n))\<rparr>)"
      using ne by (simp add: balanced_choice_def assms(3) env gc case_prod_beta Let_def del: length_map)
    then show ?thesis by (simp add: resolveWithBalancer_def)
  qed
  from router_Route_determined [of r "\<lambda>t n. \<lparr>rd_provider = pc_name (fst (?sel n)), rd_model = n, rd_strategy = t\<rparr>"
      "\<lambda>n. r\<lparr>rt_balancer := Some (snd (?sel n))\<rparr>", OF this assms(4,5)] assms(6)
  show ?thesis by simp
qed

section \<open>Fairness of the gateway\<close>

text \<open>Routing the same request again and again: the providers that are chosen.\<close>

fun route_repeatedly :: "nat \<Rightarrow> StandardRequest \<Rightarrow> 'w Router \<Rightarrow> RouteDecision go_result list" where
  "route_repeatedly 0 req r = []"
| "route_repeatedly (Suc k) req r = (let (d, r) = router_Route req r in d # route_repeatedly k req r)"

lemma route_repeatedly_selects:
  fixes r :: "'w Router" and http :: "duration \<Rightarrow> 'w HttpClient"
  assumes "providers_ok cfg"
  shows "gateway.uses_env http cfg r \<Longrightarrow> rt_balancer r = Some b \<Longrightarrow> plain_request r req \<Longrightarrow>
    List.find (served r) (route_options req r) = Some (s, m) \<Longrightarrow>
    route_repeatedly k req r = map (\<lambda>c. Ok \<lparr>rd_provider = pc_name c, rd_model = m, rd_strategy = s\<rparr>)
      (fst (select_run k (map (\<lambda>(name, w). plain_candidate name m w) (model_weights cfg m)) b))"
proof (induction k arbitrary: r b)
  case (Suc k)
  let ?cs = "map (\<lambda>(name, w). plain_candidate name m w) (model_weights cfg m)"
  obtain sel b' where sel: "bal_Select ?cs b = (sel, b')" by fastforce
  let ?r = "r\<lparr>rt_balancer := Some b'\<rparr>"
  note rt = gateway_route_selects [OF assms Suc.prems sel]
  have np: "\<forall>s \<in> set (rt_strategies r). strategy_models s req r \<noteq> Panic" "CHR ''/'' \<notin> set (req_model req)"
    using Suc.prems(3) by (simp_all add: plain_request_def)
  have env: "gateway.uses_env http cfg ?r" using gateway.route_env [OF Suc.prems(1) np(2,1) rt] by simp
  have same: "same_setup r ?r" by (simp add: same_setup_def)
  have models: "strategy_models s req ?r = strategy_models s req r" for s by (rule same_setup_models [OF same])
  have "plain_request ?r req" using Suc.prems(3) by (simp add: plain_request_def models)
  moreover have "List.find (served ?r) (route_options req ?r) = Some (s, m)"
  proof -
    have "served ?r = served r" by (simp add: served_def fun_eq_iff)
    then show ?thesis using Suc.prems(4) by (simp add: route_options_def proposals_def models)
  qed
  ultimately show ?case using Suc.IH [OF env, of b'] by (simp add: rt sel split: prod.split)
qed simp

lemma weight_of_build: "weight_of (build_balancer cfg) name = fzero"
proof -
  have "bal_ok b \<Longrightarrow> weight_of (foldl (\<lambda>b (n, pc). snd (bal_Register n b)) b xs) name = weight_of b name"
    for b and xs :: "(string \<times> ProviderConfig) list"
    by (induction xs arbitrary: b) (auto simp: bal_ok_Register weight_of_Register)
  then show ?thesis by (simp add: build_balancer_def)
qed

lemma bal_cfg_build: "bal_cfg (build_balancer cfg) = balancer_config (cf_balancer cfg)"
proof -
  have "bal_cfg (snd (bal_Register n b)) = bal_cfg b" for n b
    by (simp add: bal_Register_def Let_def split: option.split)
  then have "bal_cfg (foldl (\<lambda>b (n, pc). snd (bal_Register n b)) b xs) = bal_cfg b"
    for b and xs :: "(string \<times> ProviderConfig) list" by (induction xs arbitrary: b) auto
  then show ?thesis by (simp add: build_balancer_def NewBalancer_def)
qed

text \<open>
  C2. The gateway balances by weight: in as many repetitions of a request as the weights of the
  providers of its model add up to, every one of these providers is chosen exactly as often as
  its configured weight, starting with the start of the gateway and whatever the penalty
  coefficients. Every repetition is routed to the same model.
\<close>

theorem gateway_balances_by_weight:
  fixes http :: "duration \<Rightarrow> 'w HttpClient"
  assumes "r0 = build_router cfg (build_registry http cfg) sem" and "providers_ok cfg"
    and "plain_request r0 req" and "List.find (served r0) (route_options req r0) = Some (s, m)"
    and "finite_cfg (balancer_config (cf_balancer cfg))"
    and "weights_ok (map snd (model_weights cfg m))" and "fits (map snd (model_weights cfg m))"
    and "(name, w) \<in> set (model_weights cfg m)"
  shows "int (count_list (route_repeatedly (nat (sum_list (map snd (model_weights cfg m)))) req r0)
      (Ok \<lparr>rd_provider = name, rd_model = m, rd_strategy = s\<rparr>)) = w"
proof -
  let ?nws = "model_weights cfg m"
  let ?cs = "map (\<lambda>(name, w). plain_candidate name m w) ?nws"
  let ?dec = "\<lambda>c. Ok \<lparr>rd_provider = pc_name c, rd_model = m, rd_strategy = s\<rparr>"
  have b: "rt_balancer r0 = Some (build_balancer cfg)" by (simp add: assms(1) build_router_def NewRouter_def)
  have env: "gateway.uses_env http cfg r0" using build_router_uses_env assms(1) by simp
  obtain picks b' where run: "select_run (nat (sum_list (map snd ?nws))) ?cs (build_balancer cfg) = (picks, b')" by fastforce
  have "distinct (map fst ?nws)"
    using assms(2) by (auto simp: providers_ok_def config_ok_def model_weights_def comp_def case_prod_beta distinct_map_filter)
  moreover have "int_exact x" if "x \<in> set (map snd ?nws)" for x
    using fits_exact(2) [OF assms(6,7) swrr_inv_start [OF assms(6)] _ that]
    using weights_ok_nonempty [OF assms(6)] by (metis in_set_replicate length_0_conv)
  ultimately have "starts_level ?cs (map snd ?nws) (build_balancer cfg)"
    using assms(5,6) by (intro starts_level_plain) (force simp: bal_ok_build bal_cfg_build weight_of_build weights_ok_def)+
  note fair = period_counts [OF this assms(6,7) run]
  obtain i where i: "i < length ?nws" "?nws ! i = (name, w)" using assms(8) by (auto simp: in_set_conv_nth)
  then have "int (count_list (map pc_name picks) name) = w" using fair i by (auto dest: spec [of _ i])
  moreover have "count_list (map ?dec picks) (Ok \<lparr>rd_provider = name, rd_model = m, rd_strategy = s\<rparr>) = count_list (map pc_name picks) name"
    by (induction picks) auto
  ultimately show ?thesis using route_repeatedly_selects [OF assms(2) env b assms(3,4)] run by simp
qed

lemma demo_model_weights: "model_weights demo_config ''n'' = [(''p'', 2), (''q'', 1)]"
  by (simp add: model_weights_def demo_config_def demo_provider_def)

theorem gateway_balances_by_weight_witness:
  "int (count_list (route_repeatedly 3 (demo_chat ''n'') demo_router)
      (Ok \<lparr>rd_provider = ''p'', rd_model = ''n'', rd_strategy = ''default''\<rparr>)) = 2"
proof -
  have "providers_ok demo_config" by (simp add: providers_ok_def config_ok_def demo_config_def demo_provider_def)
  moreover have "plain_request demo_router (demo_chat ''n'')" by (rule demo_plain) simp
  moreover have "List.find (served demo_router) (route_options (demo_chat ''n'') demo_router) = Some (''default'', ''n'')"
    by (simp add: demo_options demo_served)
  moreover have "finite_cfg (balancer_config (cf_balancer demo_config))"
    by (simp add: finite_cfg_def balancer_config_def demo_config_def)
  ultimately show ?thesis
    using gateway_balances_by_weight [OF demo_router_def, of "demo_chat ''n''" "''default''" "''n''" "''p''" 2]
    by (simp add: demo_model_weights weights_ok_def fits_def)
qed

end
