(* ===== verification/Config_Load.thy ===== *)
theory Config_Load
  imports Gateway_Config Gateway_Model
begin

text \<open>
  Loading and reloading of \<^verbatim>\<open>internal/config/config.go\<close>. The viper package, which parses the
  file and fills the records, is a parameter; expanding environment variables, which the loader
  does itself with \<^verbatim>\<open>os.ExpandEnv\<close>, and the snapshot that it publishes are modelled.
\<close>

section \<open>Environment variables in a text\<close>

definition isShellSpecialVar :: "char \<Rightarrow> bool" where
  "isShellSpecialVar c \<longleftrightarrow> c \<in> set ''*#$@!?-0123456789''"

definition isAlphaNum :: "char \<Rightarrow> bool" where
  "isAlphaNum c \<longleftrightarrow> c = CHR ''_'' \<or> (48 \<le> byte c \<and> byte c \<le> 57) \<or>
     (97 \<le> byte c \<and> byte c \<le> 122) \<or> (65 \<le> byte c \<and> byte c \<le> 90)"

text \<open>The name after a dollar sign, and how many bytes it takes.\<close>

definition getShellName :: "string \<Rightarrow> string \<times> nat" where
  "getShellName s =
     (if s \<noteq> [] \<and> hd s = CHR ''{'' then
        (if length s > 2 \<and> isShellSpecialVar (s ! 1) \<and> s ! 2 = CHR ''}'' then ([s ! 1], 3)
         else let name = takeWhile (\<lambda>c. c \<noteq> CHR ''}'') (tl s)
              in if length name = length (tl s) then ([], 1)
                 else if name = [] then ([], 2)
                 else (name, length name + 2))
      else if s \<noteq> [] \<and> isShellSpecialVar (hd s) then ([hd s], 1)
      else let name = takeWhile isAlphaNum s in (name, length name))"

function ExpandEnv :: "(string \<Rightarrow> string) \<Rightarrow> string \<Rightarrow> string" where
  "ExpandEnv getenv [] = []"
| "ExpandEnv getenv (c # cs) =
     (if c = CHR ''$'' \<and> cs \<noteq> [] then
        let (name, w) = getShellName cs
        in (if name = [] \<and> w > 0 then [] else if name = [] then [c] else getenv name) @ ExpandEnv getenv (drop w cs)
      else c # ExpandEnv getenv cs)"
  by pat_completeness auto
termination by (relation "measure (length \<circ> snd)") auto

section \<open>Loading\<close>

text \<open>
  What the loader calls of viper: reading a file, of a given type or of the type that its name
  tells, into a store of keys, which may fail; the keys;
  the value of a key, if it is a string; setting one; and the two ways to get values out.
\<close>

record ('v, 'w) Viper =
  vi_read :: "string option \<Rightarrow> string \<Rightarrow> 'w \<Rightarrow> (go_error + 'v) \<times> 'w"
  vi_keys :: "'v \<Rightarrow> string list"
  vi_string :: "'v \<Rightarrow> string \<Rightarrow> string option"
  vi_set :: "'v \<Rightarrow> string \<Rightarrow> string \<Rightarrow> 'v"
  vi_unmarshal :: "'v \<Rightarrow> go_error + Config"
  vi_stringMap :: "'v \<Rightarrow> string \<Rightarrow> string \<rightharpoonup> string list"

definition expand_key :: "('v, 'w) Viper \<Rightarrow> (string \<Rightarrow> string) \<Rightarrow> 'v \<Rightarrow> string \<Rightarrow> 'v" where
  "expand_key vi getenv v key = (case vi_string vi v key of None \<Rightarrow> v | Some s \<Rightarrow> vi_set vi v key (ExpandEnv getenv s))"

definition expand_keys :: "('v, 'w) Viper \<Rightarrow> (string \<Rightarrow> string) \<Rightarrow> 'v \<Rightarrow> 'v" where
  "expand_keys vi getenv v = foldl (expand_key vi getenv) v (vi_keys vi v)"

text \<open>The state is the published snapshot, if any, and the outside world.\<close>

definition config_Load :: "('v, 'w) Viper \<Rightarrow> (string \<Rightarrow> string) \<Rightarrow> string \<Rightarrow> Config option \<times> 'w \<Rightarrow>
    (go_error + Config) \<times> Config option \<times> 'w" where
  "config_Load vi getenv path = (\<lambda>(currentConfig, w).
     (case vi_read vi (Some ''yaml'') path w of
        (Inl err, w) \<Rightarrow> (Inl err, currentConfig, w)
      | (Inr v, w) \<Rightarrow>
          let v = expand_keys vi getenv v
          in case vi_unmarshal vi v of
               Inl err \<Rightarrow> (Inl err, currentConfig, w)
             | Inr cfg \<Rightarrow>
                 let cfg = cfg\<lparr>cf_routing := (cf_routing cfg)\<lparr>ro_cascade := vi_stringMap vi v ''routing.cascade''\<rparr>,
                              cf_fallback := (cf_fallback cfg)\<lparr>fb_chains := vi_stringMap vi v ''fallback.chains''\<rparr>\<rparr>
                 in (Inr cfg, Some cfg, w)))"

definition GetConfig :: "Config option \<times> 'w \<Rightarrow> Config option" where
  "GetConfig s = fst s"

text \<open>
  \<^verbatim>\<open>WatchAndReload\<close>: reading the file once decides whether it is watched at all; then every
  change of the file loads it again, in the world as it is by then. The configurations that the
  caller's callback, when there is one, is called with are collected.
\<close>

definition config_changed :: "('v, 'w) Viper \<Rightarrow> (string \<Rightarrow> string) \<Rightarrow> string \<Rightarrow> 'w \<Rightarrow> Config option \<times> Config list \<Rightarrow>
    Config option \<times> Config list" where
  "config_changed vi getenv path w = (\<lambda>(currentConfig, notified).
     (case config_Load vi getenv path (currentConfig, w) of
        (Inl err, c, _) \<Rightarrow> (c, notified)
      | (Inr cfg, c, _) \<Rightarrow> (c, notified @ [cfg])))"

definition WatchAndReload :: "('v, 'w) Viper \<Rightarrow> (string \<Rightarrow> string) \<Rightarrow> string \<Rightarrow> 'w \<Rightarrow> 'w list \<Rightarrow> Config option \<Rightarrow>
    go_error option \<times> Config option \<times> Config list" where
  "WatchAndReload vi getenv path w changes currentConfig =
     (case vi_read vi None path w of
        (Inl err, _) \<Rightarrow> (Some err, currentConfig, [])
      | (Inr _, _) \<Rightarrow> (None, foldl (\<lambda>s w. config_changed vi getenv path w s) (currentConfig, []) changes))"

section \<open>What is expanded\<close>

lemma ExpandEnv_plain: "CHR ''$'' \<notin> set s \<Longrightarrow> ExpandEnv getenv (s @ t) = s @ ExpandEnv getenv t"
  by (induction s) auto

lemma getShellName_braces:
  assumes "name \<noteq> []" and "CHR ''}'' \<notin> set name"
  shows "getShellName (''{'' @ name @ ''}'' @ t) = (name, length name + 2)"
proof -
  obtain c cs where n: "name = c # cs" using assms(1) by (cases name) auto
  have tw: "takeWhile (\<lambda>c. c \<noteq> CHR ''}'') (name @ CHR ''}'' # t) = name" using assms(2) by (auto simp: takeWhile_append)
  show ?thesis
  proof (cases "cs = []")
    case True
    then show ?thesis using tw by (simp add: getShellName_def n)
  next
    case False
    then have "hd cs \<noteq> CHR ''}''" using assms(2) n by (cases cs) auto
    then have "(name @ CHR ''}'' # t) ! 1 \<noteq> CHR ''}''" using n False by (cases cs) auto
    then show ?thesis using tw by (simp add: getShellName_def n nth_Cons')
  qed
qed

lemma ExpandEnv_braces:
  assumes "CHR ''$'' \<notin> set s" and "name \<noteq> []" and "CHR ''}'' \<notin> set name"
  shows "ExpandEnv getenv (s @ ''${'' @ name @ ''}'' @ t) = s @ getenv name @ ExpandEnv getenv t"
  using getShellName_braces [OF assms(2,3), of t] assms(2)
  by (simp add: ExpandEnv_plain [OF assms(1)])

text \<open>What the loader relies on of viper: a value that was set is read back, and changes no other.\<close>

definition viper_laws :: "('v, 'w) Viper \<Rightarrow> bool" where
  "viper_laws vi \<longleftrightarrow> (\<forall>v k s k'. vi_string vi (vi_set vi v k s) k' = (if k' = k then Some s else vi_string vi v k'))"

text \<open>
  Loading expands every string of the file once: the store that the records are filled
  from has, under each key that holds a string, the text of the file with its environment
  variables replaced: a name in braces after a dollar sign is written out as the value of that
  variable, and the text around it is kept.
\<close>

theorem load_expands_strings:
  assumes "viper_laws vi" and "distinct (vi_keys vi v)" and "k \<in> set (vi_keys vi v)"
    and "vi_string vi v k = Some (s @ ''${'' @ name @ ''}'' @ t)"
    and "CHR ''$'' \<notin> set s" and "CHR ''$'' \<notin> set t" and "name \<noteq> []" and "CHR ''}'' \<notin> set name"
  shows "vi_string vi (expand_keys vi getenv v) k = Some (s @ getenv name @ t)"
proof -
  have "vi_string vi (foldl (expand_key vi getenv) u ks) k =
      (if k \<in> set ks then map_option (ExpandEnv getenv) (vi_string vi u k) else vi_string vi u k)" if "distinct ks" for ks u
    using that assms(1)
    by (induction ks arbitrary: u) (auto simp: expand_key_def viper_laws_def split: option.split)
  moreover have "ExpandEnv getenv (s @ ''${'' @ name @ ''}'' @ t) = s @ getenv name @ t"
    using ExpandEnv_braces [OF assms(5,7,8), of getenv t] ExpandEnv_plain [OF assms(6), of getenv "[]"] by simp
  ultimately show ?thesis using assms(2-4) by (simp add: expand_keys_def)
qed

section \<open>The snapshot\<close>

definition loaded :: "('v, 'w) Viper \<Rightarrow> (string \<Rightarrow> string) \<Rightarrow> string \<Rightarrow> 'w \<Rightarrow> Config option" where
  "loaded vi getenv path w = (case fst (config_Load vi getenv path (None, w)) of Inl _ \<Rightarrow> None | Inr cfg \<Rightarrow> Some cfg)"

lemma config_Load_snapshot:
  "fst (snd (config_Load vi getenv path (c, w))) = (case loaded vi getenv path w of None \<Rightarrow> c | Some cfg \<Rightarrow> Some cfg)"
  "fst (config_Load vi getenv path (c, w)) = fst (config_Load vi getenv path (None, w))"
  by (auto simp: loaded_def config_Load_def Let_def split: prod.split sum.split)

lemma map_filter_snoc:
  "List.map_filter f (xs @ [x]) = List.map_filter f xs @ (case f x of None \<Rightarrow> [] | Some y \<Rightarrow> [y])"
  by (simp add: List.map_filter_def split: option.split)

text \<open>
  C39. A broken file never replaces a working configuration: after any changes of the watched
  file, the snapshot is the last version that could be loaded, or the one before all of them if
  none could; and exactly the versions that could be loaded are reported, in order.
\<close>

theorem reload_keeps_snapshot:
  assumes "WatchAndReload vi getenv path w changes c = (None, c', notified)"
  shows "notified = List.map_filter (loaded vi getenv path) changes \<and>
    c' = (if notified = [] then c else Some (last notified))"
proof -
  have step: "config_changed vi getenv path v (d, ns) =
      (case loaded vi getenv path v of None \<Rightarrow> (d, ns) | Some cfg \<Rightarrow> (Some cfg, ns @ [cfg]))" for v d ns
    using config_Load_snapshot [of vi getenv path d v]
    by (cases "config_Load vi getenv path (d, v)") (auto simp: config_changed_def loaded_def split: sum.splits)
  let ?run = "foldl (\<lambda>s w. config_changed vi getenv path w s) (c, [])"
  let ?ok = "List.map_filter (loaded vi getenv path)"
  have run: "?run ws = (if ?ok ws = [] then c else Some (last (?ok ws)), ?ok ws)" for ws
    by (induction ws rule: rev_induct)
      (simp_all add: map_filter_simps map_filter_snoc step split: option.split)
  show ?thesis
    using assms run [of changes]
    by (cases "vi_read vi None path w"; cases "fst (vi_read vi None path w)") (auto simp: WatchAndReload_def)
qed

text \<open>A store of two keys, whose file can be read only where the world says so.\<close>

definition empty_config :: Config where
  "empty_config = \<lparr>cf_server = \<lparr>srv_port = 0, srv_readTimeout = 0, srv_writeTimeout = 0\<rparr>,
     cf_redis = \<lparr>rd_addr = '''', rd_password = '''', rd_db = 0\<rparr>, cf_auth = \<lparr>au_apiKeys = []\<rparr>, cf_providers = [],
     cf_routing = \<lparr>ro_strategies = [], ro_rules = [], ro_cascade = Map.empty\<rparr>,
     cf_semanticRouting = \<lparr>sr_threshold = fzero, sr_maxPromptLength = 0, sr_categories = []\<rparr>,
     cf_semanticCache = \<lparr>cs_enabled = False, cs_threshold = fzero, cs_ttl = 0, cs_maxEntries = 0, cs_maxPromptLength = 0\<rparr>,
     cf_fallback = \<lparr>fb_retryMax = 0, fb_retryBackoff = 0, fb_chains = Map.empty\<rparr>,
     cf_breaker = \<lparr>cc_failureThreshold = 0, cc_window = 0, cc_cooldown = 0\<rparr>,
     cf_balancer = \<lparr>bs_concurrency = fzero, bs_latency = fzero, bs_warmupEnabled = False, bs_warmupDuration = 0,
       bs_healthWindowSize = 0, bs_healthMinRequests = 0\<rparr>,
     cf_embedding = \<lparr>em_onnxLibraryPath = '''', em_modelPath = ''''\<rparr>\<rparr>"

definition demo_viper :: "(string \<rightharpoonup> string, bool) Viper" where
  "demo_viper = \<lparr>vi_read = (\<lambda>type path w. (if w then Inr [''a'' \<mapsto> ''${K}!'', ''b'' \<mapsto> ''''] else Inl (OtherErr ''yaml''), w)),
     vi_keys = (\<lambda>v. [''a'', ''b'']), vi_string = (\<lambda>v k. v k), vi_set = (\<lambda>v k s. v(k \<mapsto> s)),
     vi_unmarshal = (\<lambda>v. Inr empty_config), vi_stringMap = (\<lambda>v k. Map.empty)\<rparr>"

theorem load_expands_strings_witness:
  "vi_string demo_viper (expand_keys demo_viper (\<lambda>n. if n = ''K'' then ''sk'' else '''') [''a'' \<mapsto> ''${K}!'', ''b'' \<mapsto> '''']) ''a'' =
     Some ''sk!''"
  using load_expands_strings [of demo_viper "[''a'' \<mapsto> ''${K}!'', ''b'' \<mapsto> '''']" "''a''" "''''" "''K''" "''!''"
      "\<lambda>n. if n = ''K'' then ''sk'' else ''''"]
  by (simp add: demo_viper_def viper_laws_def)

theorem reload_keeps_snapshot_witness:
  "WatchAndReload demo_viper (\<lambda>_. '''') ''f'' True [True, False] None = (None, Some empty_config, [empty_config])"
proof -
  obtain c' ns where w: "WatchAndReload demo_viper (\<lambda>_. '''') ''f'' True [True, False] None = (None, c', ns)"
    by (cases "foldl (\<lambda>s w. config_changed demo_viper (\<lambda>_. '''') ''f'' w s) (None, []) [True, False]")
      (simp add: WatchAndReload_def demo_viper_def)
  have "loaded demo_viper (\<lambda>_. '''') ''f'' v = (if v then Some empty_config else None)" for v
    by (cases v) (simp_all add: loaded_def config_Load_def demo_viper_def empty_config_def Let_def)
  with reload_keeps_snapshot [OF w] w show ?thesis by (simp add: map_filter_simps)
qed

end
