(* ===== verification/Service_Invariants.thy ===== *)
theory Service_Invariants
  imports Handler
begin

text \<open>
  What an operation of the chat service can do to its state, once and for all: an invariant of
  the elementary changes (the world moves on, a breaker is asked or told, metrics are counted,
  the router routes, the cache is looked up or filled) is an invariant of every operation of
  the service and of its HTTP handler. The locale states the elementary changes; its instances
  are the invariants of the components, and the relation of the elementary changes itself: so
  every operation is a run of elementary changes, and what all interleavings of those keep,
  concurrent requests keep.
\<close>

section \<open>Elementary changes\<close>

text \<open>The updates that a Prometheus counter accepts.\<close>

fun counter_ok :: "metric \<Rightarrow> bool" where
  "counter_ok (TokensTotal p m d n) \<longleftrightarrow> 0 \<le> n"
| "counter_ok _ \<longleftrightarrow> True"

locale service_invariant =
  fixes svc :: "'w service_env" and I :: "'w Service \<Rightarrow> bool"
  assumes inv_world: "I s \<Longrightarrow> I (s\<lparr>sv_world := w\<rparr>)"
    and inv_allow: "I s \<Longrightarrow> I (snd (svc_Allow svc p m s))"
    and inv_failure: "I s \<Longrightarrow> I (svc_RecordFailure svc p m s)"
    and inv_success: "I s \<Longrightarrow> I (svc_RecordSuccess p m s)"
    and inv_metrics: "I s \<Longrightarrow> list_all counter_ok ms \<Longrightarrow> I (update_metrics ms s)"
    and inv_route: "I s \<Longrightarrow> I (s\<lparr>sv_router := snd (router_Route req (sv_router s))\<rparr>)"
    and inv_lookup: "I s \<Longrightarrow> sv_cache s = Some c \<Longrightarrow> I (s\<lparr>sv_cache := Some (snd (cache_Lookup now req c))\<rparr>)"
    and inv_store: "I s \<Longrightarrow> sv_cache s = Some c \<Longrightarrow>
      I (s\<lparr>sv_cache := Some (fst (snd (cache_Store (sx_hash svc) clk req resp (c, w))))\<rparr>)"
begin

lemma send_inv:
  assumes "I s" shows "I (snd (buildSendFn svc req p m s))"
proof -
  obtain ok s1 where a: "svc_Allow svc p m s = (ok, s1)" by fastforce
  then have "I s1" using inv_allow [OF assms, of p m] by simp
  then show ?thesis using assms inv_world inv_failure inv_success
    by (auto simp: buildSendFn_def a Let_def split: option.split sum.split prod.split)
qed

end

text \<open>Such an invariant is one of the fallback engine's executions.\<close>

sublocale service_invariant \<subseteq> exec: fallback_client "service_fe_env svc" "buildSendFn svc req" I
  for req
proof
  show "I (snd (fe_wait (service_fe_env svc) d s))" if "I s" for d s
    using inv_world [OF that] by (simp add: service_fe_env_def split: prod.split)
  show "I (snd (buildSendFn svc req p m s))" if "I s" for p m s
    using send_inv [OF that] .
qed

section \<open>Operations\<close>

lemma cache_Lookup_counters: "cache_Lookup now req c = (Ok (r, ms), c') \<Longrightarrow> list_all counter_ok ms"
  by (auto simp: cache_Lookup_def Let_def split: go_result.splits option.splits prod.splits sum.splits)

context service_invariant
begin

lemma lookup_inv:
  assumes "I s" shows "I (snd (service_lookup svc req s))"
proof (cases "sv_cache s")
  case (Some c)
  obtain now w where t: "sx_clock svc (sv_world s) = (now, w)" by fastforce
  obtain r c' where l: "cache_Lookup now req c = (r, c')" by fastforce
  have "I (s\<lparr>sv_cache := Some c'\<rparr>)" using inv_lookup [OF assms Some, of now req] l by simp
  from inv_world [OF this] have i: "I (s\<lparr>sv_cache := Some c', sv_world := w\<rparr>)" by simp
  then show ?thesis using inv_metrics [OF i] cache_Lookup_counters [of now req c]
    by (auto simp: service_lookup_def Some t l Let_def split: go_result.split prod.split)
qed (use assms in \<open>simp add: service_lookup_def\<close>)

lemma store_inv:
  assumes "I s" shows "I (snd (service_store svc req resp s))"
proof (cases "sv_cache s")
  case (Some c)
  obtain t1 w1 t2 w2 t3 w3 where t: "sx_clock svc (sv_world s) = (t1, w1)" "sx_clock svc w1 = (t2, w2)" "sx_clock svc w2 = (t3, w3)"
    by fastforce
  obtain r c' w' where st: "cache_Store (sx_hash svc) (t1, t2, t3) req resp (c, w3) = (r, c', w')" by (metis prod.collapse)
  have "I (s\<lparr>sv_cache := Some c'\<rparr>)" using inv_store [OF assms Some, of "(t1, t2, t3)" req resp w3] st by simp
  from inv_world [OF this] show ?thesis
    by (auto simp: service_store_def Some t st Let_def split: go_result.split)
qed (use assms in \<open>simp add: service_store_def\<close>)

lemma finish_inv:
  assumes "I s" shows "I (snd (finish_request svc req dec resp level s))"
proof -
  have u: "I s' \<Longrightarrow> counter_ok x \<Longrightarrow> I (update_metrics [x] s')" for s' x using inv_metrics [of s' "[x]"] by simp
  show ?thesis using assms by (auto simp: finish_request_def Let_def intro!: u store_inv)
qed

lemma dispatch_inv:
  assumes "I s" shows "I (snd (dispatch svc req s))"
proof -
  obtain d r where d: "router_Route req (sv_router s) = (d, r)" by fastforce
  have s1: "I (s\<lparr>sv_router := r\<rparr>)" using inv_route [OF assms, of req] d by simp
  show ?thesis
  proof (cases d)
    case (Ok dec)
    obtain ok s2 where a: "svc_Allow svc (rd_provider dec) (rd_model dec) (s\<lparr>sv_router := r\<rparr>) = (ok, s2)" by fastforce
    then have s2: "I s2" using inv_allow [OF s1, of "rd_provider dec" "rd_model dec"] by simp
    obtain res s3 where e: "fe_Execute (sv_fallbackEng s2) (service_fe_env svc) (rd_provider dec) (rd_model dec)
        (Some (buildSendFn svc req)) s2 = (res, s3)" by fastforce
    then have "I s3" using exec.Execute_keeps [OF s2] by (metis snd_conv)
    then show ?thesis using finish_inv s2 by (cases res) (auto simp: dispatch_def d Ok a e split: prod.split)
  qed (use s1 in \<open>simp_all add: dispatch_def d\<close>)
qed

lemma completion_inv:
  assumes "I s" shows "I (snd (HandleChatCompletion svc req s))"
proof -
  obtain l s1 where l: "service_lookup svc req s = (l, s1)" by fastforce
  then have i: "I s1" using lookup_inv [OF assms, of req] by simp
  then show ?thesis using assms inv_metrics [OF i] dispatch_inv [OF i]
    by (auto simp: HandleChatCompletion_def l split: go_result.split option.split)
qed

lemma stream_inv:
  assumes "I s" shows "I (snd (HandleChatCompletionStream svc req s))"
proof -
  let ?req = "if \<not> req_stream req then req\<lparr>req_stream := True\<rparr> else req"
  obtain d r where d: "router_Route ?req (sv_router s) = (d, r)" by fastforce
  have s1: "I (s\<lparr>sv_router := r\<rparr>)" using inv_route [OF assms, of ?req] d by simp
  show ?thesis
  proof (cases d)
    case (Ok dec)
    obtain ok s2 where a: "svc_Allow svc (rd_provider dec) (rd_model dec) (s\<lparr>sv_router := r\<rparr>) = (ok, s2)" by fastforce
    then have s2: "I s2" using inv_allow [OF s1, of "rd_provider dec" "rd_model dec"] by simp
    show ?thesis unfolding HandleChatCompletionStream_def Let_def d
      using s2 inv_world [OF s2] inv_failure [OF inv_world [OF s2]]
      by (auto simp: Ok a split: option.split prod.split sum.split)
  qed (use s1 in \<open>simp_all add: HandleChatCompletionStream_def Let_def d\<close>)
qed

lemma forward_inv: "I s \<Longrightarrow> I (snd (forward svc p m reading gotError ch s))"
proof (induction ch arbitrary: s reading gotError)
  case (Cons c cs)
  let ?s = "if is_error c then svc_RecordFailure svc p m s else s"
  have i: "I ?s" using Cons.prems inv_failure by simp
  show ?case
  proof (cases reading)
    case True
    obtain out s' where f: "forward svc p m (\<not> is_error c) (if is_error c then True else gotError) cs ?s = (out, s')" by fastforce
    from Cons.IH [OF i, of "\<not> is_error c" "if is_error c then True else gotError"] show ?thesis
      unfolding f using True by (simp only: forward.simps Let_def f if_True prod.case snd_conv)
  qed (use i in simp)
qed (simp add: inv_success)

lemma handleStream_inv: "I s \<Longrightarrow> I (snd (handleStream svc flusher req s))"
proof -
  assume "I s"
  obtain res s1 where r: "HandleChatCompletionStream svc req s = (res, s1)" by fastforce
  then have i: "I s1" using stream_inv [OF \<open>I s\<close>, of req] by simp
  show ?thesis
  proof (cases res)
    case (Ok dc)
    obtain dec ch where dc: "dc = (dec, ch)" by fastforce
    obtain out s2 where f: "forward svc (rd_provider dec) (rd_model dec) flusher False ch s1 = (out, s2)" by fastforce
    then have "I s2" using forward_inv [OF i, of "rd_provider dec" "rd_model dec" flusher False ch] by simp
    then show ?thesis by (simp add: handleStream_def r Ok dc f)
  qed (use i in \<open>simp_all add: handleStream_def r\<close>)
qed

lemma handleNonStreaming_inv: "I s \<Longrightarrow> I (snd (handleNonStreaming svc req s))"
  using completion_inv [of s req] by (auto simp: handleNonStreaming_def split: prod.split go_result.split)

lemma chat_handler_inv: "I s \<Longrightarrow> I (snd (chatCompletionHandler (Some svc) flusher c s))"
  using handleStream_inv handleNonStreaming_inv
  by (auto simp: chatCompletionHandler_def Let_def split: option.split sum.split)

end

section \<open>The relation of the elementary changes\<close>

text \<open>Each of these is atomic in the code, but for the lookup, whose scan does not hold the lock.\<close>

inductive service_step :: "'w service_env \<Rightarrow> 'w Service \<Rightarrow> 'w Service \<Rightarrow> bool" for svc where
  world: "service_step svc s (s\<lparr>sv_world := w\<rparr>)"
| allow: "service_step svc s (snd (svc_Allow svc p m s))"
| failure: "service_step svc s (svc_RecordFailure svc p m s)"
| success: "service_step svc s (svc_RecordSuccess p m s)"
| metrics: "list_all counter_ok ms \<Longrightarrow> service_step svc s (update_metrics ms s)"
| route: "service_step svc s (s\<lparr>sv_router := snd (router_Route req (sv_router s))\<rparr>)"
| lookup: "sv_cache s = Some c \<Longrightarrow> service_step svc s (s\<lparr>sv_cache := Some (snd (cache_Lookup now req c))\<rparr>)"
| store: "sv_cache s = Some c \<Longrightarrow>
    service_step svc s (s\<lparr>sv_cache := Some (fst (snd (cache_Store (sx_hash svc) clk req resp (c, w))))\<rparr>)"

context service_invariant
begin

lemma step_inv: "service_step svc s s' \<Longrightarrow> I s \<Longrightarrow> I s'"
  by (induction rule: service_step.induct)
    (blast intro: inv_world inv_allow inv_failure inv_success inv_metrics inv_route inv_lookup inv_store)+

lemma steps_inv: "(service_step svc)\<^sup>*\<^sup>* s s' \<Longrightarrow> I s \<Longrightarrow> I s'"
  by (induction rule: rtranclp_induct) (auto intro: step_inv)

end

interpretation elementary: service_invariant svc "(service_step svc)\<^sup>*\<^sup>* s0" for svc :: "'w service_env" and s0
  by unfold_locales (blast intro: service_step.intros rtranclp.rtrancl_into_rtrancl)+

section \<open>Instances\<close>

text \<open>The wiring never changes.\<close>

interpretation wiring: service_invariant svc "same_wiring s0" for svc :: "'w service_env" and s0
  by unfold_locales
    (auto simp: same_wiring_def svc_Allow_def svc_RecordFailure_def svc_RecordSuccess_def update_metrics_def Let_def
      split: prod.split)

text \<open>The cache stays within its capacity.\<close>

definition cache_bounded :: "int \<Rightarrow> 'w Service \<Rightarrow> bool" where
  "cache_bounded n s \<longleftrightarrow> (case sv_cache s of None \<Rightarrow> True | Some c \<Rightarrow> within_capacity c \<and> ca_maxEntries c = n)"

interpretation bounded: service_invariant svc "cache_bounded n" for svc :: "'w service_env" and n
  by unfold_locales
    (auto simp: cache_bounded_def svc_Allow_def svc_RecordFailure_def svc_RecordSuccess_def update_metrics_def Let_def
      within_capacity_Lookup within_capacity_Store maxEntries_kept split: prod.split)

text \<open>Every breaker is in a state that calls can bring a new one to.\<close>

definition breakers_ok :: "CircuitBreakerManager \<Rightarrow> 'w Service \<Rightarrow> bool" where
  "breakers_ok mgr s \<longleftrightarrow> (\<forall>k. \<exists>evs. cbm_view (sv_cbManager s) k = cb_run evs (cbm_view mgr k))"

lemma breakers_ok_update:
  assumes "breakers_ok mgr s"
    and "cbm_view (sv_cbManager s') = (cbm_view (sv_cbManager s))(k := cb_step e (cbm_view (sv_cbManager s) k))"
  shows "breakers_ok mgr s'"
  unfolding breakers_ok_def
proof
  fix k'
  obtain evs where "cbm_view (sv_cbManager s) k' = cb_run evs (cbm_view mgr k')"
    using assms(1) by (auto simp: breakers_ok_def)
  then show "\<exists>evs. cbm_view (sv_cbManager s') k' = cb_run evs (cbm_view mgr k')"
    using assms(2) by (cases "k' = k") (auto intro: exI [of _ "evs @ [e]"] exI [of _ evs])
qed

interpretation breakers: service_invariant svc "breakers_ok mgr" for svc :: "'w service_env" and mgr
proof
  show "breakers_ok mgr (snd (svc_Allow svc p m s))" if "breakers_ok mgr s" for s :: "'w Service" and p m
    using breakers_ok_update [OF that cbm_views(1)] .
  show "breakers_ok mgr (svc_RecordFailure svc p m s)" if "breakers_ok mgr s" for s :: "'w Service" and p m
    using breakers_ok_update [OF that cbm_views(3)] .
  show "breakers_ok mgr (svc_RecordSuccess p m s)" if "breakers_ok mgr s" for s :: "'w Service" and p m
    using breakers_ok_update [OF that cbm_views(4)] .
qed (simp_all add: breakers_ok_def update_metrics_def)

text \<open>The counters only grow.\<close>

definition counted_ok :: "metric list \<Rightarrow> 'w Service \<Rightarrow> bool" where
  "counted_ok ms s \<longleftrightarrow> (\<exists>ms'. sv_metrics s = ms @ ms' \<and> list_all counter_ok ms')"

interpretation counters: service_invariant svc "counted_ok ms" for svc :: "'w service_env" and ms
  by unfold_locales
    (auto simp: counted_ok_def svc_Allow_def svc_RecordFailure_def svc_RecordSuccess_def update_metrics_def Let_def
      split: prod.split)

end
