(* ===== verification/Observability.thy ===== *)
theory Observability
  imports Gateway_Model
begin

text \<open>
  The package \<^verbatim>\<open>internal/observability\<close>: the global logger, the request id in the values of a
  context, and the registration of the metrics. The updates of the metrics are the datatype
  \<open>metric\<close> of \<open>Gateway_Model\<close>.
\<close>

section \<open>The logger\<close>

text \<open>
  What the variable \<^verbatim>\<open>Logger\<close> can hold. Whether zap can build a logger for production or for
  development is a parameter; when it cannot, it returns a nil logger with the error.
\<close>

datatype Logger = NopLogger | NilLogger | ZapLogger bool

definition InitLogger :: "(bool \<Rightarrow> go_error option) \<Rightarrow> bool \<Rightarrow> Logger \<times> go_error option" where
  "InitLogger zap production =
     (let err = (if production then zap True else zap False)
      in (if err = None then ZapLogger production else NilLogger, err))"

lemma InitLogger_usable: "snd (InitLogger zap production) = None \<longleftrightarrow> fst (InitLogger zap production) \<noteq> NilLogger"
  by (simp add: InitLogger_def Let_def)

section \<open>The request id in a context\<close>

text \<open>
  The values of a \<^verbatim>\<open>context.Context\<close>: a chain of keys and values, searched from the newest on. The
  key of the request id has a type of its own, so that no other package's key equals it; a value
  under it is a string or, for a type assertion to fail on, something else.
\<close>

datatype ctx_key = requestIDKey | OtherKey string

datatype ctx_value = StringValue string | OtherValue

datatype Context = Background | WithValue Context ctx_key ctx_value

fun ctx_Value :: "Context \<Rightarrow> ctx_key \<Rightarrow> ctx_value option" where
  "ctx_Value Background key = None"
| "ctx_Value (WithValue ctx k v) key = (if k = key then Some v else ctx_Value ctx key)"

definition WithRequestID :: "Context \<Rightarrow> string \<Rightarrow> Context" where
  "WithRequestID ctx rid = WithValue ctx requestIDKey (StringValue rid)"

definition RequestIDFromContext :: "Context \<Rightarrow> string" where
  "RequestIDFromContext ctx = (case ctx_Value ctx requestIDKey of Some (StringValue v) \<Rightarrow> v | _ \<Rightarrow> '''')"

text \<open>The newest request id is read back, whatever other values the context was given since.\<close>

fun with_values :: "(string \<times> ctx_value) list \<Rightarrow> Context \<Rightarrow> Context" where
  "with_values [] ctx = ctx"
| "with_values ((k, v) # kvs) ctx = with_values kvs (WithValue ctx (OtherKey k) v)"

lemma with_values_request_id: "ctx_Value (with_values kvs ctx) requestIDKey = ctx_Value ctx requestIDKey"
  by (induction kvs ctx rule: with_values.induct) simp_all

lemma request_id_read_back: "RequestIDFromContext (with_values kvs (WithRequestID ctx rid)) = rid"
  by (simp add: RequestIDFromContext_def WithRequestID_def with_values_request_id)

lemma request_id_missing: "RequestIDFromContext (with_values kvs Background) = ''''"
  by (simp add: RequestIDFromContext_def with_values_request_id)

section \<open>Registration\<close>

text \<open>
  A Prometheus registry as the names of its collectors: registering a second collector of a name
  panics. The collectors of the program, by name.
\<close>

definition metric_names :: "string list" where
  "metric_names = [''llm_request_duration_seconds'', ''llm_request_total'', ''llm_tokens_total'',
     ''llm_fallback_total'', ''llm_circuit_breaker_state'', ''llm_cache_hit_total'']"

fun MustRegister :: "string list \<Rightarrow> string list \<Rightarrow> string list go_result" where
  "MustRegister [] reg = Ok reg"
| "MustRegister (name # names) reg = (if name \<in> set reg then Panic else MustRegister names (reg @ [name]))"

definition RegisterMetrics :: "string list \<Rightarrow> string list go_result" where
  "RegisterMetrics reg = MustRegister metric_names reg"

lemma MustRegister_fresh:
  "distinct names \<Longrightarrow> set names \<inter> set reg = {} \<Longrightarrow> MustRegister names reg = Ok (reg @ names)"
  by (induction names arbitrary: reg) auto

lemma MustRegister_keeps: "MustRegister names reg = Ok reg' \<Longrightarrow> set reg \<union> set names \<subseteq> set reg'"
  by (induction names arbitrary: reg) (fastforce split: if_splits)+

lemma RegisterMetrics_fresh:
  assumes "set metric_names \<inter> set reg = {}"
  shows "RegisterMetrics reg = Ok (reg @ metric_names)"
  unfolding RegisterMetrics_def by (rule MustRegister_fresh [OF _ assms]) (simp add: metric_names_def)

lemma RegisterMetrics_twice: "RegisterMetrics reg = Ok reg' \<Longrightarrow> RegisterMetrics reg' = Panic"
proof -
  assume "RegisterMetrics reg = Ok reg'"
  from MustRegister_keeps [OF this [unfolded RegisterMetrics_def]] show ?thesis
    by (simp add: RegisterMetrics_def metric_names_def)
qed

text \<open>
  Every update that the gateway makes is of a registered metric. The gauge of the breakers is
  registered, but the gateway never sets it.
\<close>

fun metric_name :: "metric \<Rightarrow> string" where
  "metric_name (RequestDuration provider model) = ''llm_request_duration_seconds''"
| "metric_name (RequestTotal provider model status) = ''llm_request_total''"
| "metric_name (TokensTotal provider model direction n) = ''llm_tokens_total''"
| "metric_name (FallbackTotal level from_model to_model) = ''llm_fallback_total''"
| "metric_name (CacheHitTotal model cache_type) = ''llm_cache_hit_total''"

lemma updates_are_registered: "RegisterMetrics reg = Ok reg' \<Longrightarrow> metric_name m \<in> set reg'"
proof -
  assume "RegisterMetrics reg = Ok reg'"
  from MustRegister_keeps [OF this [unfolded RegisterMetrics_def]] have "set metric_names \<subseteq> set reg'" by simp
  moreover have "metric_name m \<in> set metric_names" by (cases m) (simp_all add: metric_names_def)
  ultimately show ?thesis by blast
qed

lemma breaker_gauge_never_set: "metric_name m \<noteq> ''llm_circuit_breaker_state''"
  by (cases m) simp_all

end
