(* ===== verification/Gateway_Process.thy ===== *)
theory Gateway_Process
  imports Gateway_Main Config_Load Service_Invariants Observability
begin

text \<open>
  The program as a whole, \<^verbatim>\<open>main\<close> of \<^verbatim>\<open>cmd/gateway/main.go\<close>: it loads the configuration,
  builds the gateway, serves requests one after the other while the world around it and its
  configuration file change, and closes its clients when it is interrupted. The HTTP server,
  which parses requests and recovers from panics, is outside.
\<close>

section \<open>Start, serving and shutdown\<close>

record ('v, 'c, 'w) program =
  pg_zap :: "bool \<Rightarrow> go_error option"
  pg_getenv :: "string \<Rightarrow> string"
  pg_viper :: "('v, 'w) Viper"
  pg_env :: "('c, 'w) main_env"

datatype main_exit = LoggerPanics go_error | LoadFatal go_error | StartPanics

datatype client = RedisClient | OnnxEngine | CacheClient

text \<open>
  A running gateway: the configuration that \<^verbatim>\<open>main\<close> holds, the published snapshot, whether the
  file is watched, the wiring with the state of its service, what was replied so far, how
  often a reload was logged, and the clients closed.
\<close>

record 'w process =
  px_config :: Config
  px_snapshot :: "Config option"
  px_watched :: bool
  px_engine :: engine
  px_gateway :: "'w Gateway"
  px_service :: "'w Service"
  px_replies :: "Reply go_result list"
  px_reloads :: nat
  px_closed :: "client list"
  px_running :: bool

definition config_path :: "('v, 'c, 'w) program \<Rightarrow> string" where
  "config_path pg = (let cfgPath = pg_getenv pg ''GATEWAY_CONFIG''
     in if cfgPath = '''' then ''configs/gateway.yaml'' else cfgPath)"

definition main_start :: "('v, 'c, 'w) program \<Rightarrow> 'w \<Rightarrow> main_exit + 'w process" where
  "main_start pg w =
     (case snd (InitLogger (pg_zap pg) False) of
        Some err \<Rightarrow> Inl (LoggerPanics err)
      | None \<Rightarrow>
          (case config_Load (pg_viper pg) (pg_getenv pg) (config_path pg) (None, w) of
             (Inl err, _, _) \<Rightarrow> Inl (LoadFatal err)
           | (Inr cfg, snapshot, w) \<Rightarrow>
               let (watch, w) = vi_read (pg_viper pg) None (config_path pg) w
               in case build_gateway (pg_env pg) cfg w of
                    Ok gw \<Rightarrow> Inr \<lparr>px_config = cfg, px_snapshot = snapshot,
                      px_watched = (case watch of Inl _ \<Rightarrow> False | Inr _ \<Rightarrow> True),
                      px_engine = fst (start_engine (pg_env pg) cfg), px_gateway = gw, px_service = gw_chatSvc gw,
                      px_replies = [], px_reloads = 0, px_closed = [], px_running = True\<rparr>
                  | _ \<Rightarrow> Inl StartPanics))"

text \<open>
  What happens to a running gateway: a request arrives, from a client whose connection can be
  flushed or not; the file changes; the outside world moves on; the process is interrupted.
\<close>

datatype 'w main_event = Request bool Ctx | FileChanged | Elapse "'w \<Rightarrow> 'w" | Interrupt

definition close_clients :: "'w process \<Rightarrow> client list" where
  "close_clients p =
     (if gw_limiter (px_gateway p) then [RedisClient] else []) @
     (if px_engine p \<noteq> NilEngine \<and> engine_Close (px_engine p) = Ok True then [OnnxEngine] else []) @
     (if hk_store (gw_checker (px_gateway p)) \<noteq> None then [CacheClient] else [])"

fun main_step :: "('v, 'c, 'w) program \<Rightarrow> 'w main_event \<Rightarrow> 'w process \<Rightarrow> 'w process" where
  "main_step pg (Request flusher c) p =
     (if \<not> px_running p then p
      else let (r, s) = gateway_handler (pg_env pg) (px_config p) (px_gateway p) flusher c (px_service p)
           in p\<lparr>px_service := s, px_replies := px_replies p @ [r]\<rparr>)"
| "main_step pg FileChanged p =
     (if \<not> px_running p \<or> \<not> px_watched p then p
      else let (res, snapshot, w) = config_Load (pg_viper pg) (pg_getenv pg) (config_path pg)
                 (px_snapshot p, sv_world (px_service p));
               p = p\<lparr>px_snapshot := snapshot, px_service := (px_service p)\<lparr>sv_world := w\<rparr>\<rparr>
           in case res of Inl _ \<Rightarrow> p | Inr _ \<Rightarrow> p\<lparr>px_reloads := px_reloads p + 1\<rparr>)"
| "main_step pg (Elapse f) p = p\<lparr>px_service := (px_service p)\<lparr>sv_world := f (sv_world (px_service p))\<rparr>\<rparr>"
| "main_step pg Interrupt p =
     (if \<not> px_running p then p else p\<lparr>px_running := False, px_closed := px_closed p @ close_clients p\<rparr>)"

definition main_run :: "('v, 'c, 'w) program \<Rightarrow> 'w main_event list \<Rightarrow> 'w process \<Rightarrow> 'w process" where
  "main_run pg es p = foldl (\<lambda>p e. main_step pg e p) p es"

section \<open>Invariants of the service are invariants of the process\<close>

text \<open>A handler of a library, which changes the outside world only.\<close>

definition outside_handler :: "'w Service handler \<Rightarrow> bool" where
  "outside_handler h \<longleftrightarrow> (\<forall>c s. \<exists>r w. h c s = (r, s\<lparr>sv_world := w\<rparr>))"

context service_invariant
begin

definition keeps :: "'w Service handler \<Rightarrow> bool" where
  "keeps h \<longleftrightarrow> (\<forall>c s. I s \<longrightarrow> I (snd (h c s)))"

lemma keepsD: "keeps h \<Longrightarrow> I s \<Longrightarrow> h c s = (r, s') \<Longrightarrow> I s'"
  unfolding keeps_def by (metis snd_conv)

lemma keeps_outside: "outside_handler h \<Longrightarrow> keeps h"
  unfolding keeps_def outside_handler_def using inv_world by (metis snd_conv)

lemma keeps_routes:
  assumes "keeps m" and "keeps u"
  shows "keeps (RegisterRoutes (Some svc) flusher checker m u)"
  unfolding keeps_def
proof (intro allI impI)
  fix c s assume i: "I s"
  then show "I (snd (RegisterRoutes (Some svc) flusher checker m u c s))"
    using assms chat_handler_inv [OF i] inv_world [OF i]
    by (auto simp: keeps_def RegisterRoutes_def split: option.split prod.split)
qed

lemma keeps_validation: "keeps h \<Longrightarrow> keeps (ValidationMiddleware models h)"
  by (auto simp: keeps_def ValidationMiddleware_def split: option.split)

lemma keeps_auth: "keeps h \<Longrightarrow> keeps (AuthMiddleware keys h)"
  by (auto simp: keeps_def AuthMiddleware_def Let_def split: option.split)

lemma keeps_rate:
  assumes "keeps h"
  shows "keeps (RateLimitMiddleware (if b then Some (sets_on_world ops) else None) (on_world clk) (on_world ids) h)"
  unfolding keeps_def
proof (intro allI impI)
  fix c s assume i: "I s"
  obtain r s' where r: "RateLimitMiddleware (if b then Some (sets_on_world ops) else None) (on_world clk) (on_world ids) h c s = (r, s')"
    by fastforce
  from rate_limit_cases [OF r] have "I s'"
    using i inv_world keepsD [OF assms] unfolding turned_away_def by metis
  then show "I (snd (RateLimitMiddleware (if b then Some (sets_on_world ops) else None) (on_world clk) (on_world ids) h c s))"
    using r by simp
qed

lemma keeps_outer:
  assumes "keeps h"
  shows "keeps (RequestIDMiddleware (on_world ids) (LoggingMiddleware (on_world clk) (\<lambda>e. in_world (lg e)) h))"
  unfolding keeps_def
proof (intro allI impI)
  fix c s assume i: "I s"
  obtain r s' where r: "RequestIDMiddleware (on_world ids) (LoggingMiddleware (on_world clk) (\<lambda>e. in_world (lg e)) h) c s = (r, s')"
    by fastforce
  obtain j w r1 s1 where h: "h (c\<lparr>cx_requestId := Some j\<rparr>) (s\<lparr>sv_world := w\<rparr>) = (r1, s1)" and wr: "wrapped r1 s1 r s'"
    using outer_middleware [OF r] by blast
  have "I s1" using keepsD [OF assms inv_world [OF i] h] .
  then have "I s'" using wr inv_world by (auto simp: wrapped_def split: go_result.splits)
  then show "I (snd (RequestIDMiddleware (on_world ids) (LoggingMiddleware (on_world clk) (\<lambda>e. in_world (lg e)) h) c s))"
    using r by simp
qed

lemma keeps_gateway:
  assumes "mn_service env = svc" and "outside_handler (mn_prometheus env)" and "outside_handler (mn_unmatched env)"
  shows "keeps (gateway_handler env cfg gw flusher)"
  unfolding gateway_handler_def assms(1)
  by (intro keeps_outer keeps_auth keeps_rate keeps_validation keeps_routes keeps_outside assms(2,3))

lemma process_inv:
  assumes "mn_service (pg_env pg) = svc" and "outside_handler (mn_prometheus (pg_env pg))"
    and "outside_handler (mn_unmatched (pg_env pg))" and "I (px_service p)"
  shows "I (px_service (main_run pg es p))"
  unfolding main_run_def
proof (induction es rule: rev_induct)
  case (snoc e es)
  let ?p = "foldl (\<lambda>p e. main_step pg e p) p es"
  show ?case
  proof (cases e)
    case (Request flusher c)
    then show ?thesis using snoc keeps_gateway [OF assms(1-3)]
      by (auto simp: keeps_def split: prod.split) (metis snd_conv)
  next
    case FileChanged
    then show ?thesis using snoc inv_world [OF snoc] by (auto simp: Let_def split: prod.split sum.split)
  next
    case (Elapse f)
    then show ?thesis using inv_world [OF snoc] by simp
  next
    case Interrupt
    then show ?thesis using snoc by simp
  qed
qed (use assms in simp)

end

text \<open>The router keeps its setup.\<close>

definition router_ok :: "(duration \<Rightarrow> 'w HttpClient) \<Rightarrow> Config \<Rightarrow> 'w Router \<Rightarrow> 'w Service \<Rightarrow> bool" where
  "router_ok http cfg r0 s \<longleftrightarrow> gateway.uses_env http cfg (sv_router s) \<and> same_setup r0 (sv_router s)"

interpretation routing: service_invariant svc "router_ok http cfg r0"
  for svc :: "'w service_env" and http :: "duration \<Rightarrow> 'w HttpClient" and cfg r0
proof
  show "router_ok http cfg r0 (s\<lparr>sv_router := snd (router_Route req (sv_router s))\<rparr>)" if "router_ok http cfg r0 s" for s :: "'w Service" and req
    using that gateway.route_keeps [of http cfg "sv_router s" req] by (auto simp: router_ok_def intro: same_setup_trans)
qed (auto simp: router_ok_def svc_Allow_def svc_RecordFailure_def svc_RecordSuccess_def update_metrics_def Let_def
    split: prod.split)

section \<open>What holds as long as the gateway runs\<close>

lemma main_run_setup:
  "px_config (main_run pg es p) = px_config p \<and> px_gateway (main_run pg es p) = px_gateway p \<and>
   px_engine (main_run pg es p) = px_engine p \<and> px_watched (main_run pg es p) = px_watched p"
  unfolding main_run_def
proof (induction es rule: rev_induct)
  case (snoc e es)
  then show ?case by (cases e) (auto simp: Let_def split: prod.split sum.split)
qed simp

text \<open>The clients that were opened are closed when the process is interrupted, and only once.\<close>

lemma closed_once:
  assumes "px_running p" and "px_closed p = []"
  shows "px_closed (main_run pg es p) = (if px_running (main_run pg es p) then [] else close_clients p)"
proof -
  have fixed: "close_clients (main_run pg es p) = close_clients p" for es
    using main_run_setup [of pg es p] by (simp add: close_clients_def)
  show ?thesis
  proof (induction es rule: rev_induct)
    case Nil
    then show ?case using assms by (simp add: main_run_def)
  next
    case (snoc e es)
    moreover have "main_run pg (es @ [e]) p = main_step pg e (main_run pg es p)" by (simp add: main_run_def)
    ultimately show ?case using fixed [of es] by (cases e) (auto simp: Let_def split: prod.split sum.split)
  qed
qed

lemma stops_when_interrupted:
  "\<not> px_running (main_run pg es p) \<longleftrightarrow> \<not> px_running p \<or> (\<exists>e \<in> set es. case e of Interrupt \<Rightarrow> True | _ \<Rightarrow> False)"
  unfolding main_run_def
proof (induction es rule: rev_induct)
  case (snoc e es)
  then show ?case by (cases e) (auto simp: Let_def split: prod.split sum.split)
qed simp

text \<open>The entries that the cache may hold for a model.\<close>

definition capacity :: "Config \<Rightarrow> int" where
  "capacity cfg = (let n = cs_maxEntries (cf_semanticCache cfg) in if n \<le> 0 then 10000 else n)"

lemma started:
  assumes "main_start pg w = Inr p"
  obtains sem where
    "sv_router (px_service p) = build_router (px_config p) (build_registry (mn_http (pg_env pg)) (px_config p)) sem"
    "sv_providerLookup (px_service p) = ProviderByName (build_registry (mn_http (pg_env pg)) (px_config p))"
    "sv_cbManager (px_service p) =
       NewCircuitBreakerManager (cc_failureThreshold (cf_breaker (px_config p))) (cc_cooldown (cf_breaker (px_config p)))"
    "sv_metrics (px_service p) = []"
    "cache_bounded (capacity (px_config p)) (px_service p)"
    "gw_models (px_gateway p) = collectAllModels (cf_providers (px_config p))"
proof -
  obtain cfg snap w1 where "config_Load (pg_viper pg) (pg_getenv pg) (config_path pg) (None, w) = (Inr cfg, snap, w1)"
    using assms by (auto simp: main_start_def split: option.splits sum.splits prod.splits)
  then obtain w2 gw where g: "build_gateway (pg_env pg) cfg w2 = Ok gw" "px_config p = cfg" "px_service p = gw_chatSvc gw"
    "px_gateway p = gw"
    using assms by (auto simp: main_start_def Let_def split: option.splits prod.splits go_result.splits)
  obtain eng initErr where i: "start_engine (pg_env pg) cfg = (eng, initErr)" by fastforce
  obtain pingErr w3 where ping: "rc_ping (mn_redis (pg_env pg)) w2 = (pingErr, w3)" by fastforce
  obtain cache st w4 where c: "build_cache (mn_redis (pg_env pg)) eng cfg w3 = ((cache, st), w4)" by (metis prod.collapse)
  obtain sem where "build_semantic eng cfg = Ok sem"
    using g(1) by (auto simp: build_gateway_def i ping go_bind_Ok_iff Let_def)
  then have svc: "gw_chatSvc gw = NewChatService (build_router cfg (build_registry (mn_http (pg_env pg)) cfg) sem)
      (NewCircuitBreakerManager (cc_failureThreshold (cf_breaker cfg)) (cc_cooldown (cf_breaker cfg))) cache
      (NewEngine (Some (fb_chains (cf_fallback cfg))) (fb_retryMax (cf_fallback cfg)) (fb_retryBackoff (cf_fallback cfg)) '''')
      (ProviderByName (build_registry (mn_http (pg_env pg)) cfg)) w4"
    using g(1) by (auto simp: build_gateway_def i ping c Let_def)
  have "case cache of None \<Rightarrow> True
      | Some k \<Rightarrow> within_capacity k \<and> ca_maxEntries k = capacity cfg"
    using c by (auto simp: capacity_def build_cache_def Let_def cache_config_def cache_New_def SetModels_def within_capacity_def split: prod.splits if_splits)
  then show ?thesis using that [of sem] svc g build_gateway_parts(1) [OF g(1)]
    by (simp add: NewChatService_def cache_bounded_def)
qed

text \<open>
  All that the running gateway does to its service are elementary changes: after any
  requests, answered or turned away, any changes of the configuration file and of the world,
  the state of the service is one that elementary changes lead to.
\<close>

lemma running_gateway_steps:
  assumes "outside_handler (mn_prometheus (pg_env pg))" and "outside_handler (mn_unmatched (pg_env pg))"
  shows "(service_step (mn_service (pg_env pg)))\<^sup>*\<^sup>* (px_service p) (px_service (main_run pg es p))"
  using elementary.process_inv [OF refl assms, of "px_service p" p es] by simp


lemma running_router:
  assumes "main_start pg w = Inr p" and "(service_step (mn_service (pg_env pg)))\<^sup>*\<^sup>* (px_service p) s"
  shows "router_ok (mn_http (pg_env pg)) (px_config p) (sv_router (px_service p)) s"
proof -
  obtain sem where "sv_router (px_service p) =
      build_router (px_config p) (build_registry (mn_http (pg_env pg)) (px_config p)) sem"
    using started [OF assms(1)] by metis
  then have "router_ok (mn_http (pg_env pg)) (px_config p) (sv_router (px_service p)) (px_service p)"
    by (simp add: router_ok_def build_router_uses_env)
  from routing.steps_inv [OF assms(2) this] show ?thesis .
qed

section \<open>Requests to a running gateway\<close>

text \<open>
  C1. The gateway routes as its configuration says: at any time while it runs, whatever other
  requests do, a request whose model contains a slash goes to the provider named before the first
  slash with the model named after it, whether the configuration knows that provider or not.
  Any other request goes to the first model that some provider serves, among those that the
  configured strategies propose, the default cascade and the requested model, in this order;
  the provider is configured and lists that model. If a strategy panics, so that what follows it
  is not tried, and nothing before it decides, the request panics. What happened before, failures
  and open circuits included, matters only to the choice among the providers of the model: no
  breaker is consulted.
\<close>

theorem running_gateway_routes:
  assumes "main_start pg w = Inr p" and "(service_step (mn_service (pg_env pg)))\<^sup>*\<^sup>* (px_service p) s"
    and "r0 = sv_router (px_service p)" and "router_Route req (sv_router s) = (d, r')"
  shows "if CHR ''/'' \<in> set (req_model req)
     then \<exists>name m. req_model req = name @ ''/'' @ m \<and> CHR ''/'' \<notin> set name \<and>
       d = Ok \<lparr>rd_provider = name, rd_model = m, rd_strategy = ''explicit''\<rparr>
     else case List.find (served r0) (tried_options req r0) of
       None \<Rightarrow> d = (if calm_strategies req r0 = rt_strategies r0
         then Err (new_error ErrCodeModelNotFound ''no route matched'') else Panic)
     | Some (strategy, m) \<Rightarrow> \<exists>name pc. (name, pc) \<in> set (cf_providers (px_config p)) \<and> m \<in> set (pr_models pc) \<and>
         d = Ok \<lparr>rd_provider = name, rd_model = m, rd_strategy = strategy\<rparr>"
proof (cases "CHR ''/'' \<in> set (req_model req)")
  case True
  then obtain name m where "req_model req = name @ CHR ''/'' # m" "CHR ''/'' \<notin> set name"
    using split_list_first by metis
  then show ?thesis using explicit_route [of name req m "sv_router s"] assms(4) by auto
next
  case False
  have "gateway.uses_env (mn_http (pg_env pg)) (px_config p) (sv_router s)" "same_setup r0 (sv_router s)"
    using running_router [OF assms(1,2)] by (simp_all add: router_ok_def assms(3))
  from gateway_route_tries [OF this False assms(4)] False show ?thesis by simp
qed

text \<open>
  C5. Whatever passes validation has a route: at any time while the gateway runs, for a body that
  its validation lets through and that the handler decodes, the router decides on a configured
  provider; the error of an unmatched route cannot occur. Models with a slash in their name are
  excluded.
\<close>

theorem running_gateway_has_route:
  assumes "main_start pg w = Inr p" and "(service_step (mn_service (pg_env pg)))\<^sup>*\<^sup>* (px_service p) s"
    and "validate (gw_models (px_gateway p)) (Some body) = None" and "ParseStandardRequest body = Inr req"
    and "plain_request (sv_router (px_service p)) req"
  shows "\<exists>dec. fst (router_Route req (sv_router s)) = Ok dec \<and> rd_provider dec \<in> fst ` set (cf_providers (px_config p))"
proof -
  obtain sem where r0: "sv_router (px_service p) =
      build_router (px_config p) (build_registry (mn_http (pg_env pg)) (px_config p)) sem"
    and m: "gw_models (px_gateway p) = collectAllModels (cf_providers (px_config p))"
    using started [OF assms(1)] by metis
  show ?thesis
    using running_router [OF assms(1,2)] assms(5) validated_served [OF assms(3) [unfolded m] assms(4) r0]
    by (intro served_route_env [where ?r0.0 = "sv_router (px_service p)"]) (auto simp: router_ok_def)
qed

text \<open>
  C7. No stream leaks its goroutine: at any time while the gateway runs, whatever a provider
  streams, the goroutine that forwards it can stop only after it has handed every chunk to the
  handler and closed its channel.
\<close>

theorem running_gateway_streams_complete:
  assumes "main_start pg w = Inr p" and "(service_step (mn_service (pg_env pg)))\<^sup>*\<^sup>* (px_service p) s"
    and "HandleChatCompletionStream svc req s = (Ok (dec, chunks), s')"
    and "fwd_step\<^sup>*\<^sup>* (fwd_start chunks) f" and "\<nexists>f'. fwd_step f f'"
  shows "fw_phase f = Finished \<and> fw_out f = chunks"
proof -
  obtain sem where "sv_providerLookup (px_service p) = ProviderByName (build_registry (mn_http (pg_env pg)) (px_config p))"
    using started [OF assms(1)] by metis
  then have "sv_providerLookup s = ProviderByName (build_registry (mn_http (pg_env pg)) (px_config p))"
    using wiring.steps_inv [OF assms(2), of "px_service p"] by (simp add: same_wiring_def)
  from gateway_stream_ends [OF this assms(3-5)] show ?thesis .
qed

section \<open>Reloading\<close>

fun is_reload :: "'w main_event \<Rightarrow> bool" where
  "is_reload FileChanged = True"
| "is_reload _ = False"

text \<open>
  C40. Reloading the configuration has no effect on the gateway: as long as reading the file
  does not change the world, a run with any changes of the file gives the same replies, the
  same state of the service and the same shutdown as the run without them.
\<close>

theorem reload_has_no_effect:
  fixes p :: "'w process"
  assumes "\<And>t path w. snd (vi_read (pg_viper pg) t path w) = w"
  shows "px_replies (main_run pg es p) = px_replies (main_run pg (filter (\<lambda>e. \<not> is_reload e) es) p) \<and>
    px_service (main_run pg es p) = px_service (main_run pg (filter (\<lambda>e. \<not> is_reload e) es) p) \<and>
    px_closed (main_run pg es p) = px_closed (main_run pg (filter (\<lambda>e. \<not> is_reload e) es) p)"
proof -
  define same :: "'w process \<Rightarrow> 'w process \<Rightarrow> bool" where
    "same q q' \<longleftrightarrow> (\<exists>snap n. q = q'\<lparr>px_snapshot := snap, px_reloads := n\<rparr>)" for q q'
  have refl: "same q q" for q unfolding same_def by (intro exI [of _ "px_snapshot q"] exI [of _ "px_reloads q"]) simp
  have world: "snd (snd (config_Load (pg_viper pg) ge path (c, w))) = w" for ge path c w
    using assms [of "Some ''yaml''" path w]
    by (auto simp: config_Load_def Let_def split: prod.split sum.split)
  have step: "same (main_step pg e q) (main_step pg e q')" if eq: "same q q'" and nr: "\<not> is_reload e" for e q q'
  proof -
    obtain snap n where "q = q'\<lparr>px_snapshot := snap, px_reloads := n\<rparr>" using eq unfolding same_def by blast
    then have "main_step pg e q = (main_step pg e q')\<lparr>px_snapshot := snap, px_reloads := n\<rparr>"
      using nr by (cases e) (simp_all add: close_clients_def split: prod.split)
    then show ?thesis unfolding same_def by blast
  qed
  have reload: "same (main_step pg FileChanged q) q'" if eq: "same q q'" for q q'
  proof -
    obtain snap0 n where q: "q = q'\<lparr>px_snapshot := snap0, px_reloads := n\<rparr>" using eq unfolding same_def by blast
    obtain res snap w where l: "config_Load (pg_viper pg) (pg_getenv pg) (config_path pg) (px_snapshot q, sv_world (px_service q)) = (res, snap, w)"
      by (metis prod.collapse)
    then have "w = sv_world (px_service q)" using world by (metis snd_conv)
    then have "main_step pg FileChanged q = (let b = px_running q' \<and> px_watched q' in
        q'\<lparr>px_snapshot := (if b then snap else snap0),
           px_reloads := (if b then (case res of Inl _ \<Rightarrow> n | Inr _ \<Rightarrow> n + 1) else n)\<rparr>)"
      using l unfolding q by (cases res) (auto simp: Let_def)
    then show ?thesis unfolding same_def Let_def by blast
  qed
  have "same (main_run pg es p) (main_run pg (filter (\<lambda>e. \<not> is_reload e) es) p)"
  proof (induction es rule: rev_induct)
    case (snoc e es)
    then show ?case using step [OF snoc, of e] reload [OF snoc]
      by (cases e) (simp_all add: main_run_def)
  qed (simp add: main_run_def refl)
  then show ?thesis by (auto simp: same_def)
qed

section \<open>An instance\<close>

text \<open>A file that can be read, a loader that finds the demo configuration in it, and clients that fail.\<close>

definition unit_viper :: "(unit, unit) Viper" where
  "unit_viper = \<lparr>vi_read = (\<lambda>type path w. (Inr (), w)), vi_keys = (\<lambda>v. []), vi_string = (\<lambda>v k. None), vi_set = (\<lambda>v k s. v),
     vi_unmarshal = (\<lambda>v. Inr demo_config), vi_stringMap = (\<lambda>v k. Map.empty)\<rparr>"

definition demo_program :: "(duration \<Rightarrow> unit HttpClient) \<Rightarrow> (unit, unit, unit) program" where
  "demo_program http = \<lparr>pg_zap = (\<lambda>_. None), pg_getenv = (\<lambda>_. ''''), pg_viper = unit_viper, pg_env = demo_env\<lparr>mn_http := http\<rparr>\<rparr>"

lemma demo_outside:
  "outside_handler (mn_prometheus (pg_env (demo_program http)))" "outside_handler (mn_unmatched (pg_env (demo_program http)))"
proof -
  have "ok_handler c s = (fst (ok_handler c s), s\<lparr>sv_world := sv_world s\<rparr>)" for c and s :: "unit Service"
    by (simp add: ok_handler_def)
  then have "\<exists>r w. ok_handler c s = (r, s\<lparr>sv_world := w\<rparr>)" for c and s :: "unit Service" by (intro exI)
  then have "outside_handler (ok_handler :: unit Service handler)" unfolding outside_handler_def by (intro allI)
  then show "outside_handler (mn_prometheus (pg_env (demo_program http)))" "outside_handler (mn_unmatched (pg_env (demo_program http)))"
    by (simp_all add: demo_program_def demo_env_def)
qed

lemma demo_loaded: "config_Load unit_viper ge path (c, w) = (Inr demo_config, Some demo_config, w)"
  by (simp add: config_Load_def unit_viper_def expand_keys_def demo_config_def Let_def)

lemma demo_gateway_at:
  "\<exists>gw. build_gateway (demo_env\<lparr>mn_http := http\<rparr>) demo_config () = Ok gw \<and>
     sv_router (gw_chatSvc gw) = build_router demo_config (build_registry http demo_config) None"
  by (simp add: build_gateway_def demo_env_def start_engine_def absent_engine build_semantic_def NewChatService_def Let_def
      split: prod.split)

lemma demo_started:
  "\<exists>p. main_start (demo_program http) () = Inr p \<and> px_config p = demo_config \<and>
     sv_router (px_service p) = build_router demo_config (build_registry http demo_config) None \<and>
     gw_models (px_gateway p) = [''m'', ''n''] \<and> px_running p \<and> px_watched p \<and> px_reloads p = 0"
proof -
  obtain gw where gw: "build_gateway (demo_env\<lparr>mn_http := http\<rparr>) demo_config () = Ok gw"
    "sv_router (gw_chatSvc gw) = build_router demo_config (build_registry http demo_config) None"
    using demo_gateway_at by blast
  have "vi_read unit_viper t path w = (Inr (), w)" for t path w by (simp add: unit_viper_def)
  then show ?thesis using gw build_gateway_parts(1) [OF gw(1)]
    by (simp add: main_start_def InitLogger_def demo_program_def demo_loaded demo_models)
qed

text \<open>A request for which the router was asked, and one whose outcome is recorded.\<close>

lemma demo_steps:
  "(service_step (mn_service (pg_env (demo_program http))))\<^sup>*\<^sup>* s
     (svc_RecordSuccess ''p'' ''m'' (s\<lparr>sv_router := snd (router_Route req (sv_router s))\<rparr>))"
  using route success by (rule converse_rtranclp_into_rtranclp [OF _ r_into_rtranclp])


theorem running_gateway_routes_witness:
  "\<exists>p. main_start (demo_program silent_http) () = Inr p \<and>
     fst (router_Route (demo_chat ''m'') (snd (router_Route (demo_chat ''n'') (sv_router (px_service p))))) =
       Ok \<lparr>rd_provider = ''p'', rd_model = ''m'', rd_strategy = ''default''\<rparr> \<and>
     fst (router_Route (demo_chat ''q/m'') (snd (router_Route (demo_chat ''n'') (sv_router (px_service p))))) =
       Ok \<lparr>rd_provider = ''q'', rd_model = ''m'', rd_strategy = ''explicit''\<rparr>"
proof -
  obtain p where p: "main_start (demo_program silent_http) () = Inr p" "px_config p = demo_config"
    "sv_router (px_service p) = demo_router" using demo_started unfolding demo_router_def by metis
  let ?s = "svc_RecordSuccess ''p'' ''m'' ((px_service p)\<lparr>sv_router := snd (router_Route (demo_chat ''n'') (sv_router (px_service p)))\<rparr>)"
  obtain d r' where d: "router_Route (demo_chat ''m'') (sv_router ?s) = (d, r')" by fastforce
  obtain d2 r2 where d2: "router_Route (demo_chat ''q/m'') (sv_router ?s) = (d2, r2)" by fastforce
  have plain: "plain_request demo_router (demo_chat ''m'')" by (simp add: demo_plain)
  then have calm: "tried_options (demo_chat ''m'') demo_router = [(''default'', ''m'')]"
    by (simp add: plain_request_def tried_all demo_options)
  have "d = Ok \<lparr>rd_provider = ''p'', rd_model = ''m'', rd_strategy = ''default''\<rparr>"
    using running_gateway_routes [OF p(1) demo_steps p(3) [symmetric] d] calm p(2)
    by (auto simp: demo_served demo_config_def demo_provider_def)
  moreover have "d2 = Ok \<lparr>rd_provider = ''q'', rd_model = ''m'', rd_strategy = ''explicit''\<rparr>"
    using running_gateway_routes [OF p(1) demo_steps p(3) [symmetric] d2] by (auto simp: append_eq_Cons_conv Cons_eq_append_conv)
  ultimately show ?thesis using d d2 p by (auto simp: svc_RecordSuccess_def)
qed

theorem running_gateway_has_route_witness:
  "\<exists>req p dec. ParseStandardRequest demo_body = Inr req \<and> main_start (demo_program silent_http) () = Inr p \<and>
     fst (router_Route req (sv_router (px_service p))) = Ok dec \<and> rd_provider dec \<in> {''p'', ''q''}"
proof -
  obtain p where p: "main_start (demo_program silent_http) () = Inr p" "px_config p = demo_config"
    "sv_router (px_service p) = demo_router" "gw_models (px_gateway p) = [''m'', ''n'']"
    using demo_started unfolding demo_router_def by metis
  let ?req = "zero_request\<lparr>req_model := ''m'', req_messages := [\<lparr>msg_role = ''user'', msg_content = ''hi''\<rparr>], req_maxTokens := Some 5\<rparr>"
  have "\<exists>dec. fst (router_Route ?req (sv_router (px_service p))) = Ok dec \<and>
      rd_provider dec \<in> fst ` set (cf_providers (px_config p))"
    by (rule running_gateway_has_route [OF p(1) rtranclp.rtrancl_refl _ demo_body_decodes(2)])
      (simp_all add: p demo_body_valid demo_plain)
  then show ?thesis using demo_body_decodes(2) p by (auto simp: demo_config_def)
qed

theorem running_gateway_streams_complete_witness:
  "\<exists>p dec chunks s' f. main_start (demo_program empty_http) () = Inr p \<and>
     HandleChatCompletionStream demo_senv (demo_chat ''p/m'') (px_service p) = (Ok (dec, chunks), s') \<and>
     fwd_step\<^sup>*\<^sup>* (fwd_start chunks) f \<and> fw_phase f = Finished \<and> fw_out f = chunks"
proof -
  obtain p where p: "main_start (demo_program empty_http) () = Inr p" "px_config p = demo_config" using demo_started by blast
  obtain sem where st:
    "sv_providerLookup (px_service p) = ProviderByName (build_registry (mn_http (pg_env (demo_program empty_http))) (px_config p))"
    "sv_cbManager (px_service p) = NewCircuitBreakerManager (cc_failureThreshold (cf_breaker (px_config p)))
       (cc_cooldown (cf_breaker (px_config p)))"
    using started [OF p(1)] by metis
  then have look: "sv_providerLookup (px_service p) = ProviderByName (build_registry empty_http demo_config)"
    and mgr: "sv_cbManager (px_service p) = NewCircuitBreakerManager 1 1"
    unfolding p(2) by (simp_all add: demo_program_def demo_config_def)
  obtain body where b: "oa_buildRequestBody ((demo_chat ''p/m'')\<lparr>req_stream := True\<rparr>) = Inr body"
    using demo_stream_body by (metis sum.exhaust)
  have allow: "\<exists>s1. svc_Allow demo_senv ''p'' ''m'' s = (True, s1) \<and> sv_providerLookup s1 = sv_providerLookup s"
    if "sv_cbManager s = NewCircuitBreakerManager 1 1" for s :: "unit Service"
    using cbm_views(2) [of demo_senv "''p''" "''m''" s] that svc_Allow_frame [of demo_senv "''p''" "''m''" s]
    by (cases "svc_Allow demo_senv ''p'' ''m'' s")
      (auto simp: cbm_view_code NewCircuitBreakerManager_def map_get_def cb_Allow_def NewCircuitBreaker_def same_frame_def same_wiring_def)
  have "\<exists>s'. HandleChatCompletionStream demo_senv (demo_chat ''p/m'') (px_service p) =
      (Ok (\<lparr>rd_provider = ''p'', rd_model = ''m'', rd_strategy = ''explicit''\<rparr>, []), s')"
    using allow [OF mgr] b look
    by (auto simp: HandleChatCompletionStream_def demo_stream_route Let_def demo_lookup
        openai_provider_def NewOpenAICompatible_def oa_SendStream_def streamOpenAI_def http_send_def
        empty_http_def silent_http_def oa_stream_request_def scan_body_def)
  then obtain s' where s': "HandleChatCompletionStream demo_senv (demo_chat ''p/m'') (px_service p) =
      (Ok (\<lparr>rd_provider = ''p'', rd_model = ''m'', rd_strategy = ''explicit''\<rparr>, []), s')" by blast
  obtain f where f: "fwd_step\<^sup>*\<^sup>* (fwd_start []) f" "\<nexists>f'. fwd_step f f'"
    using forward_run [of "[]" False "[]" "[]" True demo_senv "''p''" "''m''" demo_service] by (auto simp: fwd_start_def)
  from running_gateway_streams_complete [OF p(1) rtranclp.rtrancl_refl s' f] s' f(1) p(1) show ?thesis by blast
qed

theorem reload_has_no_effect_witness:
  "\<exists>p. main_start (demo_program silent_http) () = Inr p \<and>
     px_reloads (main_run (demo_program silent_http) [FileChanged, Interrupt] p) = 1 \<and>
     px_closed (main_run (demo_program silent_http) [FileChanged, Interrupt] p) =
       px_closed (main_run (demo_program silent_http) [Interrupt] p)"
proof -
  obtain p where p: "main_start (demo_program silent_http) () = Inr p" "px_running p" "px_watched p" "px_reloads p = 0"
    using demo_started by blast
  then have "px_reloads (main_run (demo_program silent_http) [FileChanged, Interrupt] p) = 1"
    by (simp add: main_run_def demo_program_def demo_loaded Let_def)
  moreover have "snd (vi_read (pg_viper (demo_program silent_http)) t path w) = w" for t path w
    by (simp add: demo_program_def unit_viper_def)
  from reload_has_no_effect [OF this, of "[FileChanged, Interrupt]" p]
  have "px_closed (main_run (demo_program silent_http) [FileChanged, Interrupt] p) =
      px_closed (main_run (demo_program silent_http) [Interrupt] p)" by simp
  ultimately show ?thesis using p by blast
qed

end
