(* ===== verification/Cache_Slices.thy ===== *)
theory Cache_Slices
  imports Semantic_Cache
begin

text \<open>
  The entries of the semantic cache as Go keeps them: slices over arrays that are shared with the
  lookups still running. A lookup of \<^verbatim>\<open>internal/cache/semantic.go\<close> takes the slice under the lock and
  scans it without, so it is a sequence of steps here, between which other goroutines may store
  and remove entries in the same arrays. A section that holds the lock is one step, and so is one
  read of an entry, which Go does not promise for a data race. When nothing comes between, the
  steps do what the operations of \<open>Semantic_Cache\<close> do.
\<close>

section \<open>Slices over arrays\<close>

text \<open>
  The arrays that \<^verbatim>\<open>append\<close> has allocated for one model, the last one being that of the slice
  \<^verbatim>\<open>c.entries[model]\<close>, and the length of this slice; all slices of the program start at index 0.
  A model without entries has the nil slice, over an array without cells.
\<close>

record Slices =
  en_arrays :: "CacheEntry list list"
  en_len :: nat

definition nil_slice :: Slices where
  "nil_slice = \<lparr>en_arrays = [[]], en_len = 0\<rparr>"

definition array_id :: "Slices \<Rightarrow> nat" where
  "array_id s = length (en_arrays s) - 1"

definition cell :: "nat \<Rightarrow> nat \<Rightarrow> Slices \<Rightarrow> CacheEntry" where
  "cell k i s = en_arrays s ! k ! i"

definition slice :: "Slices \<Rightarrow> CacheEntry list" where
  "slice s = take (en_len s) (en_arrays s ! array_id s)"

definition slices_ok :: "Slices \<Rightarrow> bool" where
  "slices_ok s \<longleftrightarrow> 0 < length (en_arrays s) \<and> en_len s \<le> length (en_arrays s ! array_id s)"

definition set_cell :: "nat \<Rightarrow> nat \<Rightarrow> CacheEntry \<Rightarrow> Slices \<Rightarrow> Slices" where
  "set_cell k i e s = s\<lparr>en_arrays := (en_arrays s)[k := (en_arrays s ! k)[i := e]]\<rparr>"

text \<open>\<^verbatim>\<open>entries[i] = entries[j]\<close>, and shortening a slice.\<close>

definition move_cell :: "nat \<Rightarrow> nat \<Rightarrow> Slices \<Rightarrow> Slices" where
  "move_cell i j s = set_cell (array_id s) i (cell (array_id s) j s) s"

definition shorten :: "nat \<Rightarrow> Slices \<Rightarrow> Slices" where
  "shorten n s = s\<lparr>en_len := n\<rparr>"

text \<open>
  \<^verbatim>\<open>append\<close>: into the spare cells of the array, or into a new array, for which the runtime chooses a
  size that suffices, here \<open>grow n\<close> or \<open>n\<close>; the cells behind the slice are zero values.
\<close>

definition zero_entry :: CacheEntry where
  "zero_entry = \<lparr>ce_model = '''', ce_key = '''', ce_vector = [], ce_json = '''', ce_storedAt = 0, ce_lastAccess = 0\<rparr>"

definition go_append :: "(nat \<Rightarrow> nat) \<Rightarrow> CacheEntry \<Rightarrow> Slices \<Rightarrow> Slices" where
  "go_append grow e s =
     (let n = en_len s + 1
      in if en_len s < length (en_arrays s ! array_id s) then shorten n (set_cell (array_id s) (en_len s) e s)
         else \<lparr>en_arrays = en_arrays s @ [slice s @ e # replicate (grow n - n) zero_entry], en_len = n\<rparr>)"

section \<open>The sections that hold the lock\<close>

fun sl_removeExpired :: "nat list \<Rightarrow> Slices \<Rightarrow> Slices" where
  "sl_removeExpired [] s = s"
| "sl_removeExpired (idx # is) s =
     (if idx \<ge> en_len s then sl_removeExpired is s
      else sl_removeExpired is (shorten (en_len s - 1) (move_cell idx (en_len s - 1) s)))"

definition sl_evictOne :: "Slices \<Rightarrow> Slices" where
  "sl_evictOne s =
     (if en_len s = 0 then s
      else let oldest = oldest_from (tl (slice s)) 1 0 (hd (slice s))
           in shorten (en_len s - 1) (move_cell oldest (en_len s - 1) s))"

text \<open>The loop of \<^verbatim>\<open>compactExpired\<close>: \<open>n\<close> entries from index \<open>i\<close> on, of which \<open>keep\<close> were kept so far.\<close>

fun compact_loop :: "duration \<Rightarrow> instant \<Rightarrow> nat \<Rightarrow> nat \<Rightarrow> nat \<Rightarrow> Slices \<Rightarrow> nat \<times> Slices" where
  "compact_loop ttl now 0 i keep s = (keep, s)"
| "compact_loop ttl now (Suc n) i keep s =
     (if time_sub now (ce_storedAt (cell (array_id s) i s)) \<le> ttl
      then compact_loop ttl now n (Suc i) (Suc keep) (move_cell keep i s)
      else compact_loop ttl now n (Suc i) keep s)"

definition sl_compactExpired :: "duration \<Rightarrow> instant \<Rightarrow> Slices \<Rightarrow> Slices" where
  "sl_compactExpired ttl now s = (let (keep, s) = compact_loop ttl now (en_len s) 0 0 s in shorten keep s)"

definition sl_add :: "(nat \<Rightarrow> nat) \<Rightarrow> int \<Rightarrow> duration \<Rightarrow> instant \<Rightarrow> CacheEntry \<Rightarrow> Slices \<Rightarrow> Slices" where
  "sl_add grow maxEntries ttl t3 entry s =
     (let s = go_append grow entry s;
          s = (if int (en_len s) > maxEntries then sl_evictOne s else s)
      in if int (en_len s) > maxEntries * 3 div 2 then sl_compactExpired ttl t3 s else s)"

section \<open>What the slices hold\<close>

lemma set_cell_simps [simp]:
  "en_len (set_cell k i e s) = en_len s" "array_id (set_cell k i e s) = array_id s"
  "length (en_arrays (set_cell k i e s)) = length (en_arrays s)"
  "length (en_arrays (set_cell k i e s) ! k') = length (en_arrays s ! k')"
  by (simp_all add: set_cell_def array_id_def)
    (cases "k < length (en_arrays s)"; cases "k = k'"; simp add: list_update_beyond)

lemma move_cell_simps [simp]:
  "en_len (move_cell i j s) = en_len s" "array_id (move_cell i j s) = array_id s"
  "length (en_arrays (move_cell i j s)) = length (en_arrays s)"
  "length (en_arrays (move_cell i j s) ! k) = length (en_arrays s ! k)"
  by (simp_all add: move_cell_def)

lemma shorten_simps [simp]:
  "en_len (shorten n s) = n" "array_id (shorten n s) = array_id s" "en_arrays (shorten n s) = en_arrays s"
  "cell k i (shorten n s) = cell k i s"
  by (simp_all add: shorten_def array_id_def cell_def)

lemma slices_ok_move [simp]: "slices_ok (move_cell i j s) = slices_ok s"
  by (simp add: slices_ok_def del: length_greater_0_conv)

lemma slices_ok_set [simp]: "slices_ok (set_cell k i e s) = slices_ok s"
  by (simp add: slices_ok_def del: length_greater_0_conv)

lemma slices_ok_shorten: "slices_ok s \<Longrightarrow> n \<le> en_len s \<Longrightarrow> slices_ok (shorten n s)"
  by (simp add: slices_ok_def)

lemma array_id_less: "slices_ok s \<Longrightarrow> array_id s < length (en_arrays s)"
  by (simp add: slices_ok_def array_id_def)

lemma slice_length: "slices_ok s \<Longrightarrow> length (slice s) = en_len s"
  by (simp add: slices_ok_def slice_def)

lemma cell_slice: "i < en_len s \<Longrightarrow> cell (array_id s) i s = slice s ! i"
  by (simp add: cell_def slice_def)

lemma cell_set_cell:
  assumes "k < length (en_arrays s)" and "i < length (en_arrays s ! k)"
  shows "cell k' i' (set_cell k i e s) = (if k' = k \<and> i' = i then e else cell k' i' s)"
  using assms by (auto simp: cell_def set_cell_def nth_list_update)

lemma slice_set_cell:
  assumes "slices_ok s"
  shows "slice (set_cell k i e s) = (if k = array_id s then (slice s)[i := e] else slice s)"
  using array_id_less [OF assms] by (simp add: slice_def set_cell_def array_id_def take_update_swap)

lemma slice_move:
  assumes "slices_ok s" and "j < en_len s"
  shows "slice (move_cell i j s) = (slice s)[i := slice s ! j]"
  using slice_set_cell [OF assms(1)] by (simp add: move_cell_def cell_slice [OF assms(2)])

lemma slice_shorten: "n \<le> en_len s \<Longrightarrow> slice (shorten n s) = take n (slice s)"
  by (simp add: slice_def)

lemma nil_slice_facts: "slices_ok nil_slice" "slice nil_slice = []"
  by (simp_all add: slices_ok_def nil_slice_def slice_def array_id_def)

lemma removeExpired_frame:
  "array_id (sl_removeExpired is s) = array_id s" "length (en_arrays (sl_removeExpired is s)) = length (en_arrays s)"
  "length (en_arrays (sl_removeExpired is s) ! k) = length (en_arrays s ! k)"
  by (induction "is" s rule: sl_removeExpired.induct) simp_all

text \<open>Every locked section does to the slice what its operation does to the list of entries.\<close>

lemma go_append_refines:
  assumes "slices_ok s"
  shows "slices_ok (go_append grow e s) \<and> slice (go_append grow e s) = slice s @ [e]"
proof (cases "en_len s < length (en_arrays s ! array_id s)")
  case True
  then have "slice (shorten (en_len s + 1) (set_cell (array_id s) (en_len s) e s)) = slice s @ [e]"
    using array_id_less [OF assms]
    by (simp add: slice_def set_cell_def array_id_def take_Suc_conv_app_nth take_update_swap list_update_append)
  then show ?thesis using True assms by (simp add: go_append_def slices_ok_def del: length_greater_0_conv)
next
  case False
  then show ?thesis using slice_length [OF assms]
    by (simp add: go_append_def slices_ok_def slice_def [of "\<lparr>en_arrays = _, en_len = _\<rparr>"] array_id_def nth_append)
qed

lemma drop_last_refines:
  assumes "slices_ok s" and "0 < en_len s"
  shows "slices_ok (shorten (en_len s - 1) (move_cell i (en_len s - 1) s)) \<and>
    slice (shorten (en_len s - 1) (move_cell i (en_len s - 1) s)) =
      take (length (slice s) - 1) ((slice s)[i := slice s ! (length (slice s) - 1)])"
  using assms slices_ok_shorten [of "move_cell i (en_len s - 1) s" "en_len s - 1"]
    slice_shorten [of "en_len s - 1" "move_cell i (en_len s - 1) s"]
  by (simp add: slice_move slice_length)

lemma removeExpired_refines:
  "slices_ok s \<Longrightarrow> slices_ok (sl_removeExpired is s) \<and> slice (sl_removeExpired is s) = remove_indices is (slice s)"
proof (induction "is" s rule: sl_removeExpired.induct)
  case (2 idx "is" s)
  show ?case
  proof (cases "idx \<ge> en_len s")
    case False
    then have "0 < en_len s" by simp
    from 2(2) [OF False] drop_last_refines [OF 2(3) this, of idx] show ?thesis
      using False slice_length [OF 2(3)] by simp
  qed (use 2 in \<open>simp add: slice_length\<close>)
qed simp

lemma evictOne_refines:
  assumes "slices_ok s"
  shows "slices_ok (sl_evictOne s) \<and> slice (sl_evictOne s) = evictOne (slice s)"
  using drop_last_refines [OF assms] assms slice_length [OF assms]
  by (auto simp: sl_evictOne_def evictOne_def Let_def)

lemma compact_loop_refines:
  assumes "compact_loop ttl now n i keep s = (keep', s')" and "slices_ok s" and "keep \<le> i" and "i + n = en_len s"
  shows "slices_ok s' \<and> en_len s' = en_len s \<and> keep' \<le> en_len s \<and>
    take keep' (slice s') = take keep (slice s) @ compactExpired ttl now (drop i (slice s))"
  using assms
proof (induction ttl now n i keep s rule: compact_loop.induct)
  case (1 ttl now i keep s)
  then show ?case by (simp add: compactExpired_def slice_length)
next
  case (2 ttl now n i keep s)
  have i: "i < en_len s" "i < length (slice s)" using 2(5,6) slice_length [OF 2(4)] by simp_all
  have dr: "drop i (slice s) = slice s ! i # drop (Suc i) (slice s)" using i(2) by (simp add: Cons_nth_drop_Suc)
  show ?case
  proof (cases "time_sub now (ce_storedAt (cell (array_id s) i s)) \<le> ttl")
    case True
    then have "compact_loop ttl now n (Suc i) (Suc keep) (move_cell keep i s) = (keep', s')" using 2(3) by simp
    from 2(1) [OF True this] 2(4-6) have IH: "slices_ok s' \<and> en_len s' = en_len s \<and> keep' \<le> en_len s \<and>
        take keep' (slice s') = take (Suc keep) ((slice s)[keep := slice s ! i]) @
          compactExpired ttl now (drop (Suc i) ((slice s)[keep := slice s ! i]))"
      using slice_move [OF 2(4) i(1), of keep] by simp
    have "take (Suc keep) ((slice s)[keep := slice s ! i]) = take keep (slice s) @ [slice s ! i]"
      using i(2) 2(5) by (simp add: take_Suc_conv_app_nth)
    moreover have "drop (Suc i) ((slice s)[keep := slice s ! i]) = drop (Suc i) (slice s)"
      using 2(5) by simp
    ultimately show ?thesis using IH True dr i(1) by (simp add: compactExpired_def cell_slice)
  next
    case False
    then have "compact_loop ttl now n (Suc i) keep s = (keep', s')" using 2(3) by simp
    from 2(2) [OF False this] 2(4-6) show ?thesis
      using False dr i(1) by (simp add: compactExpired_def cell_slice)
  qed
qed

lemma compactExpired_refines:
  assumes "slices_ok s"
  shows "slices_ok (sl_compactExpired ttl now s) \<and> slice (sl_compactExpired ttl now s) = compactExpired ttl now (slice s)"
proof -
  obtain keep s' where c: "compact_loop ttl now (en_len s) 0 0 s = (keep, s')" by fastforce
  from compact_loop_refines [OF c assms] show ?thesis
    using slices_ok_shorten [of s' keep] slice_shorten [of keep s'] by (simp add: sl_compactExpired_def c)
qed

text \<open>What adding an entry does to the list of entries, as in \<open>add_entry\<close>.\<close>

definition entries_add :: "int \<Rightarrow> duration \<Rightarrow> instant \<Rightarrow> CacheEntry \<Rightarrow> CacheEntry list \<Rightarrow> CacheEntry list" where
  "entries_add maxEntries ttl t3 e es =
     (let es = es @ [e];
          es = (if int (length es) > maxEntries then evictOne es else es)
      in if int (length es) > maxEntries * 3 div 2 then compactExpired ttl t3 es else es)"

lemma entries_add_entry:
  "ca_entries (add_entry t3 e c) (ce_model e) = entries_add (ca_maxEntries c) (ca_ttl c) t3 e (ca_entries c (ce_model e))"
  by (simp add: add_entry_def entries_add_def Let_def)

lemma add_refines:
  assumes "slices_ok s"
  shows "slices_ok (sl_add grow maxEntries ttl t3 e s) \<and> slice (sl_add grow maxEntries ttl t3 e s) = entries_add maxEntries ttl t3 e (slice s)"
proof -
  note a = go_append_refines [OF assms, of grow e]
  define s1 where "s1 = (if int (en_len (go_append grow e s)) > maxEntries then sl_evictOne (go_append grow e s)
    else go_append grow e s)"
  have s1: "slices_ok s1" "slice s1 = (if int (length (slice s @ [e])) > maxEntries then evictOne (slice s @ [e]) else slice s @ [e])"
    using a evictOne_refines [of "go_append grow e s"] slice_length [of "go_append grow e s"] by (auto simp: s1_def)
  have "sl_add grow maxEntries ttl t3 e s = (if int (en_len s1) > maxEntries * 3 div 2 then sl_compactExpired ttl t3 s1 else s1)"
    by (simp only: sl_add_def Let_def s1_def)
  moreover have "entries_add maxEntries ttl t3 e (slice s) =
      (if int (length (slice s1)) > maxEntries * 3 div 2 then compactExpired ttl t3 (slice s1) else slice s1)"
    by (simp only: entries_add_def Let_def s1(2) [symmetric])
  ultimately show ?thesis
    using compactExpired_refines [OF s1(1), of ttl t3] s1(1) slice_length [OF s1(1)]
    by (simp only: if_True if_False simp_thms split: if_splits)
qed

subsection \<open>The interface to the entries\<close>

text \<open>
  What the operations of the cache need of the entries of a model, however they are kept: adding
  an entry and removing indices do to them what they do to the list of the entries held.
\<close>

datatype entries_call = Put instant CacheEntry | Purge "nat list"

fun do_call :: "(instant \<Rightarrow> CacheEntry \<Rightarrow> 's \<Rightarrow> 's) \<Rightarrow> (nat list \<Rightarrow> 's \<Rightarrow> 's) \<Rightarrow> entries_call \<Rightarrow> 's \<Rightarrow> 's" where
  "do_call add purge (Put t e) s = add t e s"
| "do_call add purge (Purge is) s = purge is s"

locale entry_store =
  fixes ok :: "'s \<Rightarrow> bool" and held :: "'s \<Rightarrow> CacheEntry list" and none :: 's
    and add :: "instant \<Rightarrow> CacheEntry \<Rightarrow> 's \<Rightarrow> 's" and purge :: "nat list \<Rightarrow> 's \<Rightarrow> 's"
    and maxEntries :: int and ttl :: duration
  assumes none: "ok none" "held none = []"
    and add: "ok s \<Longrightarrow> ok (add t e s)" "ok s \<Longrightarrow> held (add t e s) = entries_add maxEntries ttl t e (held s)"
    and purge: "ok s \<Longrightarrow> ok (purge is s)" "ok s \<Longrightarrow> held (purge is s) = remove_indices is (held s)"
begin

lemma run_held:
  "ok s \<Longrightarrow> ok (fold (do_call add purge) cs s) \<and>
     held (fold (do_call add purge) cs s) = fold (do_call (entries_add maxEntries ttl) remove_indices) cs (held s)"
proof (induction cs arbitrary: s)
  case (Cons c cs)
  have "ok (do_call add purge c s)"
    "held (do_call add purge c s) = do_call (entries_add maxEntries ttl) remove_indices c (held s)"
    using add [OF Cons.prems] purge [OF Cons.prems] by (cases c; simp)+
  then show ?case using Cons.IH by simp
qed simp

text \<open>Two ways to keep the entries that went through the same calls hold the same.\<close>

lemma held_determined:
  assumes "entry_store ok' held' none' add' purge' maxEntries ttl"
  shows "held (fold (do_call add purge) cs none) = held' (fold (do_call add' purge') cs none')"
  using run_held [OF none(1)] entry_store.run_held [OF assms entry_store.none(1) [OF assms]] none(2) entry_store.none(2) [OF assms]
  by simp

end

interpretation entry_lists: entry_store "\<lambda>_. True" id "[]" "entries_add maxEntries ttl" remove_indices maxEntries ttl
  for maxEntries ttl
  by unfold_locales simp_all

interpretation entry_slices: entry_store slices_ok slice nil_slice "sl_add grow maxEntries ttl" sl_removeExpired maxEntries ttl
  for grow maxEntries ttl
  by unfold_locales (simp_all add: nil_slice_facts add_refines removeExpired_refines)

text \<open>However \<^verbatim>\<open>append\<close> grows its arrays, the slice holds what the list of entries would.\<close>

lemma slices_hold_entries:
  "slice (fold (do_call (sl_add grow maxEntries ttl) sl_removeExpired) cs nil_slice) =
   fold (do_call (entries_add maxEntries ttl) remove_indices) cs []"
  using entry_slices.run_held [OF nil_slice_facts(1)] by (simp add: nil_slice_facts)

section \<open>A lookup, step by step\<close>

text \<open>
  Where a lookup stands: it takes the slice and the time; scans an entry at a time with the best
  index, the best score and the expired indices so far; removes the expired entries; notes the
  access; and reads the response from the cell that the pointer to the best entry leads to.
\<close>

datatype lookup_pc =
    Begin
  | Scan nat "nat option" f64 "nat list"
  | Sweep "nat option" "nat list"
  | Touch nat
  | Answer nat
  | Finished "StandardResponse option \<times> metric list"

record lookup =
  lk_model :: string
  lk_vec :: "f64 list"
  lk_array :: nat
  lk_len :: nat
  lk_now :: instant
  lk_pc :: lookup_pc

definition lookup_begin :: "string \<Rightarrow> f64 list \<Rightarrow> lookup" where
  "lookup_begin m vec = \<lparr>lk_model = m, lk_vec = vec, lk_array = 0, lk_len = 0, lk_now = 0, lk_pc = Begin\<rparr>"

definition hit_answer :: "string \<Rightarrow> string \<Rightarrow> StandardResponse option \<times> metric list" where
  "hit_answer m json = (case unmarshal_response json of Inl _ \<Rightarrow> None | Inr resp \<Rightarrow> Some (resp\<lparr>rs_cacheHit := True\<rparr>),
     [CacheHitTotal m ''semantic''])"

definition lookup_step :: "duration \<Rightarrow> f64 \<Rightarrow> instant \<Rightarrow> lookup \<times> Slices \<Rightarrow> lookup \<times> Slices" where
  "lookup_step ttl threshold clock = (\<lambda>(lk, s). let k = lk_array lk in
     case lk_pc lk of
       Begin \<Rightarrow> (lk\<lparr>lk_array := array_id s, lk_len := en_len s, lk_now := clock, lk_pc := Scan 0 None threshold []\<rparr>, s)
     | Scan i best bestScore expired \<Rightarrow>
         if i \<ge> lk_len lk then (lk\<lparr>lk_pc := Sweep best expired\<rparr>, s)
         else let e = cell k i s; score = CosineSimilarity (lk_vec lk) (ce_vector e)
              in (lk\<lparr>lk_pc :=
                    (if entry_expired ttl (lk_now lk) e then Scan (Suc i) best bestScore (expired @ [i])
                     else if fle bestScore score then Scan (Suc i) (Some i) score expired
                     else Scan (Suc i) best bestScore expired)\<rparr>, s)
     | Sweep best expired \<Rightarrow>
         (lk\<lparr>lk_pc := (case best of None \<Rightarrow> Finished (None, []) | Some b \<Rightarrow> Touch b)\<rparr>,
          if length expired > 0 then sl_removeExpired (rev expired) s else s)
     | Touch b \<Rightarrow> (lk\<lparr>lk_pc := Answer b\<rparr>, set_cell k b ((cell k b s)\<lparr>ce_lastAccess := lk_now lk\<rparr>) s)
     | Answer b \<Rightarrow> (lk\<lparr>lk_pc := Finished (hit_answer (lk_model lk) (ce_json (cell k b s)))\<rparr>, s)
     | Finished r \<Rightarrow> (lk, s))"

lemma lookup_step_pc [simp]:
  "lookup_step ttl thr now (lk\<lparr>lk_pc := Sweep best ex\<rparr>, s) =
     (lk\<lparr>lk_pc := (case best of None \<Rightarrow> Finished (None, []) | Some b \<Rightarrow> Touch b)\<rparr>,
      if ex = [] then s else sl_removeExpired (rev ex) s)"
  "lookup_step ttl thr now (lk\<lparr>lk_pc := Touch b\<rparr>, s) =
     (lk\<lparr>lk_pc := Answer b\<rparr>, set_cell (lk_array lk) b ((cell (lk_array lk) b s)\<lparr>ce_lastAccess := lk_now lk\<rparr>) s)"
  "lookup_step ttl thr now (lk\<lparr>lk_pc := Answer b\<rparr>, s) =
     (lk\<lparr>lk_pc := Finished (hit_answer (lk_model lk) (ce_json (cell (lk_array lk) b s)))\<rparr>, s)"
  "lookup_step ttl thr now (lk\<lparr>lk_pc := Finished r\<rparr>, s) = (lk\<lparr>lk_pc := Finished r\<rparr>, s)"
  by (simp_all add: lookup_step_def Let_def)

subsection \<open>A lookup that nothing interrupts\<close>

lemma lookup_scan_runs:
  assumes "lk_len lk \<le> length (en_arrays s ! lk_array lk)" and "i \<le> lk_len lk"
    and "lookup_scan ttl (lk_now lk) (lk_vec lk) (drop i (take (lk_len lk) (en_arrays s ! lk_array lk))) i best bs ex = (b, ex')"
  shows "(lookup_step ttl thr now ^^ Suc (lk_len lk - i)) (lk\<lparr>lk_pc := Scan i best bs ex\<rparr>, s) = (lk\<lparr>lk_pc := Sweep b ex'\<rparr>, s)"
  using assms(2,3)
proof (induction "lk_len lk - i" arbitrary: i best bs ex)
  case 0
  then show ?case by (simp add: lookup_step_def)
next
  case (Suc d)
  let ?es = "take (lk_len lk) (en_arrays s ! lk_array lk)" and ?e = "cell (lk_array lk) i s"
  have i: "i < lk_len lk" and d: "d = lk_len lk - Suc i" using Suc.hyps(2) by simp_all
  then have dr: "drop i ?es = ?e # drop (Suc i) ?es"
    using assms(1) by (simp add: Cons_nth_drop_Suc [symmetric] cell_def)
  define pc where "pc = (if entry_expired ttl (lk_now lk) ?e then (best, bs, ex @ [i])
    else if fle bs (CosineSimilarity (lk_vec lk) (ce_vector ?e)) then (Some i, CosineSimilarity (lk_vec lk) (ce_vector ?e), ex)
    else (best, bs, ex))"
  obtain best' bs' ex1 where pc: "pc = (best', bs', ex1)" by (metis prod_cases3)
  have step: "lookup_step ttl thr now (lk\<lparr>lk_pc := Scan i best bs ex\<rparr>, s) = (lk\<lparr>lk_pc := Scan (Suc i) best' bs' ex1\<rparr>, s)"
    using i pc by (auto simp: lookup_step_def pc_def Let_def split: if_splits)
  have "lookup_scan ttl (lk_now lk) (lk_vec lk) (drop (Suc i) ?es) (Suc i) best' bs' ex1 = (b, ex')"
    using Suc.prems(2) pc unfolding dr by (auto simp: pc_def Let_def split: if_splits)
  from Suc.hyps(1) [OF d _ this] i have
    "(lookup_step ttl thr now ^^ Suc (lk_len lk - Suc i)) (lk\<lparr>lk_pc := Scan (Suc i) best' bs' ex1\<rparr>, s) =
      (lk\<lparr>lk_pc := Sweep b ex'\<rparr>, s)" by simp
  moreover have "lk_len lk - i = Suc (lk_len lk - Suc i)" using i by simp
  ultimately show ?case using step by (simp only: funpow_Suc_right o_apply)
qed

lemma cell_removeExpired:
  assumes "slices_ok s" and "k \<noteq> array_id s \<or> b \<notin> set is"
  shows "cell k b (sl_removeExpired is s) = cell k b s"
  using assms
proof (induction "is" s rule: sl_removeExpired.induct)
  case (2 idx "is" s)
  show ?case
  proof (cases "idx \<ge> en_len s")
    case False
    let ?s = "shorten (en_len s - 1) (move_cell idx (en_len s - 1) s)"
    have "idx < length (en_arrays s ! array_id s)" using False 2(3) by (simp add: slices_ok_def)
    then have "cell k b ?s = cell k b s"
      using 2(4) array_id_less [OF 2(3)] by (auto simp: move_cell_def cell_set_cell)
    moreover have "slices_ok ?s" using 2(3) by (simp add: slices_ok_shorten)
    ultimately show ?thesis using 2(2) [OF False] 2(4) False by simp
  qed (use 2 in simp)
qed simp

text \<open>The steps after the scan: the sweep, the access time and the answer.\<close>

lemma lookup_tail:
  assumes "slices_ok s" and k: "lk_array lk = array_id s"
    and best: "\<forall>b. best = Some b \<longrightarrow> b < en_len s \<and> b \<notin> set ex"
  shows "\<exists>s'. (lookup_step ttl thr now ^^ 3) (lk\<lparr>lk_pc := Sweep best ex\<rparr>, s) =
      (lk\<lparr>lk_pc := Finished (case best of None \<Rightarrow> (None, []) | Some b \<Rightarrow> hit_answer (lk_model lk) (ce_json (slice s ! b)))\<rparr>, s') \<and>
    slices_ok s' \<and> slice s' = (let kept = if length ex > 0 then remove_indices (rev ex) (slice s) else slice s
      in case best of None \<Rightarrow> kept | Some b \<Rightarrow> kept[b := (kept ! b)\<lparr>ce_lastAccess := lk_now lk\<rparr>])"
proof -
  define s1 where "s1 = (if length ex > 0 then sl_removeExpired (rev ex) s else s)"
  have ok: "slices_ok s1" and sl: "slice s1 = (if length ex > 0 then remove_indices (rev ex) (slice s) else slice s)"
    using removeExpired_refines [OF assms(1)] assms(1) by (auto simp: s1_def)
  have id: "array_id s1 = array_id s" and arr: "length (en_arrays s1 ! j) = length (en_arrays s ! j)" for j
    using removeExpired_frame [of "rev ex" s] by (auto simp: s1_def)
  show ?thesis
  proof (cases best)
    case None
    then show ?thesis using ok sl
      by (intro exI [of _ s1]) (simp add: eval_nat_numeral s1_def)
  next
    case (Some b)
    have b: "b < en_len s" "b \<notin> set ex" using best Some by simp_all
    then have cells: "cell (array_id s) b s1 = slice s ! b"
      using cell_removeExpired [OF assms(1), of "array_id s" b "rev ex"] by (simp add: s1_def cell_slice)
    let ?s = "set_cell (array_id s) b ((cell (array_id s) b s1)\<lparr>ce_lastAccess := lk_now lk\<rparr>) s1"
    have bl: "b < length (en_arrays s1 ! array_id s)" using b assms(1) by (simp add: arr slices_ok_def)
    have "slice ?s = (slice s1)[b := (slice s1 ! b)\<lparr>ce_lastAccess := lk_now lk\<rparr>]"
    proof (cases "b < en_len s1")
      case True
      then show ?thesis using slice_set_cell [OF ok] cell_slice [OF True] by (simp add: id)
    next
      case False
      then show ?thesis using slice_set_cell [OF ok] slice_length [OF ok] by (simp add: id list_update_beyond)
    qed
    moreover have "ce_json (cell (array_id s) b ?s) = ce_json (slice s ! b)"
      using cell_set_cell [OF _ bl] array_id_less [OF ok] cells by (simp add: id)
    moreover have "(lookup_step ttl thr now ^^ 3) (lk\<lparr>lk_pc := Sweep best ex\<rparr>, s) =
        (lk\<lparr>lk_pc := Finished (hit_answer (lk_model lk) (ce_json (cell (array_id s) b ?s)))\<rparr>, ?s)"
      by (simp add: eval_nat_numeral Some k s1_def)
    ultimately show ?thesis using ok sl Some by (intro exI [of _ ?s]) (simp add: Let_def)
  qed
qed

text \<open>
  C23. The lookup of the cache as one operation is what its steps do when nothing comes between
  them: from a slice with the same entries they end, five more than the slice has entries, with
  the same answer and metrics, and leave a slice with the entries that the operation leaves.
\<close>

theorem lookup_steps_refine:
  assumes "slices_ok s" and "ca_entries c (req_model req) = slice s"
    and "prompt_vector c req = Ok (Some (text, vec))" and "cache_Lookup now req c = (Ok r, c')"
  shows "\<exists>lk s'. (lookup_step (ca_ttl c) (ca_threshold c) now ^^ (en_len s + 5)) (lookup_begin (req_model req) vec, s) = (lk, s') \<and>
           lk_pc lk = Finished r \<and> slices_ok s' \<and> slice s' = ca_entries c' (req_model req)"
proof -
  let ?step = "lookup_step (ca_ttl c) (ca_threshold c) now"
  let ?lk = "\<lparr>lk_model = req_model req, lk_vec = vec, lk_array = array_id s, lk_len = en_len s, lk_now = now, lk_pc = Begin\<rparr>"
  obtain best ex where scan: "lookup_scan (ca_ttl c) now vec (slice s) 0 None (ca_threshold c) [] = (best, ex)" by fastforce
  note f = lookup_scan_result [OF scan]
  have best: "\<forall>b. best = Some b \<longrightarrow> b < en_len s \<and> b \<notin> set ex"
    using f slice_length [OF assms(1)] by (auto simp: best_entry_def expired_at_def)
  have lk: "lk_array ?lk = array_id s" "lk_model ?lk = req_model req" "lk_now ?lk = now" by simp_all
  have "?step (lookup_begin (req_model req) vec, s) = (?lk\<lparr>lk_pc := Scan 0 None (ca_threshold c) []\<rparr>, s)"
    by (simp add: lookup_step_def lookup_begin_def)
  moreover have "(?step ^^ Suc (en_len s)) (?lk\<lparr>lk_pc := Scan 0 None (ca_threshold c) []\<rparr>, s) = (?lk\<lparr>lk_pc := Sweep best ex\<rparr>, s)"
    using lookup_scan_runs [of ?lk s 0 "ca_ttl c" None "ca_threshold c" "[]" best ex "ca_threshold c" now] scan assms(1)
    by (simp add: slices_ok_def slice_def del: funpow.simps)
  moreover obtain s' where "(?step ^^ 3) (?lk\<lparr>lk_pc := Sweep best ex\<rparr>, s) =
      (?lk\<lparr>lk_pc := Finished (case best of None \<Rightarrow> (None, []) | Some b \<Rightarrow> hit_answer (req_model req) (ce_json (slice s ! b)))\<rparr>, s')"
    and s': "slices_ok s'" "slice s' = (let kept = if length ex > 0 then remove_indices (rev ex) (slice s) else slice s
      in case best of None \<Rightarrow> kept | Some b \<Rightarrow> kept[b := (kept ! b)\<lparr>ce_lastAccess := now\<rparr>])"
    using lookup_tail [OF assms(1) lk(1) best, where ttl = "ca_ttl c" and thr = "ca_threshold c" and now = now] unfolding lk(2,3)
    by (elim exE conjE) (rule that)
  ultimately have run: "(?step ^^ (3 + Suc (en_len s) + 1)) (lookup_begin (req_model req) vec, s) =
      (?lk\<lparr>lk_pc := Finished (case best of None \<Rightarrow> (None, []) | Some b \<Rightarrow> hit_answer (req_model req) (ce_json (slice s ! b)))\<rparr>, s')"
    by (simp only: funpow_add o_apply One_nat_def funpow.simps id_apply)
  have "r = (case best of None \<Rightarrow> (None, []) | Some b \<Rightarrow> hit_answer (req_model req) (ce_json (slice s ! b)))"
    and "ca_entries c' (req_model req) = slice s'"
    using assms(2-4) s'(2) scan
    by (auto simp: cache_Lookup_def removeExpired_def hit_answer_def Let_def list_update_beyond not_less
        split: option.splits if_splits sum.splits)
  moreover have "3 + Suc (en_len s) + 1 = en_len s + 5" by simp
  ultimately show ?thesis using run s'(1) by (simp only: prod.inject) (intro exI conjI, auto)
qed

section \<open>Many goroutines\<close>

text \<open>
  The cache under concurrent use: the slices of every model and the lookups that were started.
  What happens next is that a lookup of a prompt with this vector starts, that the lookup with
  this number takes a step, reading this time if it reads the clock, that \<^verbatim>\<open>Store\<close> adds an entry,
  or that \<^verbatim>\<open>LoadFromStore\<close> appends one.
\<close>

record CacheSystem =
  cy_entries :: "string \<Rightarrow> Slices"
  cy_lookups :: "lookup list"

datatype cache_event =
    Enter string "f64 list"
  | Look nat instant
  | Added instant CacheEntry
  | Loaded CacheEntry

definition new_system :: CacheSystem where
  "new_system = \<lparr>cy_entries = (\<lambda>_. nil_slice), cy_lookups = []\<rparr>"

fun system_step :: "(nat \<Rightarrow> nat) \<Rightarrow> 'w SemanticCache \<Rightarrow> cache_event \<Rightarrow> CacheSystem \<Rightarrow> CacheSystem" where
  "system_step grow c (Enter m vec) y = y\<lparr>cy_lookups := cy_lookups y @ [lookup_begin m vec]\<rparr>"
| "system_step grow c (Look j now) y =
     (if j \<ge> length (cy_lookups y) then y
      else let m = lk_model (cy_lookups y ! j);
               (lk, s) = lookup_step (ca_ttl c) (ca_threshold c) now (cy_lookups y ! j, cy_entries y m)
           in y\<lparr>cy_entries := (cy_entries y)(m := s), cy_lookups := (cy_lookups y)[j := lk]\<rparr>)"
| "system_step grow c (Added t3 e) y =
     y\<lparr>cy_entries := (cy_entries y)(ce_model e := sl_add grow (ca_maxEntries c) (ca_ttl c) t3 e (cy_entries y (ce_model e)))\<rparr>"
| "system_step grow c (Loaded e) y =
     y\<lparr>cy_entries := (cy_entries y)(ce_model e := go_append grow e (cy_entries y (ce_model e)))\<rparr>"

subsection \<open>What a cell can hold\<close>

text \<open>
  \<open>G\<close> is a set of responses. The slice holds responses of \<open>G\<close>; a change of the slices is sound for
  \<open>G\<close> if this is so afterwards too, no array shrinks, and a cell that held a response of \<open>G\<close> still
  holds one, though perhaps another.
\<close>

definition cells_in :: "string set \<Rightarrow> Slices \<Rightarrow> bool" where
  "cells_in G s \<longleftrightarrow> slices_ok s \<and> (\<forall>i < en_len s. ce_json (cell (array_id s) i s) \<in> G)"

definition sound_change :: "string set \<Rightarrow> Slices \<Rightarrow> Slices \<Rightarrow> bool" where
  "sound_change G s s' \<longleftrightarrow> cells_in G s' \<and> length (en_arrays s) \<le> length (en_arrays s') \<and>
     (\<forall>k < length (en_arrays s). length (en_arrays s' ! k) = length (en_arrays s ! k) \<and>
        (\<forall>i < length (en_arrays s ! k). ce_json (cell k i s) \<in> G \<longrightarrow> ce_json (cell k i s') \<in> G))"

lemma sound_refl: "cells_in G s \<Longrightarrow> sound_change G s s"
  by (simp add: sound_change_def)

lemma sound_trans: "sound_change G s s' \<Longrightarrow> sound_change G s' s'' \<Longrightarrow> sound_change G s s''"
  by (fastforce simp: sound_change_def)

lemma sound_cells: "sound_change G s s' \<Longrightarrow> cells_in G s'"
  by (simp add: sound_change_def)

lemma cells_in_slice: "cells_in G s \<longleftrightarrow> slices_ok s \<and> ce_json ` set (slice s) \<subseteq> G"
  by (auto simp: cells_in_def cell_slice slice_length image_subset_iff all_set_conv_all_nth)

lemma sound_shorten: "cells_in G s \<Longrightarrow> n \<le> en_len s \<Longrightarrow> sound_change G s (shorten n s)"
  by (simp add: sound_change_def cells_in_def slices_ok_shorten)

lemma sound_set_cell:
  assumes "cells_in G s" and "k < length (en_arrays s)" and "i < length (en_arrays s ! k)" and "ce_json e \<in> G"
  shows "sound_change G s (set_cell k i e s)"
  using assms by (simp add: sound_change_def cells_in_def cell_set_cell)

lemma sound_move:
  assumes "cells_in G s" and "i < en_len s" and "j < en_len s"
  shows "sound_change G s (move_cell i j s)"
  unfolding move_cell_def
  using assms array_id_less [of s] by (intro sound_set_cell) (auto simp: cells_in_def slices_ok_def)

lemma sound_drop_last:
  assumes "cells_in G s" and "i < en_len s"
  shows "sound_change G s (shorten (en_len s - 1) (move_cell i (en_len s - 1) s))"
proof -
  have "sound_change G s (move_cell i (en_len s - 1) s)" using assms by (intro sound_move) simp_all
  from sound_trans [OF this sound_shorten [OF sound_cells [OF this]]] show ?thesis by simp
qed

lemma sound_remove: "cells_in G s \<Longrightarrow> sound_change G s (sl_removeExpired is s)"
proof (induction "is" s rule: sl_removeExpired.induct)
  case (2 idx "is" s)
  show ?case
  proof (cases "idx \<ge> en_len s")
    case False
    then have d: "sound_change G s (shorten (en_len s - 1) (move_cell idx (en_len s - 1) s))"
      using sound_drop_last [OF 2(3)] by simp
    from sound_trans [OF d 2(2) [OF False sound_cells [OF d]]] show ?thesis using False by simp
  qed (use 2 in simp)
qed (simp add: sound_refl)

lemma oldest_index:
  assumes "es \<noteq> []"
  shows "oldest_from (tl es) 1 0 (hd es) < length es"
  using oldest_from_spec [of "tl es" 1 0 "hd es"] assms by (cases es) auto

lemma sound_evict:
  assumes "cells_in G s"
  shows "sound_change G s (sl_evictOne s)"
proof (cases "en_len s = 0")
  case False
  then have "oldest_from (tl (slice s)) 1 0 (hd (slice s)) < en_len s"
    using oldest_index [of "slice s"] slice_length [of s] assms by (cases "slice s") (simp_all add: cells_in_def)
  then show ?thesis using sound_drop_last [OF assms] False by (simp add: sl_evictOne_def Let_def)
qed (use assms in \<open>simp add: sl_evictOne_def sound_refl\<close>)

lemma sound_compact_loop:
  assumes "cells_in G s" and "keep \<le> i" and "i + n = en_len s"
  shows "sound_change G s (snd (compact_loop ttl now n i keep s)) \<and>
    en_len (snd (compact_loop ttl now n i keep s)) = en_len s \<and> fst (compact_loop ttl now n i keep s) \<le> en_len s"
  using assms
proof (induction ttl now n i keep s rule: compact_loop.induct)
  case (2 ttl now n i keep s)
  show ?case
  proof (cases "time_sub now (ce_storedAt (cell (array_id s) i s)) \<le> ttl")
    case True
    have m: "sound_change G s (move_cell keep i s)" using 2(4,5) by (intro sound_move 2(3)) simp_all
    show ?thesis using 2(1) [OF True sound_cells [OF m]] 2(4,5) True sound_trans [OF m] by simp
  qed (use 2 in simp)
qed (simp add: sound_refl)

lemma sound_compact: "cells_in G s \<Longrightarrow> sound_change G s (sl_compactExpired ttl now s)"
  using sound_compact_loop [of G s 0 0 "en_len s" ttl now] sound_trans [of G s] sound_shorten [OF sound_cells]
  by (fastforce simp: sl_compactExpired_def split: prod.split)

lemma sound_append:
  assumes "cells_in G s" and "ce_json e \<in> G"
  shows "sound_change G s (go_append grow e s)"
proof -
  have ok: "slices_ok s" using assms(1) by (simp add: cells_in_def)
  have "cells_in G (go_append grow e s)"
    using go_append_refines [OF ok, of grow e] assms by (simp add: cells_in_slice)
  then show ?thesis using array_id_less [OF ok] assms(2)
    by (auto simp: sound_change_def go_append_def Let_def cell_set_cell)
      (simp_all add: cell_def nth_append)
qed

lemma sound_add:
  assumes "cells_in G s" and "ce_json e \<in> G"
  shows "sound_change G s (sl_add grow maxEntries ttl t3 e s)"
proof -
  note a = sound_append [OF assms]
  have s1: "sound_change G s (if b then sl_evictOne (go_append grow e s) else go_append grow e s)" for b
    using a sound_trans [OF a sound_evict [OF sound_cells [OF a]]] by simp
  show ?thesis unfolding sl_add_def Let_def
    using s1 sound_trans [OF s1 sound_compact [OF sound_cells [OF s1]]] by simp
qed

subsection \<open>Where a lookup can be\<close>

definition points_into :: "string set \<Rightarrow> Slices \<Rightarrow> lookup \<Rightarrow> bool" where
  "points_into G s lk \<longleftrightarrow> lk_array lk < length (en_arrays s) \<and> lk_len lk \<le> length (en_arrays s ! lk_array lk) \<and>
     (\<forall>i < lk_len lk. ce_json (cell (lk_array lk) i s) \<in> G)"

definition best_inside :: "nat \<Rightarrow> nat option \<Rightarrow> bool" where
  "best_inside n best \<longleftrightarrow> (case best of None \<Rightarrow> True | Some b \<Rightarrow> b < n)"

definition hit_from :: "string set \<Rightarrow> StandardResponse \<Rightarrow> bool" where
  "hit_from G resp \<longleftrightarrow> (\<exists>json \<in> G. \<exists>r. unmarshal_response json = Inr r \<and> resp = r\<lparr>rs_cacheHit := True\<rparr>)"

definition lookup_sound :: "string set \<Rightarrow> Slices \<Rightarrow> lookup \<Rightarrow> bool" where
  "lookup_sound G s lk \<longleftrightarrow>
     (case lk_pc lk of
        Begin \<Rightarrow> True
      | Scan i best _ _ \<Rightarrow> points_into G s lk \<and> best_inside (lk_len lk) best
      | Sweep best _ \<Rightarrow> points_into G s lk \<and> best_inside (lk_len lk) best
      | Touch b \<Rightarrow> points_into G s lk \<and> b < lk_len lk
      | Answer b \<Rightarrow> points_into G s lk \<and> b < lk_len lk
      | Finished (None, _) \<Rightarrow> True
      | Finished (Some resp, _) \<Rightarrow> hit_from G resp)"

lemma points_into_kept: "sound_change G s s' \<Longrightarrow> points_into G s lk \<Longrightarrow> points_into G s' lk"
  by (fastforce simp: points_into_def sound_change_def)

lemma lookup_sound_kept: "sound_change G s s' \<Longrightarrow> lookup_sound G s lk \<Longrightarrow> lookup_sound G s' lk"
  by (auto simp: lookup_sound_def points_into_kept split: lookup_pc.splits)

lemma points_into_pc [simp]:
  "points_into G s (lk\<lparr>lk_pc := p\<rparr>) = points_into G s lk"
  by (simp add: points_into_def)

lemma lookup_step_sound:
  assumes "lookup_step ttl thr now (lk, s) = (lk', s')" and "lookup_sound G s lk" and c: "cells_in G s"
  shows "sound_change G s s' \<and> lookup_sound G s' lk' \<and> lk_model lk' = lk_model lk"
proof (cases "lk_pc lk")
  case Begin
  then show ?thesis using assms(1) c array_id_less [of s]
    by (auto simp: lookup_step_def lookup_sound_def sound_refl points_into_def best_inside_def cells_in_def slices_ok_def)
next
  case (Scan i best bs ex)
  then show ?thesis using assms sound_refl [OF c]
    by (auto simp: lookup_step_def lookup_sound_def best_inside_def Let_def split: if_splits)
next
  case (Sweep best ex)
  then show ?thesis using assms(1,2) sound_refl [OF c] sound_remove [OF c] points_into_kept [OF sound_remove [OF c]]
    by (auto simp: lookup_step_def lookup_sound_def best_inside_def split: if_splits option.splits)
next
  case (Touch b)
  let ?e = "(cell (lk_array lk) b s)\<lparr>ce_lastAccess := lk_now lk\<rparr>"
  have p: "points_into G s lk" "b < lk_len lk" using assms(2) Touch by (simp_all add: lookup_sound_def)
  then have "sound_change G s (set_cell (lk_array lk) b ?e s)"
    by (intro sound_set_cell [OF c]) (auto simp: points_into_def)
  then show ?thesis using assms(1) Touch p points_into_kept [OF _ p(1)]
    by (auto simp: lookup_step_def lookup_sound_def Let_def)
next
  case (Answer b)
  then have "ce_json (cell (lk_array lk) b s) \<in> G" using assms(2) by (simp add: lookup_sound_def points_into_def)
  then have "hit_from G (x\<lparr>rs_cacheHit := True\<rparr>)"
    if "unmarshal_response (ce_json (cell (lk_array lk) b s)) = Inr x" for x using that by (auto simp: hit_from_def)
  then show ?thesis using assms(1) Answer sound_refl [OF c]
    by (cases "unmarshal_response (ce_json (cell (lk_array lk) b s))")
      (auto simp: lookup_step_def lookup_sound_def hit_answer_def Let_def)
next
  case (Finished r)
  then show ?thesis using assms sound_refl [OF c] by (simp add: lookup_step_def)
qed

subsection \<open>All runs\<close>

definition system_sound :: "(string \<Rightarrow> string set) \<Rightarrow> CacheSystem \<Rightarrow> bool" where
  "system_sound G y \<longleftrightarrow> (\<forall>m. cells_in (G m) (cy_entries y m)) \<and>
     (\<forall>lk \<in> set (cy_lookups y). lookup_sound (G (lk_model lk)) (cy_entries y (lk_model lk)) lk)"

definition event_in :: "(string \<Rightarrow> string set) \<Rightarrow> cache_event \<Rightarrow> bool" where
  "event_in G ev \<longleftrightarrow> (case ev of Added t3 e \<Rightarrow> ce_json e \<in> G (ce_model e) | Loaded e \<Rightarrow> ce_json e \<in> G (ce_model e) | _ \<Rightarrow> True)"

lemma system_sound_changed:
  assumes "system_sound G y" and "sound_change (G m) (cy_entries y m) s"
  shows "system_sound G (y\<lparr>cy_entries := (cy_entries y)(m := s)\<rparr>)"
  using assms lookup_sound_kept [OF assms(2)] by (auto simp: system_sound_def sound_cells)

lemma system_step_sound:
  assumes "system_sound G y" and "event_in G ev"
  shows "system_sound G (system_step grow c ev y)"
proof (cases ev)
  case (Enter m vec)
  then show ?thesis using assms(1) by (simp add: system_sound_def lookup_sound_def lookup_begin_def)
next
  case (Look j now)
  show ?thesis
  proof (cases "j < length (cy_lookups y)")
    case True
    let ?lk = "cy_lookups y ! j"
    let ?m = "lk_model ?lk"
    obtain lk s where step: "lookup_step (ca_ttl c) (ca_threshold c) now (?lk, cy_entries y ?m) = (lk, s)" by fastforce
    have "lookup_sound (G ?m) (cy_entries y ?m) ?lk" "cells_in (G ?m) (cy_entries y ?m)"
      using assms(1) True by (simp_all add: system_sound_def)
    from lookup_step_sound [OF step this]
    have s: "sound_change (G ?m) (cy_entries y ?m) s" "lookup_sound (G ?m) s lk" "lk_model lk = ?m" by simp_all
    have "system_sound G (y\<lparr>cy_entries := (cy_entries y)(?m := s)\<rparr>)" by (rule system_sound_changed [OF assms(1) s(1)])
    then have "system_sound G (y\<lparr>cy_entries := (cy_entries y)(?m := s), cy_lookups := (cy_lookups y)[j := lk]\<rparr>)"
      using s(2,3) set_update_subset_insert [of "cy_lookups y" j lk] by (fastforce simp: system_sound_def)
    then show ?thesis using Look True step by (simp add: Let_def)
  qed (use Look assms(1) in simp)
next
  case (Added t3 e)
  have "sound_change (G (ce_model e)) (cy_entries y (ce_model e))
      (sl_add grow (ca_maxEntries c) (ca_ttl c) t3 e (cy_entries y (ce_model e)))"
    using assms Added by (intro sound_add) (simp_all add: system_sound_def event_in_def)
  from system_sound_changed [OF assms(1) this] show ?thesis using Added by simp
next
  case (Loaded e)
  have "sound_change (G (ce_model e)) (cy_entries y (ce_model e)) (go_append grow e (cy_entries y (ce_model e)))"
    using assms Loaded by (intro sound_append) (simp_all add: system_sound_def event_in_def)
  from system_sound_changed [OF assms(1) this] show ?thesis using Loaded by simp
qed

lemma new_system_sound: "system_sound G new_system"
  by (simp add: system_sound_def new_system_def cells_in_slice nil_slice_facts)

lemma system_run_sound:
  assumes "system_sound G y" and "\<forall>ev \<in> set es. event_in G ev"
  shows "system_sound G (fold (system_step grow c) es y)"
  using assms
proof (induction es arbitrary: y)
  case (Cons ev es)
  then show ?case using system_step_sound [of G y ev grow c] by simp
qed simp

text \<open>The cell that the next step of a lookup reads; it never lies past an array.\<close>

definition next_cell :: "lookup \<Rightarrow> nat option" where
  "next_cell lk = (case lk_pc lk of Scan i _ _ _ \<Rightarrow> if i < lk_len lk then Some i else None
     | Touch b \<Rightarrow> Some b | Answer b \<Rightarrow> Some b | _ \<Rightarrow> None)"

lemma concurrent_accesses_in_bounds:
  assumes y: "y = fold (system_step grow c) es new_system"
  shows "slices_ok (cy_entries y m)"
    and "lk \<in> set (cy_lookups y) \<Longrightarrow> next_cell lk = Some i \<Longrightarrow>
      lk_array lk < length (en_arrays (cy_entries y (lk_model lk))) \<and>
      i < length (en_arrays (cy_entries y (lk_model lk)) ! lk_array lk)"
proof -
  have s: "system_sound (\<lambda>_. UNIV) y"
    unfolding y by (rule system_run_sound [OF new_system_sound]) (simp add: event_in_def split: cache_event.split)
  then show "slices_ok (cy_entries y m)" by (simp add: system_sound_def cells_in_def)
  show "lk_array lk < length (en_arrays (cy_entries y (lk_model lk))) \<and> i < length (en_arrays (cy_entries y (lk_model lk)) ! lk_array lk)"
    if "lk \<in> set (cy_lookups y)" "next_cell lk = Some i"
  proof -
    have "lookup_sound UNIV (cy_entries y (lk_model lk)) lk" using s that(1) unfolding system_sound_def by blast
    then show ?thesis using that(2)
      by (cases "lk_pc lk") (auto simp: next_cell_def lookup_sound_def points_into_def split: if_splits)
  qed
qed

text \<open>
  C24. However lookups, stores and loading interleave, down to the single reads of entries, what
  a lookup answers is a response that was stored or loaded for its own model, marked as a hit.
\<close>

theorem concurrent_hit_was_stored:
  assumes "lk \<in> set (cy_lookups (fold (system_step grow c) es new_system))"
    and "lk_pc lk = Finished (Some resp, ms)"
  shows "\<exists>e r. (e \<in> {e. Loaded e \<in> set es} \<or> (\<exists>t. Added t e \<in> set es)) \<and> ce_model e = lk_model lk \<and>
           unmarshal_response (ce_json e) = Inr r \<and> resp = r\<lparr>rs_cacheHit := True\<rparr>"
proof -
  let ?G = "\<lambda>m. {ce_json e |e. ce_model e = m \<and> (Loaded e \<in> set es \<or> (\<exists>t. Added t e \<in> set es))}"
  have "\<forall>ev \<in> set es. event_in ?G ev" by (auto simp: event_in_def split: cache_event.split)
  from system_run_sound [OF new_system_sound this]
  have "lookup_sound (?G (lk_model lk)) (cy_entries (fold (system_step grow c) es new_system) (lk_model lk)) lk"
    using assms(1) unfolding system_sound_def by blast
  then show ?thesis using assms(2) by (auto simp: lookup_sound_def hit_from_def)
qed

subsection \<open>Capacity under concurrency\<close>

lemma removeExpired_shrinks: "en_len (sl_removeExpired is s) \<le> en_len s"
proof (induction "is" s rule: sl_removeExpired.induct)
  case (2 idx "is" s)
  show ?case
  proof (cases "idx \<ge> en_len s")
    case False
    then show ?thesis using 2(2) [OF False] by simp
  qed (use 2 in simp)
qed simp

lemma lookup_step_shrinks: "en_len (snd (lookup_step ttl thr now (lk, s))) \<le> en_len s"
  by (auto simp: lookup_step_def removeExpired_shrinks Let_def split: lookup_pc.split)

lemma add_bounded:
  assumes "int (en_len s) \<le> maxEntries" and "0 < maxEntries"
  shows "int (en_len (sl_add grow maxEntries ttl t3 e s)) \<le> maxEntries"
proof -
  let ?s = "go_append grow e s"
  let ?s1 = "if int (en_len ?s) > maxEntries then sl_evictOne ?s else ?s"
  have "en_len ?s = en_len s + 1" by (simp add: go_append_def Let_def)
  then have "int (en_len ?s1) \<le> maxEntries" using assms by (auto simp: sl_evictOne_def Let_def)
  moreover have "maxEntries \<le> maxEntries * 3 div 2" using assms(2) by simp
  ultimately have "\<not> int (en_len ?s1) > maxEntries * 3 div 2" by linarith
  then have "sl_add grow maxEntries ttl t3 e s = ?s1" unfolding sl_add_def Let_def by (simp only: if_False)
  then show ?thesis using \<open>int (en_len ?s1) \<le> maxEntries\<close> by (simp only:)
qed

definition system_bounded :: "'w SemanticCache \<Rightarrow> CacheSystem \<Rightarrow> bool" where
  "system_bounded c y \<longleftrightarrow> (\<forall>m. int (en_len (cy_entries y m)) \<le> ca_maxEntries c)"

lemma system_step_bounded:
  assumes "system_bounded c y" and "0 < ca_maxEntries c" and "\<forall>e. ev \<noteq> Loaded e"
  shows "system_bounded c (system_step grow c ev y)"
proof (cases ev)
  case (Look j now)
  have "int (en_len (snd (lookup_step (ca_ttl c) (ca_threshold c) now (lk, cy_entries y m)))) \<le> ca_maxEntries c" for lk m
    using lookup_step_shrinks [of "ca_ttl c" "ca_threshold c" now lk "cy_entries y m"] assms(1)
    unfolding system_bounded_def by (meson of_nat_le_iff order_trans)
  then show ?thesis using assms(1) Look by (auto simp: system_bounded_def Let_def split_beta)
qed (use assms add_bounded [OF _ assms(2)] in \<open>auto simp: system_bounded_def\<close>)

lemma system_run_bounded:
  assumes "0 < ca_maxEntries c"
  shows "system_bounded c y \<Longrightarrow> \<forall>e. Loaded e \<notin> set es \<Longrightarrow> system_bounded c (fold (system_step grow c) es y)"
proof (induction es arbitrary: y)
  case (Cons ev es)
  then have "system_bounded c (system_step grow c ev y)" by (intro system_step_bounded [OF _ assms]) auto
  then show ?case using Cons by simp
qed simp

lemma new_system_bounded: "0 < ca_maxEntries c \<Longrightarrow> system_bounded c new_system"
  by (simp add: system_bounded_def new_system_def nil_slice_def)

text \<open>
  C25. No interleaving of lookups and stores takes a model beyond the capacity, at any moment: not
  the indices that a lookup collects without the lock, nor the write through its pointer.
\<close>

theorem concurrent_capacity:
  assumes "0 < ca_maxEntries c" and "\<forall>e. Loaded e \<notin> set es"
  shows "int (en_len (cy_entries (fold (system_step grow c) es new_system) m)) \<le> ca_maxEntries c"
  using system_run_bounded [OF assms(1) new_system_bounded [OF assms(1)] assms(2)] by (simp add: system_bounded_def)

theorem concurrent_capacity_witness:
  "int (en_len (cy_entries (fold (system_step (\<lambda>n. n) demo_cache) [Added 0 (demo_entry [] 0), Enter ''m'' [], Look 0 1] new_system) ''m'')) \<le> 2"
  using concurrent_capacity [of demo_cache "[Added 0 (demo_entry [] 0), Enter ''m'' [], Look 0 1]" "\<lambda>n. n" "''m''"]
  by (simp only: demo_cache_def SemanticCache.simps) simp

subsection \<open>No lookup is kept from ending\<close>








section \<open>An entry that moves under a lookup\<close>

lemma oldest_unique:
  assumes "b < length es" and "\<forall>j < length es. j \<noteq> b \<longrightarrow> ce_lastAccess (es ! b) < ce_lastAccess (es ! j)"
  shows "oldest_from (tl es) 1 0 (hd es) = b"
proof -
  let ?r = "oldest_from (tl es) 1 0 (hd es)"
  obtain e t where es: "es = e # t" using assms(1) by (cases es) auto
  have "ce_lastAccess (es ! ?r) \<le> ce_lastAccess (es ! b)"
    using oldest_from_spec [of t 1 0 e ?r] assms(1) nth_mem [of b es] unfolding es by (auto simp: less_Suc_eq_0_disj nth_Cons')
  moreover have "?r < length es" using oldest_index [of es] es by simp
  ultimately show ?thesis using assms(2) by fastforce
qed

lemma touch_answers:
  assumes "lk_pc lk = Touch b" and "lk_array lk < length (en_arrays s)" and "b < length (en_arrays s ! lk_array lk)"
  shows "lk_pc (fst ((lookup_step ttl threshold now ^^ 2) (lk, s))) = Finished (hit_answer (lk_model lk) (ce_json (cell (lk_array lk) b s)))"
proof -
  have "lk = lk\<lparr>lk_pc := Touch b\<rparr>" using assms(1) by simp
  then have "(lookup_step ttl threshold now ^^ 2) (lk, s) = lookup_step ttl threshold now (lookup_step ttl threshold now (lk\<lparr>lk_pc := Touch b\<rparr>, s))"
    by (simp add: numeral_2_eq_2)
  then show ?thesis by (simp add: cell_set_cell [OF assms(2,3)])
qed

text \<open>
  C27. The pointer of a lookup to its best entry is a pointer to a cell. When a store evicts this
  entry, as the least recently used one, between the scan and the access to the response, the new
  entry moves into the cell, and the lookup answers with the response to the other prompt,
  whatever its similarity.
\<close>

theorem eviction_replaces_answer:
  assumes "slices_ok s" and "en_len s < length (en_arrays s ! array_id s)" and "int (en_len s) = maxEntries"
    and "lk_array lk = array_id s" and "lk_pc lk = Touch b" and "b < en_len s"
    and "\<forall>j < en_len s. j \<noteq> b \<longrightarrow> ce_lastAccess (slice s ! b) < ce_lastAccess (slice s ! j)"
    and "ce_lastAccess (slice s ! b) < ce_lastAccess e"
  shows "lk_pc (fst ((lookup_step ttl threshold now ^^ 2) (lk, sl_add grow maxEntries ttl t3 e s))) =
    Finished (hit_answer (lk_model lk) (ce_json e))"
proof -
  let ?n = "en_len s"
  define s1 where "s1 = shorten (?n + 1) (set_cell (array_id s) ?n e s)"
  have app: "go_append grow e s = s1" using assms(2) by (simp add: go_append_def s1_def)
  have len: "length (slice s) = ?n" using slice_length [OF assms(1)] .
  have id: "array_id s1 = array_id s" "en_len s1 = ?n + 1" "length (en_arrays s1) = length (en_arrays s)"
    "length (en_arrays s1 ! array_id s) = length (en_arrays s ! array_id s)" by (simp_all add: s1_def)
  have sl: "slice s1 = slice s @ [e]" and ok: "slices_ok s1"
    using go_append_refines [OF assms(1), of "\<lambda>n. n" e] assms(2) by (simp_all add: go_append_def s1_def)
  have "oldest_from (tl (slice s @ [e])) 1 0 (hd (slice s @ [e])) = b"
    by (rule oldest_unique) (use assms(6-8) len in \<open>auto simp: nth_append less_Suc_eq\<close>)
  then have ev: "sl_evictOne s1 = shorten ?n (move_cell b ?n s1)"
    by (simp add: sl_evictOne_def sl id Let_def)
  have "\<not> int ?n > maxEntries * 3 div 2" using assms(3) by simp
  then have add: "sl_add grow maxEntries ttl t3 e s = shorten ?n (move_cell b ?n s1)"
    unfolding sl_add_def Let_def app using assms(3) by (simp add: ev id)
  have b: "b < length (en_arrays s1 ! array_id s)" "array_id s < length (en_arrays s1)"
    using assms(2,6) array_id_less [OF assms(1)] by (simp_all add: id)
  have "cell (array_id s) b (move_cell b ?n s1) = cell (array_id s) ?n s1"
    unfolding move_cell_def id using cell_set_cell [OF b(2,1)] by simp
  also have "\<dots> = e" using cell_slice [of ?n s1] by (simp add: id sl nth_append len)
  finally have cell: "cell (array_id s) b (sl_add grow maxEntries ttl t3 e s) = e" by (simp add: add)
  have arr: "array_id s < length (en_arrays (sl_add grow maxEntries ttl t3 e s))"
    "b < length (en_arrays (sl_add grow maxEntries ttl t3 e s) ! array_id s)" using b by (simp_all add: add)
  show ?thesis using touch_answers [of lk b "sl_add grow maxEntries ttl t3 e s"] assms(4,5) arr cell by simp
qed

text \<open>
  A run that ends so. The cache holds one entry; its array has a second cell since an earlier
  eviction. A lookup of the prompt with the vector \<open>[1, 0]\<close> has found the entry when the response
  to an orthogonal prompt is stored.
\<close>

definition other_entry :: CacheEntry where
  "other_entry = \<lparr>ce_model = ''m'', ce_key = '''', ce_vector = [fzero, f64_of_int 1],
     ce_json = marshal_response (demo_response\<lparr>rs_id := ''r2''\<rparr>), ce_storedAt = 30, ce_lastAccess = 30\<rparr>"

definition small_cache :: "unit SemanticCache" where
  "small_cache = demo_cache\<lparr>ca_maxEntries := 1\<rparr>"

definition demo_slices :: Slices where
  "demo_slices = \<lparr>en_arrays = [[], [demo_entry [fzero, f64_of_int 1] 0], [demo_entry [f64_of_int 1, fzero] 10, demo_entry [f64_of_int 1, fzero] 10]],
     en_len = 1\<rparr>"

definition demo_lookup :: lookup where
  "demo_lookup = \<lparr>lk_model = ''m'', lk_vec = [f64_of_int 1, fzero], lk_array = 2, lk_len = 1, lk_now = 20, lk_pc = Touch 0\<rparr>"

lemma demo_run:
  "fold (system_step (\<lambda>n. n) small_cache)
     ([Added 0 (demo_entry [fzero, f64_of_int 1] 0), Added 10 (demo_entry [f64_of_int 1, fzero] 10), Enter ''m'' [f64_of_int 1, fzero]] @
      replicate 4 (Look 0 20)) new_system =
   \<lparr>cy_entries = (\<lambda>_. nil_slice)(''m'' := demo_slices), cy_lookups = [demo_lookup]\<rparr>"
proof -
  have t: "time_sub 20 10 = 10" by (simp add: time_sub_def min_int64_def max_int64_def)
  have a0: "sl_add (\<lambda>n. n) 1 100 0 (demo_entry [fzero, f64_of_int 1] 0) nil_slice =
      \<lparr>en_arrays = [[], [demo_entry [fzero, f64_of_int 1] 0]], en_len = 1\<rparr>"
    by (simp add: sl_add_def go_append_def nil_slice_def array_id_def slice_def Let_def)
  have a1: "sl_add (\<lambda>n. n) 1 100 10 (demo_entry [f64_of_int 1, fzero] 10)
      \<lparr>en_arrays = [[], [demo_entry [fzero, f64_of_int 1] 0]], en_len = 1\<rparr> = demo_slices"
    by (simp add: sl_add_def go_append_def sl_evictOne_def move_cell_def set_cell_def shorten_def cell_def array_id_def slice_def
        demo_slices_def demo_entry_def Let_def)
  let ?ttl = "ca_ttl small_cache" and ?thr = "ca_threshold small_cache" and ?L = "\<lambda>pc. demo_lookup\<lparr>lk_pc := pc\<rparr>"
  let ?y = "\<lambda>pc. \<lparr>cy_entries = (\<lambda>_. nil_slice)(''m'' := demo_slices), cy_lookups = [?L pc]\<rparr>"
  have look: "system_step (\<lambda>n. n) small_cache (Look 0 20) \<lparr>cy_entries = f(''m'' := s), cy_lookups = [lk]\<rparr> =
      \<lparr>cy_entries = f(''m'' := s'), cy_lookups = [lk']\<rparr>"
    if "lookup_step ?ttl ?thr 20 (lk, s) = (lk', s')" "lk_model lk = ''m''" for f s s' lk lk'
    using that by simp
  have c: "cell 2 0 demo_slices = demo_entry [f64_of_int 1, fzero] 10" by (simp add: cell_def demo_slices_def)
  have "lookup_step ?ttl ?thr 20 (lookup_begin ''m'' [f64_of_int 1, fzero], demo_slices) = (?L (Scan 0 None ?thr []), demo_slices)"
    by (simp add: lookup_step_def lookup_begin_def demo_lookup_def demo_slices_def array_id_def)
  note l1 = look [OF this]
  have "lookup_step ?ttl ?thr 20 (?L (Scan 0 None ?thr []), demo_slices) = (?L (Scan 1 (Some 0) (f64_of_int 1) []), demo_slices)"
    by (simp add: lookup_step_def demo_lookup_def c small_cache_def demo_cache_def entry_expired_def t Let_def)
      (simp add: demo_entry_def t demo_cosines demo_compare)
  note l2 = look [OF this]
  have "lookup_step ?ttl ?thr 20 (?L (Scan 1 (Some 0) (f64_of_int 1) []), demo_slices) = (?L (Sweep (Some 0) []), demo_slices)"
    by (simp add: lookup_step_def demo_lookup_def)
  note l3 = look [OF this]
  have "lookup_step ?ttl ?thr 20 (?L (Sweep (Some 0) []), demo_slices) = (?L (Touch 0), demo_slices)" by simp
  note l4 = look [OF this]
  have m: "lk_model (?L pc) = ''m''" "lk_model (lookup_begin ''m'' v) = ''m''" for pc v
    by (simp_all add: demo_lookup_def lookup_begin_def)
  have me: "ce_model (demo_entry v t) = ''m''" for v t by (simp add: demo_entry_def)
  have "fold (system_step (\<lambda>n. n) small_cache) [Added 0 (demo_entry [fzero, f64_of_int 1] 0), Added 10 (demo_entry [f64_of_int 1, fzero] 10),
      Enter ''m'' [f64_of_int 1, fzero]] new_system =
      \<lparr>cy_entries = (\<lambda>_. nil_slice)(''m'' := demo_slices), cy_lookups = [lookup_begin ''m'' [f64_of_int 1, fzero]]\<rparr>"
    by (simp add: new_system_def small_cache_def demo_cache_def me a0 a1 [unfolded One_nat_def])
  moreover have "replicate 4 x = [x, x, x, x]" for x :: cache_event by (simp add: eval_nat_numeral)
  moreover have "?L (Touch 0) = demo_lookup" by (simp add: demo_lookup_def)
  ultimately show ?thesis
    by (simp only: fold_append o_apply fold.simps id_apply l1 l2 l3 l4 m)
qed

abbreviation demo_events :: "cache_event list" where
  "demo_events \<equiv> [Added 0 (demo_entry [fzero, f64_of_int 1] 0), Added 10 (demo_entry [f64_of_int 1, fzero] 10),
     Enter ''m'' [f64_of_int 1, fzero]] @ replicate 4 (Look 0 20)"

lemma demo_slices_facts:
  "slices_ok demo_slices" "slice demo_slices = [demo_entry [f64_of_int 1, fzero] 10]" "array_id demo_slices = 2" "en_len demo_slices = 1"
  "length (en_arrays demo_slices ! 2) = 2" "length (en_arrays demo_slices) = 3"
  by (simp_all add: demo_slices_def slices_ok_def slice_def array_id_def numeral_2_eq_2)

lemma demo_lookup_facts:
  "lk_model demo_lookup = ''m''" "lk_vec demo_lookup = [f64_of_int 1, fzero]" "lk_array demo_lookup = 2" "lk_pc demo_lookup = Touch 0"
  by (simp_all add: demo_lookup_def)

lemma lookup_step_keeps [simp]:
  "lk_vec (fst (lookup_step ttl thr now x)) = lk_vec (fst x)" "lk_model (fst (lookup_step ttl thr now x)) = lk_model (fst x)"
  by (cases x; auto simp: lookup_step_def Let_def split: lookup_pc.split)+

lemma two_looks:
  assumes "cy_lookups y = [lk]" and "cy_entries y (lk_model lk) = s"
  shows "cy_lookups (fold (system_step grow c) [Look 0 t, Look 0 t] y) =
    [fst ((lookup_step (ca_ttl c) (ca_threshold c) t ^^ 2) (lk, s))]"
proof -
  obtain lk1 s1 where 1: "lookup_step (ca_ttl c) (ca_threshold c) t (lk, s) = (lk1, s1)" by fastforce
  obtain lk2 s2 where 2: "lookup_step (ca_ttl c) (ca_threshold c) t (lk1, s1) = (lk2, s2)" by fastforce
  have "lk_model lk1 = lk_model lk" using lookup_step_keeps(2) [of "ca_ttl c" "ca_threshold c" t "(lk, s)"] 1 by simp
  then show ?thesis using assms 1 2 by (simp add: eval_nat_numeral)
qed

theorem lookup_steps_refine_witness:
  "\<exists>lk s'. (lookup_step 100 (f64_round False 3 4 0) 120 ^^ 7) (lookup_begin ''m'' [f64_of_int 1, fzero],
       \<lparr>en_arrays = [[], [demo_entry [fzero, f64_of_int 1] 0, demo_entry [f64_of_int 1, fzero] 50]], en_len = 2\<rparr>) = (lk, s') \<and>
     lk_pc lk = Finished (Some (demo_response\<lparr>rs_cacheHit := True\<rparr>), [CacheHitTotal ''m'' ''semantic'']) \<and>
     slice s' = [demo_entry [f64_of_int 1, fzero] 50]"
proof -
  let ?s = "\<lparr>en_arrays = [[], [demo_entry [fzero, f64_of_int 1] 0, demo_entry [f64_of_int 1, fzero] 50]], en_len = 2\<rparr>"
  have "slices_ok ?s" "ca_entries demo_cache (req_model demo_prompt) = slice ?s"
    by (simp_all add: slices_ok_def slice_def array_id_def demo_cache_facts)
  from lookup_steps_refine [OF this demo_prompt_vector demo_Lookup] show ?thesis
    by (auto simp: demo_cache_facts(1) demo_cache_def)
qed


theorem concurrent_hit_was_stored_witness:
  "\<exists>e r. (e \<in> {e. Loaded e \<in> set (demo_events @ [Look 0 20, Look 0 20])} \<or>
       (\<exists>t. Added t e \<in> set (demo_events @ [Look 0 20, Look 0 20]))) \<and> ce_model e = ''m'' \<and>
     unmarshal_response (ce_json e) = Inr r \<and> demo_response\<lparr>rs_cacheHit := True\<rparr> = r\<lparr>rs_cacheHit := True\<rparr>"
proof -
  let ?step = "lookup_step (ca_ttl small_cache) (ca_threshold small_cache) 20"
  let ?y = "fold (system_step (\<lambda>n. n) small_cache) (demo_events @ [Look 0 20, Look 0 20]) new_system"
  let ?lk = "fst ((?step ^^ 2) (demo_lookup, demo_slices))"
  have "cy_lookups ?y = [?lk]"
    unfolding fold_append o_apply [of "fold _ [Look 0 20, Look 0 20]"] demo_run [unfolded fold_append]
    by (rule two_looks) (simp_all add: demo_lookup_facts)
  then have lk: "?lk \<in> set (cy_lookups ?y)" by simp
  have c: "cell 2 0 demo_slices = demo_entry [f64_of_int 1, fzero] 10"
    using cell_slice [of 0 demo_slices] by (simp add: demo_slices_facts)
  have "lk_pc ?lk = Finished (hit_answer ''m'' (marshal_response demo_response))"
    using touch_answers [OF demo_lookup_facts(4), of demo_slices "ca_ttl small_cache" "ca_threshold small_cache" 20]
    by (simp only: demo_slices_facts c demo_lookup_facts) (simp add: demo_entry_def)
  then have pc: "lk_pc ?lk = Finished (Some (demo_response\<lparr>rs_cacheHit := True\<rparr>), [CacheHitTotal ''m'' ''semantic''])"
    by (simp add: hit_answer_def demo_unmarshal)
  from concurrent_hit_was_stored [OF lk pc] show ?thesis by (simp add: demo_lookup_facts eval_nat_numeral)
qed

theorem eviction_replaces_answer_witness:
  "\<exists>lk \<in> set (cy_lookups (fold (system_step (\<lambda>n. n) small_cache) (demo_events @ [Added 30 other_entry] @ [Look 0 40, Look 0 40]) new_system)).
     lk_vec lk = [f64_of_int 1, fzero] \<and> \<not> fle (ca_threshold small_cache) (CosineSimilarity (lk_vec lk) (ce_vector other_entry)) \<and>
     lk_pc lk = Finished (hit_answer ''m'' (ce_json other_entry))"
proof -
  let ?s = "sl_add (\<lambda>n. n) 1 (ca_ttl small_cache) 30 other_entry demo_slices"
  let ?lk = "fst ((lookup_step (ca_ttl small_cache) (ca_threshold small_cache) 40 ^^ 2) (demo_lookup, ?s))"
  have m: "ce_model other_entry = ''m''" "ca_maxEntries small_cache = 1" by (simp_all add: other_entry_def small_cache_def)
  have run: "cy_lookups (fold (system_step (\<lambda>n. n) small_cache) (demo_events @ [Added 30 other_entry] @ [Look 0 40, Look 0 40]) new_system) = [?lk]"
    unfolding fold_append o_apply [of "_ \<circ> _"] o_apply [of "fold _ [Look 0 40, Look 0 40]"] demo_run [unfolded fold_append]
    by (rule two_looks) (simp_all add: demo_lookup_facts m)
  have answer: "lk_pc ?lk = Finished (hit_answer (lk_model demo_lookup) (ce_json other_entry))"
    by (rule eviction_replaces_answer [where b = 0])
      (simp_all add: demo_slices_facts demo_lookup_facts, simp_all add: demo_entry_def other_entry_def)
  have "\<not> fle (ca_threshold small_cache) (CosineSimilarity (lk_vec demo_lookup) (ce_vector other_entry))"
    by (simp add: demo_lookup_facts other_entry_def small_cache_def demo_cache_def demo_cosines demo_compare)
  moreover have "lk_vec ?lk = lk_vec demo_lookup" by (simp add: numeral_2_eq_2)
  ultimately show ?thesis unfolding run using answer
    by (intro bexI [of _ ?lk]) (simp_all only: demo_lookup_facts list.set insert_iff simp_thms)
qed

end
