(* ===== verification/Spec2Isabelle.thy ===== *)
theory Spec2Isabelle
  imports Gateway_Fairness Gateway_Process Cache_Slices
begin

text \<open>
  Verification of an LLM gateway written in Go: one HTTP endpoint for chat completions in front
  of several providers, with routing, weighted balancing, circuit breakers, retries and
  fallbacks, a semantic cache, API keys, rate limits and event streams.

  \<^bold>\<open>How the program works.\<close> \<^verbatim>\<open>cmd/gateway/main.go\<close> loads the configuration, builds the
  components and serves requests. A request passes the middleware (id, log, API key, rate limit,
  validation) and reaches the handler of \<^verbatim>\<open>internal/ingress/handler.go\<close>, which calls the chat
  service of \<^verbatim>\<open>internal/ingress/service.go\<close>. A completion is looked up in the cache; on a miss
  the router chooses a model and a provider, the breaker of that pair is asked, and the fallback
  engine sends the request, retries it, tries the chain of other models and ends with a canned
  answer; an answer of a provider is stored in the cache. A stream goes from the router straight
  to the provider, and a goroutine forwards its chunks and tells the breaker how it ended.

  \<^bold>\<open>How the model represents it.\<close> A structure is a record, with the fields in the source's order
  under a prefix; a map is a HOL map, or an association list where the order of its iteration
  shows in the result; a string is a list of bytes; an \<^verbatim>\<open>int\<close> is an integer, with the wrap-around
  of 64 bits written out where the code adds unbounded values; a \<^verbatim>\<open>float64\<close> is computed exactly as
  binary64. An operation is a function of the state and of what it reads from outside (the clock,
  the network, Redis, the request context), all of which is one state of the world of any type
  \<open>'w\<close>. A result is \<open>Ok\<close>, \<open>Err\<close> with Go's error, or \<open>Panic\<close>. A mutex makes an operation one step;
  goroutines that run beside each other are step relations (the forwarding of a stream, the
  checks of the health report), and the state of the service under concurrent requests is a
  relation of its elementary changes.

  \<^bold>\<open>The theories, from the bottom up.\<close>
  \<^item> \<open>Gateway_Prelude\<close>: scalars, the clock arithmetic of \<^verbatim>\<open>time\<close>, the collections of simplification
    rules. \<open>Gateway_Model\<close>: \<^verbatim>\<open>internal/model\<close> (requests, responses, chunks, errors), the interface
    of a provider with its contract (locale \<open>chat_provider\<close>) and the updates of the metrics.
    \<open>Observability\<close>: \<^verbatim>\<open>internal/observability\<close>, the logger, the request id in a context and the
    registration of the metrics. \<open>Gateway_Config\<close>: the records of \<^verbatim>\<open>internal/config\<close>.
  \<^item> \<open>Go_Float\<close>, \<open>Go_Float_Facts\<close>: binary64 with rounding to nearest even, executable, and its
    agreement with rounding of real numbers. \<open>Go_Strings\<close>: bytes, runes, \<^verbatim>\<open>strconv\<close>, \<^verbatim>\<open>strings\<close>.
  \<^item> \<open>Json\<close>, \<open>Json_Roundtrip\<close>, \<open>Json_Codec\<close>: \<^verbatim>\<open>encoding/json\<close> as the program uses it: the text of
    values, the parser, the decoders and encoders of the model's structures.
    \<open>Float_Text\<close>, \<open>Float_Digits\<close>: the shortest decimal text of a double, its reading back, and that
    the search for it always succeeds.
  \<^item> \<open>Circuit_Breaker\<close>: \<^verbatim>\<open>internal/decision/circuitbreaker.go\<close> and the manager of breakers in
    \<^verbatim>\<open>service.go\<close> (locale \<open>breaker_manager\<close>).
  \<^item> \<open>Swrr_Spec\<close>, \<open>Balancer\<close>, \<open>Balancer_Fairness\<close>: smooth weighted round-robin on integers as the
    specification, \<^verbatim>\<open>balancer.go\<close> on doubles, and the refinement between them.
  \<^item> \<open>Embedding\<close>: the vector functions and the tensor plumbing of \<^verbatim>\<open>internal/embedding\<close>, and the
    loading of the engine. \<open>Strategies\<close>, \<open>Router\<close>: \<^verbatim>\<open>strategy_*.go\<close> and \<^verbatim>\<open>router.go\<close> (locale
    \<open>router_env\<close>). \<open>Registry\<close>: \<^verbatim>\<open>internal/egress/adapter.go\<close>.
  \<^item> \<open>Fallback\<close>: \<^verbatim>\<open>internal/fallback/engine.go\<close> (locale \<open>fallback_client\<close>). \<open>Semantic_Cache\<close>,
    \<open>Redis_Store\<close>: \<^verbatim>\<open>internal/cache\<close>. \<open>Cache_Slices\<close>: the entries of the cache as slices over arrays
    that the running lookups share (locale \<open>entry_store\<close>, also for plain lists), and a lookup as steps
    between which others run.
  \<^item> \<open>Chat_Service\<close>: the two operations of \<^verbatim>\<open>service.go\<close> and the forwarding goroutine.
  \<^item> \<open>Http_Client\<close>, \<open>Event_Stream\<close>, \<open>OpenAI\<close>, \<open>Anthropic\<close>: what the adapters use of \<^verbatim>\<open>net/http\<close> and
    \<^verbatim>\<open>bufio\<close>, and the two adapters of \<^verbatim>\<open>internal/egress\<close>.
  \<^item> \<open>Middleware\<close>, \<open>Health\<close>, \<open>Handler\<close>: the rest of \<^verbatim>\<open>internal/ingress\<close>.
  \<^item> \<open>Gateway_Main\<close>: the wiring of \<^verbatim>\<open>main.go\<close> and the chain of middleware. \<open>Gateway_Fairness\<close>: the
    balancing of the wired gateway. \<open>Config_Load\<close>: loading and reloading the configuration.
    \<open>Service_Invariants\<close>: the elementary changes of the service (locale \<open>service_invariant\<close>) with the
    invariants of the components as instances. \<open>Gateway_Process\<close>: the process from its start to its
    shutdown.

  \<^bold>\<open>What is shown.\<close> Of the running gateway, whatever requests do at the same time: it routes as its
  configuration says (past strategies and configured providers when the model names its provider),
  finds a route for every request that passes validation and whose model has no slash, never
  exceeds the capacity of the cache, keeps every breaker in its automaton, and leaves no stream's goroutine
  behind; only requests with a configured key, for a model that the key allows, reach the
  service; the providers of a model are chosen in proportion to their weights. Of the service:
  where an answer can come from, what is cached, what a breaker is told, and which errors leave
  it. Of the components: the balancer refines its specification, the breakers their automaton
  and the manager a family of breakers; the cache serves the most similar live entry and evicts
  the least recently used; what the store has saved in Redis can be loaded until its time to live
  is over (which the gateway never does); the adapters send what the client asked and
  decode the texts of streams, though not the reason to stop of an Anthropic stream; the limiter
  is a sliding window that admits no more than the limit, one request after the other. Lookups that
  run beside stores keep to their model and to the capacity and end after a bounded number of their
  own steps, and one that runs alone does what the operation says.
  JSON, numbers, vectors and streams have their round trips. Where the code does not do what it means to, a theorem says what it does instead: chains of models never
  answer, errors of a cancelled request or an unreachable upstream panic, an engine that is
  missing takes down the completions whose prompt is looked up, concurrent requests pass the
  limit, an eviction at the wrong moment answers a client with the response to another prompt, reloading has no effect.

  \<^bold>\<open>Bounds and fuel.\<close> The only fuel is that of \<open>shortest\<close>, the search for the digits of a number: 20
  powers of ten, of which at most 18 are needed (\<open>json_float_total\<close>). The JSON parser stops at the
  nesting of 10000 of \<^verbatim>\<open>encoding/json\<close>, the line scanner at the 65536 bytes of \<^verbatim>\<open>bufio\<close>; all other
  recursions are structural or have a measure. The balancer is exact while the sums of its
  weights fit 53 bits, which its properties assume.

  \<^bold>\<open>Not modelled.\<close> Third-party code is a parameter: Gin and \<^verbatim>\<open>net/http\<close> (parsing requests, recovery
  from panics, the connection), Redis, viper, the tokenizer and the ONNX session, SHA-256, the
  generators of ids, Prometheus' handler and zap. Their documented behaviour is a named
  hypothesis where a property needs it: \<open>zset_laws\<close>, \<open>redis_up\<close>, \<open>viper_laws\<close>, \<open>outside_handler\<close>. Of Redis
  this is what the commands \<^verbatim>\<open>SET\<close>, \<^verbatim>\<open>GET\<close>, \<^verbatim>\<open>ZADD\<close>, \<^verbatim>\<open>ZRANGE\<close> and \<^verbatim>\<open>EXPIRE\<close> say of a Redis that answers, with
  its clock and its deadlines, which time may reach between any two commands; times to live are whole
  seconds there, as the client rounds others. Gin answers a path with a trailing slash, such as
  \<^verbatim>\<open>/health/\<close>, with a redirect before any middleware runs; the model starts behind it. The
  durations in the histogram, listening and the grace period of
  the shutdown have no state of the program. The lookup of the cache is one step of the service,
  although its scan does not hold the lock: \<open>Cache_Slices\<close> takes it apart, with one read of an entry
  as the smallest step, which a Go program with a data race is not promised. The data races of the embedding engine's start are outside, as
  its initialization is guarded by \<^verbatim>\<open>sync.Once\<close>.
\<close>

end
